(* ===== verification/Diag_Prelude.thy ===== *)
theory Diag_Prelude
  imports "HOL-Library.Word"
begin

text \<open>
  Shared vocabulary of the development: the machine integers of the C sources, the
  faults that stand for undefined behaviour and for termination of the process, a
  result type with its sequencing operator, bounded memory objects with checked reads,
  and the little-endian layout of the packed wire structures.

  The host is assumed little endian and LP64, as the sources do when they overlay packed
  structures on wire buffers; \<^verbatim>\<open>size_t\<close> values that measure objects in memory are natural
  numbers, and are words of 64 bits where the code lets them wrap.
\<close>

unbundle bit_operations_syntax

type_synonym u8 = "8 word"
type_synonym u16 = "16 word"
type_synonym u32 = "32 word"
type_synonym u64 = "64 word"

named_theorems res_simps \<open>rewriting of sequenced computations\<close>
named_theorems wire_simps \<open>layout of wire structures\<close>

section \<open>Results\<close>

text \<open>
  A fault is the end of defined execution: an access outside an object, a dereference of a
  null pointer or of a released object, a failed assertion, a call of \<^verbatim>\<open>err\<close>, or a loop
  that does not end.
  Ordinary failures of the code (negative error codes) are values, not faults.
\<close>

datatype fault =
    OobRead
  | OobWrite
  | NullDeref
  | UseAfterFree
  | AssertFailed
  | Exited
  | Diverged

type_synonym 'a res = "fault + 'a"

definition andthen :: "'a res \<Rightarrow> ('a \<Rightarrow> 'b res) \<Rightarrow> 'b res" where
  "andthen m f = (case m of Inl e \<Rightarrow> Inl e | Inr x \<Rightarrow> f x)"

lemma andthen_Inl [simp, res_simps]: "andthen (Inl e) f = Inl e"
  by (simp add: andthen_def)

lemma andthen_Inr [simp, res_simps]: "andthen (Inr x) f = f x"
  by (simp add: andthen_def)

lemma andthen_assoc: "andthen (andthen m f) g = andthen m (\<lambda>x. andthen (f x) g)"
  by (cases m) simp_all

lemma andthen_eq_Inr: "andthen m f = Inr y \<longleftrightarrow> (\<exists>x. m = Inr x \<and> f x = Inr y)"
  by (cases m) simp_all

lemma andthen_eq_Inl: "andthen m f = Inl e \<longleftrightarrow> m = Inl e \<or> (\<exists>x. m = Inr x \<and> f x = Inl e)"
  by (cases m) simp_all

lemma andthen_cong [fundef_cong]:
  "m = m' \<Longrightarrow> (\<And>x. m' = Inr x \<Longrightarrow> f x = g x) \<Longrightarrow> andthen m f = andthen m' g"
  by (cases m') simp_all

lemma andthen_if: "andthen (if b then x else y) f = (if b then andthen x f else andthen y f)"
  by simp

text \<open>The error numbers of \<^verbatim>\<open>errno.h\<close> that the sources use.\<close>

definition ENOENT :: int where "ENOENT = 2"
definition EIO :: int where "EIO = 5"
definition EAGAIN :: int where "EAGAIN = 11"
definition ENOMEM :: int where "ENOMEM = 12"
definition EINVAL :: int where "EINVAL = 22"
definition EMSGSIZE :: int where "EMSGSIZE = 90"

lemmas errno_defs = ENOENT_def EIO_def EAGAIN_def ENOMEM_def EINVAL_def EMSGSIZE_def

text \<open>A fold over a list that stops at the first fault: the shape of \<^verbatim>\<open>list_for_each\<close> loops.\<close>

fun fold_res :: "('a \<Rightarrow> 's \<Rightarrow> 's res) \<Rightarrow> 'a list \<Rightarrow> 's \<Rightarrow> 's res" where
  "fold_res f [] s = Inr s"
| "fold_res f (x # xs) s = andthen (f x s) (fold_res f xs)"

lemma fold_res_append: "fold_res f (xs @ ys) s = andthen (fold_res f xs s) (fold_res f ys)"
proof (induction xs arbitrary: s)
  case Nil
  then show ?case by simp
next
  case (Cons x xs)
  then show ?case by (cases "f x s") simp_all
qed

text \<open>
  A contract shared by every loop of the router: when each step keeps an invariant, and
  does not fault under it, so does the loop.
\<close>

locale safe_step =
  fixes inv :: "'s \<Rightarrow> bool"
    and dom :: "'a \<Rightarrow> 's \<Rightarrow> bool"
    and step :: "'a \<Rightarrow> 's \<Rightarrow> 's res"
  assumes step_safe: "inv s \<Longrightarrow> dom x s \<Longrightarrow> \<exists>s'. step x s = Inr s' \<and> inv s'"
    and dom_stable: "inv s \<Longrightarrow> dom x s \<Longrightarrow> dom y s \<Longrightarrow> step x s = Inr s' \<Longrightarrow> dom y s'"
begin

lemma fold_safe:
  "inv s \<Longrightarrow> \<forall>x \<in> set xs. dom x s \<Longrightarrow> \<exists>s'. fold_res step xs s = Inr s' \<and> inv s'"
proof (induction xs arbitrary: s)
  case Nil
  then show ?case by simp
next
  case (Cons x xs)
  from Cons.prems have x: "inv s" "dom x s" by simp_all
  from step_safe [OF this] obtain s1 where s1: "step x s = Inr s1" "inv s1" by blast
  have "\<forall>y \<in> set xs. dom y s1"
    using Cons.prems(2) dom_stable [OF x _ s1(1)] by simp
  from Cons.IH [OF s1(2) this] s1(1) show ?case by simp
qed

end

section \<open>Memory objects\<close>

text \<open>
  A pointer into an object is the object's bytes from the pointer on: how many there are
  (\<open>cap\<close>) and their values. Reading past \<open>cap\<close> is a fault; reading past the
  length of a message but inside its buffer is not, and yields whatever the buffer holds.
\<close>

record mem =
  cap :: nat
  byte :: "nat \<Rightarrow> u8"

definition mem_of :: "u8 list \<Rightarrow> mem" where
  "mem_of xs = \<lparr>cap = length xs, byte = (\<lambda>i. if i < length xs then xs ! i else 0)\<rparr>"

definition mem_drop :: "nat \<Rightarrow> mem \<Rightarrow> mem" where
  "mem_drop n m = \<lparr>cap = cap m - n, byte = (\<lambda>i. byte m (n + i))\<rparr>"

text \<open>A message followed by other bytes of the buffer it was read into.\<close>

definition mem_msg :: "u8 list \<Rightarrow> nat \<Rightarrow> (nat \<Rightarrow> u8) \<Rightarrow> mem" where
  "mem_msg xs n stale = \<lparr>cap = n, byte = (\<lambda>i. if i < length xs then xs ! i else stale i)\<rparr>"

definition u16_of :: "u8 \<Rightarrow> u8 \<Rightarrow> u16" where
  "u16_of b0 b1 = ucast b0 OR push_bit 8 (ucast b1)"

definition u32_of :: "u8 \<Rightarrow> u8 \<Rightarrow> u8 \<Rightarrow> u8 \<Rightarrow> u32" where
  "u32_of b0 b1 b2 b3 =
     ucast b0 OR push_bit 8 (ucast b1) OR push_bit 16 (ucast b2) OR push_bit 24 (ucast b3)"

definition le16 :: "u16 \<Rightarrow> u8 list" where
  "le16 w = [ucast w, ucast (drop_bit 8 w)]"

definition le32 :: "u32 \<Rightarrow> u8 list" where
  "le32 w = [ucast w, ucast (drop_bit 8 w), ucast (drop_bit 16 w), ucast (drop_bit 24 w)]"

definition rd8 :: "mem \<Rightarrow> nat \<Rightarrow> u8 res" where
  "rd8 m i = (if i < cap m then Inr (byte m i) else Inl OobRead)"

definition rd16 :: "mem \<Rightarrow> nat \<Rightarrow> u16 res" where
  "rd16 m i = (if i + 1 < cap m then Inr (u16_of (byte m i) (byte m (i + 1))) else Inl OobRead)"

definition rd32 :: "mem \<Rightarrow> nat \<Rightarrow> u32 res" where
  "rd32 m i =
     (if i + 3 < cap m
      then Inr (u32_of (byte m i) (byte m (i + 1)) (byte m (i + 2)) (byte m (i + 3)))
      else Inl OobRead)"

definition rd_bytes :: "mem \<Rightarrow> nat \<Rightarrow> nat \<Rightarrow> u8 list res" where
  "rd_bytes m i n =
     (if n = 0 \<or> i + n \<le> cap m then Inr (map (\<lambda>k. byte m (i + k)) [0..<n]) else Inl OobRead)"

fun rd32s :: "mem \<Rightarrow> nat \<Rightarrow> nat \<Rightarrow> u32 list res" where
  "rd32s m i 0 = Inr []"
| "rd32s m i (Suc n) =
     andthen (rd32 m i) (\<lambda>w. andthen (rd32s m (i + 4) n) (\<lambda>ws. Inr (w # ws)))"

lemma length_le16 [simp, wire_simps]: "length (le16 w) = 2"
  by (simp add: le16_def)

lemma length_le32 [simp, wire_simps]: "length (le32 w) = 4"
  by (simp add: le32_def)

lemma length_concat_le32 [simp, wire_simps]: "length (concat (map le32 ws)) = 4 * length ws"
  by (induction ws) simp_all

lemma u16_of_le16 [wire_simps]: "u16_of (ucast w) (ucast (drop_bit 8 w)) = w"
  by (rule bit_word_eqI)
    (auto simp: u16_of_def bit_or_iff bit_push_bit_iff bit_ucast_iff bit_drop_bit_eq)

lemma u32_of_le32 [wire_simps]:
  "u32_of (ucast w) (ucast (drop_bit 8 w)) (ucast (drop_bit 16 w)) (ucast (drop_bit 24 w)) = w"
proof (rule bit_word_eqI)
  fix n
  assume "n < LENGTH(32)"
  moreover have "n < 8 \<or> 8 \<le> n \<and> n < 16 \<or> 16 \<le> n \<and> n < 24 \<or> 24 \<le> n" by arith
  ultimately show "bit (u32_of (ucast w) (ucast (drop_bit 8 w)) (ucast (drop_bit 16 w))
      (ucast (drop_bit 24 w))) n = bit w n"
    by (elim disjE conjE)
      (auto simp: u32_of_def bit_or_iff bit_push_bit_iff bit_ucast_iff bit_drop_bit_eq
        less_diff_conv2)
qed

lemma byte_mem_of [simp]: "i < length xs \<Longrightarrow> byte (mem_of xs) i = xs ! i"
  by (simp add: mem_of_def)

lemma cap_mem_of [simp]: "cap (mem_of xs) = length xs"
  by (simp add: mem_of_def)

lemma cap_mem_msg [simp]: "cap (mem_msg xs n stale) = n"
  by (simp add: mem_msg_def)

lemma byte_mem_msg [simp]: "i < length xs \<Longrightarrow> byte (mem_msg xs n stale) i = xs ! i"
  by (simp add: mem_msg_def)

lemma cap_mem_drop [simp]: "cap (mem_drop n m) = cap m - n"
  by (simp add: mem_drop_def)

lemma byte_mem_drop [simp]: "byte (mem_drop n m) i = byte m (n + i)"
  by (simp add: mem_drop_def)

lemma rd8_ok: "i < cap m \<Longrightarrow> rd8 m i = Inr (byte m i)"
  by (simp add: rd8_def)

lemma rd_bytes_ok: "i + n \<le> cap m \<Longrightarrow> rd_bytes m i n = Inr (map (\<lambda>k. byte m (i + k)) [0..<n])"
  by (simp add: rd_bytes_def)

lemma rd_bytes_Inr: "rd_bytes m i n = Inr bs \<Longrightarrow> length bs = n"
  by (auto simp: rd_bytes_def split: if_splits)

lemma rd_bytes_0 [simp]: "rd_bytes m i 0 = Inr []"
  by (simp add: rd_bytes_def)

lemma rd32s_ok: "i + 4 * n \<le> cap m \<Longrightarrow> \<exists>ws. rd32s m i n = Inr ws \<and> length ws = n"
proof (induction n arbitrary: i)
  case 0
  then show ?case by simp
next
  case (Suc n)
  from Suc.prems have "i + 4 + 4 * n \<le> cap m" by simp
  then obtain ws where "rd32s m (i + 4) n = Inr ws" "length ws = n"
    using Suc.IH by blast
  then show ?case using Suc.prems by (simp add: rd32_def)
qed

section \<open>Indeterminate memory and the allocator\<close>

text \<open>
  The allocator decides for each request whether it succeeds, and what the bytes of the new
  object are before they are written. Both are arbitrary: \<open>alloc_ok s k\<close> says whether
  allocation number \<open>k\<close> succeeds and \<open>indet s k i\<close> is byte \<open>i\<close> of that object.
  Objects on the stack (arrays, \<^verbatim>\<open>alloca\<close>) are numbered in the same way, but cannot fail.
  The records of the components extend this one.
\<close>

record heap =
  alloc_no :: nat
  alloc_ok :: "nat \<Rightarrow> bool"
  indet :: "nat \<Rightarrow> nat \<Rightarrow> u8"

definition fresh_bytes :: "'z heap_scheme \<Rightarrow> nat \<Rightarrow> u8 list" where
  "fresh_bytes s n = map (indet s (alloc_no s)) [0..<n]"

definition malloc :: "nat \<Rightarrow> 'z heap_scheme \<Rightarrow> u8 list option \<times> 'z heap_scheme" where
  "malloc n s =
     (if alloc_ok s (alloc_no s) then Some (fresh_bytes s n) else None,
      s\<lparr>alloc_no := Suc (alloc_no s)\<rparr>)"

definition alloca :: "nat \<Rightarrow> 'z heap_scheme \<Rightarrow> u8 list \<times> 'z heap_scheme" where
  "alloca n s = (fresh_bytes s n, s\<lparr>alloc_no := Suc (alloc_no s)\<rparr>)"

text \<open>\<^verbatim>\<open>realloc\<close> keeps the common prefix; the bytes it adds are indeterminate.\<close>

definition realloc :: "u8 list \<Rightarrow> nat \<Rightarrow> 'z heap_scheme \<Rightarrow> u8 list option \<times> 'z heap_scheme" where
  "realloc old n s =
     (if alloc_ok s (alloc_no s) then Some (take n old @ drop (length old) (fresh_bytes s n)) else None,
      s\<lparr>alloc_no := Suc (alloc_no s)\<rparr>)"

text \<open>The same for an object that holds 32-bit words.\<close>

definition fresh_words :: "'z heap_scheme \<Rightarrow> nat \<Rightarrow> u32 list" where
  "fresh_words s n =
     map (\<lambda>i. u32_of (indet s (alloc_no s) (4 * i)) (indet s (alloc_no s) (4 * i + 1))
               (indet s (alloc_no s) (4 * i + 2)) (indet s (alloc_no s) (4 * i + 3))) [0..<n]"

definition realloc32 :: "u32 list \<Rightarrow> nat \<Rightarrow> 'z heap_scheme \<Rightarrow> u32 list option \<times> 'z heap_scheme" where
  "realloc32 old n s =
     (if alloc_ok s (alloc_no s) then Some (take n old @ drop (length old) (fresh_words s n)) else None,
      s\<lparr>alloc_no := Suc (alloc_no s)\<rparr>)"

definition mem_ok :: "'z heap_scheme \<Rightarrow> bool" where
  "mem_ok s \<longleftrightarrow> (\<forall>k. alloc_ok s k)"

lemma length_fresh_bytes [simp]: "length (fresh_bytes s n) = n"
  by (simp add: fresh_bytes_def)

lemma mem_okD [simp]: "mem_ok s \<Longrightarrow> alloc_ok s k"
  by (simp add: mem_ok_def)

lemma malloc_ok: "mem_ok s \<Longrightarrow> malloc n s = (Some (fresh_bytes s n), s\<lparr>alloc_no := Suc (alloc_no s)\<rparr>)"
  by (simp add: malloc_def)

lemma malloc_Some: "malloc n s = (Some p, s') \<Longrightarrow> length p = n"
  by (auto simp: malloc_def split: if_splits)

lemma length_realloc: "realloc old n s = (Some p, s') \<Longrightarrow> length p = n"
  by (auto simp: realloc_def split: if_splits)

lemma length_fresh_words [simp]: "length (fresh_words s n) = n"
  by (simp add: fresh_words_def)

lemma realloc32_ok:
  "mem_ok s \<Longrightarrow> realloc32 old n s =
    (Some (take n old @ drop (length old) (fresh_words s n)), s\<lparr>alloc_no := Suc (alloc_no s)\<rparr>)"
  by (simp add: realloc32_def)

lemma length_resized: "length (take n old @ drop (length old) (fresh_words s n)) = n"
  by simp

lemma mem_ok_alloc_no [simp]: "mem_ok (s\<lparr>alloc_no := k\<rparr>) = mem_ok s"
  by (simp add: mem_ok_def)

text \<open>
  \<^verbatim>\<open>memcpy\<close> of \<open>src\<close> to offset \<open>off\<close> of a destination object: a fault when it does not
  fit, and the destination with the bytes replaced otherwise.
\<close>

definition store :: "'a list \<Rightarrow> nat \<Rightarrow> 'a list \<Rightarrow> 'a list res" where
  "store dst off src =
     (if src = [] then Inr dst
      else if off + length src \<le> length dst
      then Inr (take off dst @ src @ drop (off + length src) dst)
      else Inl OobWrite)"

text \<open>\<^verbatim>\<open>memcpy\<close> from an object: reading more than it holds is a fault.\<close>

definition load :: "'a list \<Rightarrow> nat \<Rightarrow> 'a list res" where
  "load src n = (if n \<le> length src then Inr (take n src) else Inl OobRead)"

lemma length_store: "store dst off src = Inr r \<Longrightarrow> length r = length dst"
  by (auto simp: store_def split: if_splits)

lemma store_ok: "off + length src \<le> length dst \<Longrightarrow>
    store dst off src = Inr (take off dst @ src @ drop (off + length src) dst)"
  by (auto simp: store_def)

lemma store_nth:
  assumes "store dst off src = Inr r" and "i < length dst"
  shows "r ! i = (if off \<le> i \<and> i < off + length src then src ! (i - off) else dst ! i)"
  using assms by (auto simp: store_def nth_append split: if_splits)

lemma load_ok [simp]: "n \<le> length src \<Longrightarrow> load src n = Inr (take n src)"
  by (simp add: load_def)

lemma load_Inr: "load src n = Inr r \<longleftrightarrow> n \<le> length src \<and> r = take n src"
  by (auto simp: load_def)

text \<open>\<^verbatim>\<open>memset\<close> of the first \<open>n\<close> elements of an object.\<close>

definition fill :: "'a list \<Rightarrow> 'a \<Rightarrow> nat \<Rightarrow> 'a list res" where
  "fill dst v n = (if n \<le> length dst then Inr (replicate n v @ drop n dst) else Inl OobWrite)"

lemma fill_ok: "n \<le> length dst \<Longrightarrow> fill dst v n = Inr (replicate n v @ drop n dst)"
  by (simp add: fill_def)

lemma length_fill: "fill dst v n = Inr r \<Longrightarrow> length r = length dst"
  by (auto simp: fill_def split: if_splits)

text \<open>Pointers to heap objects, which may be null or dangling, and arrays with a bound.\<close>

datatype 'a pointer = Null | Freed | Obj 'a

definition deref :: "'a pointer \<Rightarrow> 'a res" where
  "deref p = (case p of Null \<Rightarrow> Inl NullDeref | Freed \<Rightarrow> Inl UseAfterFree | Obj x \<Rightarrow> Inr x)"

lemma deref_simps [simp]:
  "deref Null = Inl NullDeref" "deref Freed = Inl UseAfterFree" "deref (Obj x) = Inr x"
  by (simp_all add: deref_def)

definition arr_read :: "'a list \<Rightarrow> nat \<Rightarrow> 'a res" where
  "arr_read xs i = (if i < length xs then Inr (xs ! i) else Inl OobRead)"

text \<open>The first index at which a search loop stops.\<close>

fun first_index :: "('a \<Rightarrow> bool) \<Rightarrow> 'a list \<Rightarrow> nat option" where
  "first_index P [] = None"
| "first_index P (x # xs) = (if P x then Some 0 else map_option Suc (first_index P xs))"

lemma first_index_Some:
  "first_index P xs = Some i \<Longrightarrow> i < length xs \<and> P (xs ! i) \<and> (\<forall>j < i. \<not> P (xs ! j))"
proof (induction xs arbitrary: i)
  case (Cons x xs)
  then show ?case by (fastforce simp: less_Suc_eq_0_disj split: if_splits)
qed simp

lemma first_index_None: "first_index P xs = None \<longleftrightarrow> (\<forall>x \<in> set xs. \<not> P x)"
  by (induction xs) auto

lemma first_index_unique:
  "i < length xs \<Longrightarrow> P (xs ! i) \<Longrightarrow> (\<And>j. j < i \<Longrightarrow> \<not> P (xs ! j)) \<Longrightarrow> first_index P xs = Some i"
proof (induction xs arbitrary: i)
  case (Cons x xs)
  show ?case
  proof (cases i)
    case 0
    with Cons.prems show ?thesis by simp
  next
    case (Suc k)
    have "first_index P xs = Some k"
    proof (rule Cons.IH)
      show "\<not> P (xs ! j)" if "j < k" for j
        using Cons.prems(3) [of "Suc j"] that Suc by simp
    qed (use Cons.prems Suc in auto)
    moreover have "\<not> P x" using Cons.prems(3) [of 0] Suc by simp
    ultimately show ?thesis using Suc by simp
  qed
qed simp

text \<open>The macro \<^verbatim>\<open>BITS_TO_BYTES\<close> of \<^verbatim>\<open>util.h\<close>, at the width of its unsigned argument.\<close>

definition bits_to_bytes32 :: "u32 \<Rightarrow> u32" where
  "bits_to_bytes32 n = (n + 7) div 8"

text \<open>A 16-bit argument is promoted to \<^verbatim>\<open>int\<close>, where the sum cannot overflow.\<close>

definition bits_to_bytes16 :: "u16 \<Rightarrow> nat" where
  "bits_to_bytes16 n = (unat n + 7) div 8"

lemma bits_to_bytes16_mono: "m \<le> n \<Longrightarrow> bits_to_bytes16 m \<le> bits_to_bytes16 n"
  by (simp add: bits_to_bytes16_def word_le_nat_alt div_le_mono)

lemma unat_bits_to_bytes32:
  assumes "unat n + 7 < 2 ^ 32"
  shows "unat (bits_to_bytes32 n) = (unat n + 7) div 8"
proof -
  have "unat (n + 7) = unat n + 7"
    using assms by (simp add: unat_word_ariths)
  then show ?thesis by (simp add: bits_to_bytes32_def unat_div)
qed

lemma map_leI: "(\<And>k v. m k = Some v \<Longrightarrow> m' k = Some v) \<Longrightarrow> m \<subseteq>\<^sub>m m'"
  by (auto simp: map_le_def)

end
