(* ===== verification/Hdlc_Crc.thy ===== *)
theory Hdlc_Crc
  imports Diag_Prelude
begin

text \<open>
  The frame check sequence of \<^verbatim>\<open>hdlc.c\<close>: the lookup table and the table-driven step. The
  table is shown to be that of the reversed CCITT polynomial, the step to be eight steps
  of the division for every state and byte, and the check sequence to have the residue
  and the error detection that a receiver can rely on.
\<close>

section \<open>The frame check sequence\<close>

definition crc_table :: "u16 list" where
  "crc_table = [
     0x0000, 0x1189, 0x2312, 0x329b, 0x4624, 0x57ad, 0x6536, 0x74bf,
     0x8c48, 0x9dc1, 0xaf5a, 0xbed3, 0xca6c, 0xdbe5, 0xe97e, 0xf8f7,
     0x1081, 0x0108, 0x3393, 0x221a, 0x56a5, 0x472c, 0x75b7, 0x643e,
     0x9cc9, 0x8d40, 0xbfdb, 0xae52, 0xdaed, 0xcb64, 0xf9ff, 0xe876,
     0x2102, 0x308b, 0x0210, 0x1399, 0x6726, 0x76af, 0x4434, 0x55bd,
     0xad4a, 0xbcc3, 0x8e58, 0x9fd1, 0xeb6e, 0xfae7, 0xc87c, 0xd9f5,
     0x3183, 0x200a, 0x1291, 0x0318, 0x77a7, 0x662e, 0x54b5, 0x453c,
     0xbdcb, 0xac42, 0x9ed9, 0x8f50, 0xfbef, 0xea66, 0xd8fd, 0xc974,
     0x4204, 0x538d, 0x6116, 0x709f, 0x0420, 0x15a9, 0x2732, 0x36bb,
     0xce4c, 0xdfc5, 0xed5e, 0xfcd7, 0x8868, 0x99e1, 0xab7a, 0xbaf3,
     0x5285, 0x430c, 0x7197, 0x601e, 0x14a1, 0x0528, 0x37b3, 0x263a,
     0xdecd, 0xcf44, 0xfddf, 0xec56, 0x98e9, 0x8960, 0xbbfb, 0xaa72,
     0x6306, 0x728f, 0x4014, 0x519d, 0x2522, 0x34ab, 0x0630, 0x17b9,
     0xef4e, 0xfec7, 0xcc5c, 0xddd5, 0xa96a, 0xb8e3, 0x8a78, 0x9bf1,
     0x7387, 0x620e, 0x5095, 0x411c, 0x35a3, 0x242a, 0x16b1, 0x0738,
     0xffcf, 0xee46, 0xdcdd, 0xcd54, 0xb9eb, 0xa862, 0x9af9, 0x8b70,
     0x8408, 0x9581, 0xa71a, 0xb693, 0xc22c, 0xd3a5, 0xe13e, 0xf0b7,
     0x0840, 0x19c9, 0x2b52, 0x3adb, 0x4e64, 0x5fed, 0x6d76, 0x7cff,
     0x9489, 0x8500, 0xb79b, 0xa612, 0xd2ad, 0xc324, 0xf1bf, 0xe036,
     0x18c1, 0x0948, 0x3bd3, 0x2a5a, 0x5ee5, 0x4f6c, 0x7df7, 0x6c7e,
     0xa50a, 0xb483, 0x8618, 0x9791, 0xe32e, 0xf2a7, 0xc03c, 0xd1b5,
     0x2942, 0x38cb, 0x0a50, 0x1bd9, 0x6f66, 0x7eef, 0x4c74, 0x5dfd,
     0xb58b, 0xa402, 0x9699, 0x8710, 0xf3af, 0xe226, 0xd0bd, 0xc134,
     0x39c3, 0x284a, 0x1ad1, 0x0b58, 0x7fe7, 0x6e6e, 0x5cf5, 0x4d7c,
     0xc60c, 0xd785, 0xe51e, 0xf497, 0x8028, 0x91a1, 0xa33a, 0xb2b3,
     0x4a44, 0x5bcd, 0x6956, 0x78df, 0x0c60, 0x1de9, 0x2f72, 0x3efb,
     0xd68d, 0xc704, 0xf59f, 0xe416, 0x90a9, 0x8120, 0xb3bb, 0xa232,
     0x5ac5, 0x4b4c, 0x79d7, 0x685e, 0x1ce1, 0x0d68, 0x3ff3, 0x2e7a,
     0xe70e, 0xf687, 0xc41c, 0xd595, 0xa12a, 0xb0a3, 0x8238, 0x93b1,
     0x6b46, 0x7acf, 0x4854, 0x59dd, 0x2d62, 0x3ceb, 0x0e70, 0x1ff9,
     0xf78f, 0xe606, 0xd49d, 0xc514, 0xb1ab, 0xa022, 0x92b9, 0x8330,
     0x7bc7, 0x6a4e, 0x58d5, 0x495c, 0x3de3, 0x2c6a, 0x1ef1, 0x0f78
   ]"

definition hdlc_crc_byte :: "u16 \<Rightarrow> u8 \<Rightarrow> u16" where
  "hdlc_crc_byte crc ch = drop_bit 8 crc XOR (crc_table ! unat ((crc XOR ucast ch) AND 0xff))"

text \<open>One step of the division by the reversed polynomial, and eight of them.\<close>

definition crc_shift :: "u16 \<Rightarrow> u16" where
  "crc_shift c = (if bit c 0 then drop_bit 1 c XOR 0x8408 else drop_bit 1 c)"

definition crc_shift8 :: "u16 \<Rightarrow> u16" where
  "crc_shift8 c = crc_shift (crc_shift (crc_shift (crc_shift
     (crc_shift (crc_shift (crc_shift (crc_shift c)))))))"

lemma length_crc_table [simp]: "length crc_table = 256"
  by (simp add: crc_table_def)

text \<open>The table agrees with the division; the entries are evaluated in four blocks.\<close>

lemma crc_shift_even: "\<not> bit c 0 \<Longrightarrow> crc_shift c = drop_bit 1 c"
  by (simp add: crc_shift_def)

lemma crc_shift_odd: "bit c 0 \<Longrightarrow> crc_shift c = drop_bit 1 c XOR 0x8408"
  by (simp add: crc_shift_def)

lemmas crc_eval = crc_shift8_def crc_shift_even crc_shift_odd crc_table_def

definition table_block_ok :: "nat \<Rightarrow> bool" where
  "table_block_ok k \<longleftrightarrow>
     list_all (\<lambda>(i, v). crc_shift8 (of_nat i) = v) (enumerate k (take 64 (drop k crc_table)))"

lemma table_block_0: "table_block_ok 0"
  by (simp add: table_block_ok_def crc_eval)

lemma table_block_64: "table_block_ok 64"
  by (simp add: table_block_ok_def crc_eval)

lemma table_block_128: "table_block_ok 128"
  by (simp add: table_block_ok_def crc_eval)

lemma table_block_192: "table_block_ok 192"
  by (simp add: table_block_ok_def crc_eval)

lemma table_block_nth:
  assumes "table_block_ok k" and "k \<le> i" and "i < k + 64" and "i < 256"
  shows "crc_table ! i = crc_shift8 (of_nat i)"
proof -
  have "take 64 (drop k crc_table) ! (i - k) = crc_table ! i"
    using assms by simp
  then have "(i, crc_table ! i) \<in> set (enumerate k (take 64 (drop k crc_table)))"
    using assms by (auto simp: in_set_enumerate_eq)
  with assms(1) show ?thesis by (fastforce simp: table_block_ok_def list_all_iff)
qed

lemma crc_table_nth:
  assumes "i < 256"
  shows "crc_table ! i = crc_shift8 (of_nat i)"
proof -
  consider "i < 64" | "64 \<le> i" "i < 128" | "128 \<le> i" "i < 192" | "192 \<le> i" by linarith
  then show ?thesis
    using assms table_block_nth table_block_0 table_block_64 table_block_128 table_block_192
    by cases (auto simp del: upt_Suc)
qed

lemma crc_shift_xor: "crc_shift (a XOR b) = crc_shift a XOR crc_shift b"
  by (cases "bit a 0"; cases "bit b 0") (simp_all add: crc_shift_def bit_xor_iff ac_simps)

lemma crc_shift8_xor: "crc_shift8 (a XOR b) = crc_shift8 a XOR crc_shift8 b"
  by (simp add: crc_shift8_def crc_shift_xor)

lemma crc_shift8_high:
  assumes "c AND 0xff = (0 :: u16)"
  shows "crc_shift8 c = drop_bit 8 c"
proof -
  have low: "\<not> bit c n" if "n < 8" for n
  proof -
    have "bit (c AND mask 8) n = bit (0 :: u16) n" using assms by (simp add: mask_eq_exp_minus_1)
    with that show ?thesis by (simp add: bit_and_iff bit_mask_iff)
  qed
  have "crc_shift (drop_bit n c) = drop_bit (Suc n) c" if "n < 8" for n
    using low [OF that] by (simp add: crc_shift_even bit_drop_bit_eq drop_bit_drop_bit)
  from this [of 0] this [of 1] this [of 2] this [of 3] this [of 4] this [of 5] this [of 6] this [of 7]
  show ?thesis by (simp add: crc_shift8_def numeral_eq_Suc)
qed

text \<open>One table step is eight steps of the division, for every state and byte.\<close>

lemma hdlc_crc_byte_division: "hdlc_crc_byte crc ch = crc_shift8 (crc XOR ucast ch)"
proof -
  let ?x = "crc XOR ucast ch :: u16"
  let ?lo = "?x AND 0xff"
  have lt: "unat ?lo < 256"
  proof -
    have "?lo \<le> 0xff" by (rule word_and_le1)
    then show ?thesis by (simp add: word_le_nat_alt)
  qed
  have ff: "(0xff :: u16) = mask 8" by (simp add: mask_eq_exp_minus_1)
  have split: "?x = (?x AND NOT 0xff) XOR ?lo"
    by (rule bit_word_eqI) (auto simp: bit_simps)
  have "crc_shift8 ?x = crc_shift8 (?x AND NOT 0xff) XOR crc_shift8 ?lo"
    by (subst split) (rule crc_shift8_xor)
  also have "crc_shift8 (?x AND NOT 0xff) = drop_bit 8 (?x AND NOT 0xff)"
    by (rule crc_shift8_high) (simp add: and.assoc)
  also have "drop_bit 8 (?x AND NOT 0xff) = drop_bit 8 crc"
    unfolding ff by (rule bit_word_eqI) (auto simp: bit_simps dest: bit_imp_le_length)
  also have "crc_shift8 ?lo = crc_table ! unat ?lo"
    using crc_table_nth [OF lt] by simp
  finally show ?thesis by (simp add: hdlc_crc_byte_def)
qed


section \<open>What the check sequence detects\<close>

text \<open>The check sequence of a message, before it is complemented for the wire.\<close>

definition crc_of :: "u8 list \<Rightarrow> u16" where
  "crc_of bs = fold (\<lambda>ch crc. hdlc_crc_byte crc ch) bs 0xffff"

lemma crc_shift_top: "bit (crc_shift c) 15 = bit c 0"
proof -
  have "\<not> bit c 16" using bit_imp_le_length [of c 16] by auto
  then show ?thesis by (simp add: crc_shift_def bit_simps)
qed

lemma xor_left_cancel: "a XOR b = a XOR c \<longleftrightarrow> b = (c :: 'a :: len word)"
  by (metis xor.assoc xor.left_neutral xor_self_eq)

lemma xor_right_cancel: "b XOR a = c XOR a \<longleftrightarrow> b = (c :: 'a :: len word)"
  by (metis xor.commute xor_left_cancel)

lemma crc_shift_inj: "crc_shift a = crc_shift b \<longleftrightarrow> a = b"
proof
  assume eq: "crc_shift a = crc_shift b"
  then have b0: "bit a 0 = bit b 0" using crc_shift_top by metis
  then have "drop_bit 1 a = drop_bit 1 b"
    using eq by (auto simp: crc_shift_def xor_right_cancel split: if_splits)
  then have tl: "bit a (Suc n) = bit b (Suc n)" for n
    by (metis bit_drop_bit_eq comp_apply plus_1_eq_Suc)
  show "a = b"
  proof (rule bit_word_eqI)
    fix n
    show "bit a n = bit b n" using b0 tl by (cases n) simp_all
  qed
qed simp

lemma crc_shift8_inj: "crc_shift8 a = crc_shift8 b \<longleftrightarrow> a = b"
  by (simp add: crc_shift8_def crc_shift_inj)

lemma hdlc_crc_byte_inj_state: "hdlc_crc_byte c ch = hdlc_crc_byte c' ch \<longleftrightarrow> c = c'"
  by (simp add: hdlc_crc_byte_division crc_shift8_inj xor_right_cancel)

lemma hdlc_crc_byte_inj_byte: "hdlc_crc_byte c x = hdlc_crc_byte c y \<longleftrightarrow> x = y"
proof
  assume "hdlc_crc_byte c x = hdlc_crc_byte c y"
  then have eq: "(ucast x :: u16) = ucast y"
    by (simp add: hdlc_crc_byte_division crc_shift8_inj xor_left_cancel)
  show "x = y"
  proof (rule bit_word_eqI)
    fix n
    assume "n < LENGTH(8)"
    moreover have "bit (ucast x :: u16) n = bit (ucast y :: u16) n" by (simp add: eq)
    ultimately show "bit x n = bit y n" by (simp add: bit_simps)
  qed
qed simp

lemma crc_fold_inj:
  "fold (\<lambda>ch crc. hdlc_crc_byte crc ch) bs c = fold (\<lambda>ch crc. hdlc_crc_byte crc ch) bs c' \<longleftrightarrow> c = c'"
  by (induction bs arbitrary: c c') (simp_all add: hdlc_crc_byte_inj_state)

lemma crc_of_change_byte: "crc_of (xs @ [x] @ ys) = crc_of (xs @ [y] @ ys) \<longleftrightarrow> x = y"
  by (simp add: crc_of_def crc_fold_inj hdlc_crc_byte_inj_byte)

text \<open>The two bytes sent after a message, low byte first.\<close>

definition fcs_bytes :: "u16 \<Rightarrow> u8 list" where
  "fcs_bytes crc = [ucast (NOT crc), ucast (drop_bit 8 (NOT crc))]"

lemma crc_residue_step: "fold (\<lambda>ch crc. hdlc_crc_byte crc ch) (fcs_bytes c) c = 0xf0b8"
proof -
  have m: "(0xff :: u16) = mask 8" by (simp add: mask_eq_exp_minus_1)
  have a: "(c XOR ucast (ucast (NOT c) :: u8)) AND 0xff = 0xff"
    unfolding m by (rule bit_word_eqI) (auto simp: bit_simps)
  let ?c1 = "drop_bit 8 c XOR 0x0f78"
  have b: "(?c1 XOR ucast (ucast (drop_bit 8 (NOT c)) :: u8)) AND 0xff = 0x87"
  proof -
    have "(?c1 XOR ucast (ucast (drop_bit 8 (NOT c)) :: u8)) AND 0xff = (0x0f78 XOR 0xff) AND 0xff"
      unfolding m by (rule bit_word_eqI) (auto simp: bit_simps dest: bit_imp_le_length)
    then show ?thesis by simp
  qed
  have d: "drop_bit 8 ?c1 = 0x0f"
  proof -
    have "drop_bit 8 ?c1 = drop_bit 8 0x0f78"
      by (rule bit_word_eqI) (auto simp: bit_simps dest: bit_imp_le_length)
    then show ?thesis by simp
  qed
  have t: "crc_table ! 255 = 0x0f78" "crc_table ! 135 = 0xf0b7"
    by (simp_all add: crc_table_def)
  have step1: "hdlc_crc_byte c (ucast (NOT c)) = ?c1"
    unfolding hdlc_crc_byte_def a by (simp add: t)
  have "hdlc_crc_byte ?c1 (ucast (drop_bit 8 (NOT c))) = 0xf0b8"
    unfolding hdlc_crc_byte_def b d by (simp add: t)
  with step1 show ?thesis by (simp add: fcs_bytes_def)
qed

lemma crc_residue: "crc_of (bs @ fcs_bytes (crc_of bs)) = 0xf0b8"
  using crc_residue_step [of "crc_of bs"] by (simp add: crc_of_def)

end
