(* ===== verification/Circ_Buf.thy ===== *)
theory Circ_Buf
  imports Diag_Prelude
begin

text \<open>
  The receive ring of \<^verbatim>\<open>circ_buf.c\<close>: a buffer of 16384 bytes, two indices of type
  \<^verbatim>\<open>size_t\<close> that wrap by masking, and the loop that fills it from a non-blocking file
  descriptor. The lemmas show that the loop appends the bytes it was given, in order,
  to the contents of the ring, stays inside the buffer, and stops.
\<close>

section \<open>File descriptors\<close>

text \<open>
  What a descriptor will deliver is a script: runs of bytes, failures with their error
  number, or the end of the stream. A read returns at most the number of bytes asked
  for; an empty script means that a read would block.
\<close>

datatype fd_event = Data "u8 list" | Fail int | Eof

datatype read_result = Got "u8 list" | Errno int

fun fd_read :: "nat \<Rightarrow> fd_event list \<Rightarrow> read_result \<times> fd_event list" where
  "fd_read n [] = (Errno EAGAIN, [])"
| "fd_read n (Fail e # es) = (Errno e, es)"
| "fd_read n (Eof # es) = (Got [], Eof # es)"
| "fd_read n (Data bs # es) =
     (Got (take n bs), if length bs \<le> n then es else Data (drop n bs) # es)"

fun script_bytes :: "fd_event list \<Rightarrow> u8 list" where
  "script_bytes [] = []"
| "script_bytes (Data bs # es) = bs @ script_bytes es"
| "script_bytes (_ # es) = script_bytes es"

lemma fd_read_bytes: "fd_read n es = (Got bs, es') \<Longrightarrow> script_bytes es = bs @ script_bytes es'"
  by (cases "(n, es)" rule: fd_read.cases) (auto split: if_splits)

lemma fd_read_length: "fd_read n es = (Got bs, es') \<Longrightarrow> length bs \<le> n"
  by (cases "(n, es)" rule: fd_read.cases) auto

lemma fd_read_Errno: "fd_read n es = (Errno e, es') \<Longrightarrow> script_bytes es' = script_bytes es"
  by (cases "(n, es)" rule: fd_read.cases) auto

section \<open>The ring\<close>

definition HDLC_BUF_SIZE :: nat where
  "HDLC_BUF_SIZE = 16384"

record circ_buf =
  buf :: "nat \<Rightarrow> u8"
  head :: u64
  tail :: u64

definition circ_mask :: "u64 \<Rightarrow> u64" where
  "circ_mask x = x AND (of_nat HDLC_BUF_SIZE - 1)"

definition circ_space :: "circ_buf \<Rightarrow> u64" where
  "circ_space b = circ_mask (tail b - head b - 1)"

definition circ_space_to_end :: "circ_buf \<Rightarrow> u64" where
  "circ_space_to_end b =
     (if circ_space b < of_nat HDLC_BUF_SIZE - head b then circ_space b
      else of_nat HDLC_BUF_SIZE - head b)"

text \<open>The bytes that \<^verbatim>\<open>read\<close> stores at the head; past the array they are a fault.\<close>

definition circ_store :: "circ_buf \<Rightarrow> u8 list \<Rightarrow> circ_buf res" where
  "circ_store b bs =
     (if unat (head b) + length bs \<le> HDLC_BUF_SIZE \<or> bs = []
      then Inr (b\<lparr>buf := (\<lambda>i. if unat (head b) \<le> i \<and> i < unat (head b) + length bs
                              then bs ! (i - unat (head b)) else buf b i),
                  head := circ_mask (head b + of_nat (length bs))\<rparr>)
      else Inl OobWrite)"

text \<open>
  The result is the code's return value (0, or -1 after a failed read), \<^verbatim>\<open>errno\<close> as the
  read left it, the ring and what is left of the script.
\<close>

function circ_read ::
    "circ_buf \<Rightarrow> fd_event list \<Rightarrow> (int \<times> int \<times> circ_buf \<times> fd_event list) res" where
  "circ_read b es =
     (let space = circ_space_to_end b; r = fd_read (unat space) es in
      if space = 0 then Inr (0, 0, b, es)
      else case fst r of
             Errno e \<Rightarrow> Inr (-1, e, b, snd r)
           | Got bs \<Rightarrow>
               andthen (circ_store b bs) (\<lambda>b'.
                 if length bs = unat space then circ_read b' (snd r)
                 else Inr (0, 0, b', snd r)))"
  by pat_completeness auto

lemma fd_read_consumes:
  "fst (fd_read (unat space) es) = Got bs \<Longrightarrow> length bs = unat space \<Longrightarrow> space \<noteq> 0 \<Longrightarrow>
   length (script_bytes (snd (fd_read (unat space) es))) < length (script_bytes es)"
  for space :: u64
  using fd_read_bytes [of "unat space" es bs "snd (fd_read (unat space) es)"]
  by (cases bs) (auto simp: prod_eq_iff unat_eq_zero)

termination circ_read
  by (relation "measure (\<lambda>(b, es). length (script_bytes es))") (auto intro: fd_read_consumes)

declare circ_read.simps [simp del]

definition circ_inv :: "circ_buf \<Rightarrow> bool" where
  "circ_inv b \<longleftrightarrow> unat (head b) < HDLC_BUF_SIZE \<and> unat (tail b) < HDLC_BUF_SIZE"

definition circ_count :: "circ_buf \<Rightarrow> nat" where
  "circ_count b = (unat (head b) + HDLC_BUF_SIZE - unat (tail b)) mod HDLC_BUF_SIZE"

text \<open>The bytes waiting in the ring, oldest first.\<close>

definition contents :: "circ_buf \<Rightarrow> u8 list" where
  "contents b = map (\<lambda>i. buf b ((unat (tail b) + i) mod HDLC_BUF_SIZE)) [0..<circ_count b]"

section \<open>Index arithmetic\<close>

lemma circ_mask_unat [simp]: "unat (circ_mask x) = unat x mod HDLC_BUF_SIZE"
proof -
  have "circ_mask x = take_bit 14 x"
    by (simp add: circ_mask_def HDLC_BUF_SIZE_def take_bit_eq_mask mask_eq_exp_minus_1)
  then have "unat (circ_mask x) = take_bit 14 (unat x)"
    by (simp add: unsigned_take_bit_eq)
  then show ?thesis by (simp add: HDLC_BUF_SIZE_def take_bit_eq_mod)
qed

lemma mod_range_diff:
  fixes h t n :: int
  assumes "0 \<le> h" "h < n" "0 \<le> t" "t < n"
  shows "(h - t) mod n = (if t \<le> h then h - t else h - t + n)"
proof (cases "t \<le> h")
  case True
  with assms show ?thesis by simp
next
  case False
  have "(h - t) mod n = (h - t + n) mod n" by simp
  also have "\<dots> = h - t + n" using assms False by (intro mod_pos_pos_trivial) simp_all
  finally show ?thesis using False by simp
qed

lemma circ_count_cases:
  assumes "circ_inv b"
  shows "circ_count b =
    (if unat (tail b) \<le> unat (head b) then unat (head b) - unat (tail b)
     else unat (head b) + HDLC_BUF_SIZE - unat (tail b))"
proof (cases "unat (tail b) \<le> unat (head b)")
  case True
  then have "unat (head b) + HDLC_BUF_SIZE - unat (tail b) = unat (head b) - unat (tail b) + HDLC_BUF_SIZE"
    by simp
  then have "circ_count b = (unat (head b) - unat (tail b)) mod HDLC_BUF_SIZE"
    unfolding circ_count_def by (simp only: mod_add_self2)
  also have "\<dots> = unat (head b) - unat (tail b)"
    using assms by (intro mod_less) (auto simp: circ_inv_def)
  finally show ?thesis using True by simp
next
  case False
  have "circ_count b = unat (head b) + HDLC_BUF_SIZE - unat (tail b)"
    unfolding circ_count_def using assms False by (intro mod_less) (auto simp: circ_inv_def)
  with False show ?thesis by simp
qed

lemma circ_space_unat:
  assumes "circ_inv b"
  shows "unat (circ_space b) = HDLC_BUF_SIZE - 1 - circ_count b"
proof -
  let ?h = "int (unat (head b))" and ?t = "int (unat (tail b))" and ?n = "int HDLC_BUF_SIZE"
  have bounds: "?h < ?n" "?t < ?n"
    using assms by (simp_all only: circ_inv_def of_nat_less_iff)
  have "int (unat (tail b - head b - 1)) = (?t - ?h - 1) mod 2 ^ 64"
    by (simp add: uint_word_ariths mod_diff_left_eq flip: uint_nat)
  then have "int (unat (tail b - head b - 1)) mod ?n = (?t - ?h - 1) mod ?n"
    by (simp add: HDLC_BUF_SIZE_def mod_mod_cancel)
  then have "int (unat (circ_space b)) = (?t - (?h + 1)) mod ?n"
    by (simp add: circ_space_def zmod_int algebra_simps)
  also have "\<dots> = (if ?h + 1 \<le> ?t then ?t - ?h - 1 else ?t - ?h - 1 + ?n)"
  proof (cases "?h + 1 = ?n")
    case True
    have "(?t - (?h + 1)) mod ?n = ?t mod ?n" by (simp only: True minus_mod_self2)
    then show ?thesis using True bounds by simp
  next
    case False
    with bounds mod_range_diff [of ?t ?n "?h + 1"] show ?thesis by simp
  qed
  also have "\<dots> = ?n - 1 - int (circ_count b)"
  proof -
    define h t where "h = unat (head b)" and "t = unat (tail b)"
    have "h < HDLC_BUF_SIZE" "t < HDLC_BUF_SIZE"
      using assms by (simp_all add: circ_inv_def h_def t_def)
    then show ?thesis
      unfolding circ_count_cases [OF assms] h_def [symmetric] t_def [symmetric]
      by (auto simp: of_nat_diff)
  qed
  finally show ?thesis by linarith
qed


lemma circ_count_less: "circ_count b < HDLC_BUF_SIZE"
  by (simp add: circ_count_def HDLC_BUF_SIZE_def)

lemma length_contents [simp]: "length (contents b) = circ_count b"
  by (simp add: contents_def)

lemma nth_contents:
  "i < circ_count b \<Longrightarrow> contents b ! i = buf b ((unat (tail b) + i) mod HDLC_BUF_SIZE)"
  by (simp add: contents_def)

lemma circ_space_to_end_unat:
  assumes "circ_inv b"
  shows "unat (circ_space_to_end b) =
    min (HDLC_BUF_SIZE - 1 - circ_count b) (HDLC_BUF_SIZE - unat (head b))"
proof -
  have "unat (of_nat HDLC_BUF_SIZE - head b) = HDLC_BUF_SIZE - unat (head b)"
    using assms by (simp add: circ_inv_def HDLC_BUF_SIZE_def unat_sub_if_size)
  then show ?thesis
    using circ_space_unat [OF assms] by (auto simp: circ_space_to_end_def word_less_nat_alt)
qed

text \<open>The head is where the next byte goes: just after the contents.\<close>

lemma head_after_contents:
  assumes "circ_inv b"
  shows "(unat (tail b) + circ_count b) mod HDLC_BUF_SIZE = unat (head b)"
  using assms by (auto simp: circ_inv_def circ_count_cases [OF assms])

lemma ring_index_inj:
  fixes n :: nat
  assumes eq: "(t + i) mod n = (t + j) mod n" and "i < n" and "j < n"
  shows "i = j"
proof -
  have "i = j" if le: "i \<le> j" and e: "(t + j) mod n = (t + i) mod n" and "j < n" for i j
  proof -
    have "n dvd t + j - (t + i)"
      using e le by (subst (asm) mod_eq_dvd_iff_nat) simp_all
    then have "n dvd j - i" by simp
    then show ?thesis using le \<open>j < n\<close> by (cases "j - i = 0") (auto dest: dvd_imp_le)
  qed
  from this [of i j] this [of j i] show ?thesis using assms by (cases "i \<le> j") auto
qed

lemma circ_store_contents:
  assumes inv: "circ_inv b" and le: "length bs \<le> unat (circ_space_to_end b)"
  shows "\<exists>b'. circ_store b bs = Inr b' \<and> circ_inv b' \<and> tail b' = tail b \<and> contents b' = contents b @ bs"
proof -
  let ?h = "unat (head b)" and ?t = "unat (tail b)" and ?c = "circ_count b" and ?n = "length bs"
  let ?b = "b\<lparr>buf := (\<lambda>i. if ?h \<le> i \<and> i < ?h + ?n then bs ! (i - ?h) else buf b i),
      head := circ_mask (head b + of_nat ?n)\<rparr>"
  have room: "?n \<le> HDLC_BUF_SIZE - 1 - ?c" and fit: "?h + ?n \<le> HDLC_BUF_SIZE"
    using le inv circ_space_to_end_unat [OF inv] by (auto simp: circ_inv_def)
  have bounds: "?h < HDLC_BUF_SIZE" "?t < HDLC_BUF_SIZE" "?c < HDLC_BUF_SIZE"
    using inv circ_count_less by (simp_all add: circ_inv_def)
  have h': "unat (head ?b) = (?h + ?n) mod HDLC_BUF_SIZE"
    using fit by (simp add: HDLC_BUF_SIZE_def unat_word_ariths unat_of_nat)
  then have inv': "circ_inv ?b"
    using bounds by (simp add: circ_inv_def HDLC_BUF_SIZE_def)
  have c': "circ_count ?b = ?c + ?n"
  proof (cases "?h + ?n < HDLC_BUF_SIZE")
    case True
    then show ?thesis
      using room bounds h' circ_count_cases [OF inv] circ_count_cases [OF inv'] by auto
  next
    case False
    with fit h' have "unat (head ?b) = 0" "?h + ?n = HDLC_BUF_SIZE" by simp_all
    then show ?thesis
      using room bounds circ_count_cases [OF inv] circ_count_cases [OF inv'] by auto
  qed
  have "contents ?b = contents b @ bs"
  proof (rule nth_equalityI)
    show "length (contents ?b) = length (contents b @ bs)" by (simp add: c')
  next
    fix i assume "i < length (contents ?b)"
    then have i: "i < ?c + ?n" by (simp add: c')
    let ?k = "(?t + i) mod HDLC_BUF_SIZE"
    have elt: "contents ?b ! i = (if ?h \<le> ?k \<and> ?k < ?h + ?n then bs ! (?k - ?h) else buf b ?k)"
      using i by (simp add: contents_def c')
    show "contents ?b ! i = (contents b @ bs) ! i"
    proof (cases "i < ?c")
      case True
      have "\<not> (?h \<le> ?k \<and> ?k < ?h + ?n)"
      proof
        assume k: "?h \<le> ?k \<and> ?k < ?h + ?n"
        have "(?t + (?c + (?k - ?h))) mod HDLC_BUF_SIZE = (?h + (?k - ?h)) mod HDLC_BUF_SIZE"
          by (metis head_after_contents [OF inv] add.assoc mod_add_left_eq)
        then have "(?t + (?c + (?k - ?h))) mod HDLC_BUF_SIZE = ?k mod HDLC_BUF_SIZE" using k by simp
        then have "(?t + (?c + (?k - ?h))) mod HDLC_BUF_SIZE = (?t + i) mod HDLC_BUF_SIZE" by simp
        then have "?c + (?k - ?h) = i"
          by (rule ring_index_inj) (use k room i True bounds in auto)
        with True show False by simp
      qed
      moreover have "contents b ! i = buf b ?k" using True by (rule nth_contents)
      ultimately show ?thesis
        using True by (simp only: elt nth_append length_contents if_True if_False)
    next
      case False
      define j where "j = i - ?c"
      have j: "i = ?c + j" "j < ?n" using False i by (simp_all add: j_def)
      have "?k = (?t + ?c + j) mod HDLC_BUF_SIZE" by (simp only: j(1) add.assoc)
      also have "\<dots> = (?h + j) mod HDLC_BUF_SIZE"
        by (metis head_after_contents [OF inv] mod_add_left_eq)
      also have "\<dots> = ?h + j" using j fit by (intro mod_less) simp
      finally have k: "?k = ?h + j" .
      show ?thesis using elt j unfolding k by (simp add: nth_append)
    qed
  qed
  with fit inv' show ?thesis by (auto simp: circ_store_def)
qed

section \<open>Filling the ring\<close>

text \<open>
  Whatever the descriptor delivers, and in whatever pieces, the loop returns, does not
  leave the array, appends what it read, and keeps the rest of the stream for later.
\<close>

lemma circ_read_step:
  assumes "circ_inv b"
  shows "\<exists>r e b' es'. circ_read b es = Inr (r, e, b', es') \<and> circ_inv b' \<and> tail b' = tail b \<and>
    contents b' @ script_bytes es' = contents b @ script_bytes es \<and>
    (\<exists>bs. contents b' = contents b @ bs) \<and> (r = 0 \<or> r = -1)"
  using assms
proof (induction b es rule: circ_read.induct)
  case (1 b es)
  let ?sp = "circ_space_to_end b"
  obtain r es' where rd: "fd_read (unat ?sp) es = (r, es')" by (cases "fd_read (unat ?sp) es")
  show ?case
  proof (cases "?sp = 0")
    case True
    with "1.prems" show ?thesis by (simp add: circ_read.simps [of b es])
  next
    case False
    show ?thesis
    proof (cases r)
      case (Errno e)
      with False rd "1.prems" fd_read_Errno [of "unat ?sp" es e es'] show ?thesis
        by (simp add: circ_read.simps [of b es])
    next
      case (Got bs)
      then have len: "length bs \<le> unat ?sp" and bytes: "script_bytes es = bs @ script_bytes es'"
        using rd fd_read_length fd_read_bytes by auto
      from circ_store_contents [OF "1.prems" len] obtain b' where
        st: "circ_store b bs = Inr b'" "circ_inv b'" "tail b' = tail b" "contents b' = contents b @ bs"
        by blast
      show ?thesis
      proof (cases "length bs = unat ?sp")
        case True
        have "circ_read b es = circ_read b' es'"
          using False rd Got st(1) True by (simp add: circ_read.simps [of b es])
        moreover from "1.IH" [of ?sp "(r, es')" bs b'] False rd Got st True
        obtain r' e b'' es'' where "circ_read b' es' = Inr (r', e, b'', es'')" "circ_inv b''"
          "tail b'' = tail b'" "contents b'' @ script_bytes es'' = contents b' @ script_bytes es'"
          "\<exists>bs. contents b'' = contents b' @ bs" "r' = 0 \<or> r' = -1"
          by auto
        ultimately show ?thesis using st bytes by auto
      next
        case short: False
        then show ?thesis using False rd Got st bytes by (simp add: circ_read.simps [of b es])
      qed
    qed
  qed
qed

definition circ_empty :: circ_buf where
  "circ_empty = \<lparr>buf = (\<lambda>_. 0), head = 0, tail = 0\<rparr>"

lemma circ_empty_inv [simp]: "circ_inv circ_empty"
  by (simp add: circ_empty_def circ_inv_def HDLC_BUF_SIZE_def)

lemma contents_empty [simp]: "contents circ_empty = []"
  by (simp add: contents_def circ_count_def circ_empty_def)

text \<open>A read that gives less than the free space up to the end of the array ends the loop.\<close>

lemma circ_read_short:
  assumes "circ_inv b" and "length bs < unat (circ_space_to_end b)"
  shows "\<exists>b'. circ_read b (Data bs # es) = Inr (0, 0, b', es) \<and> circ_inv b' \<and> contents b' = contents b @ bs"
proof -
  have "circ_space_to_end b \<noteq> 0" using assms(2) by auto
  moreover obtain b' where "circ_store b bs = Inr b'" "circ_inv b'" "contents b' = contents b @ bs"
    using circ_store_contents [OF assms(1), of bs] assms(2) by auto
  ultimately show ?thesis using assms(2) by (simp add: circ_read.simps [of b "Data bs # es"])
qed

end
