(* ===== verification/Hdlc.thy ===== *)
theory Hdlc
  imports Hdlc_Crc Circ_Buf
begin

text \<open>
  The HDLC framing of \<^verbatim>\<open>hdlc.c\<close>: the encoder, and the decoder that takes one frame at a
  time out of the receive ring. The lemmas bound the encoder's output by the buffer it
  allocates, describe the decoder on the contents of the ring by a scanner on byte lists,
  and give the round trip. The decoder drops the two check bytes without comparing them.
\<close>

section \<open>The encoder\<close>

definition stuff :: "u8 \<Rightarrow> u8 list" where
  "stuff b = (if b = 0x7d \<or> b = 0x7e then [0x7d, b XOR 0x20] else [b])"

fun hdlc_encode_loop :: "u16 \<Rightarrow> u8 list \<Rightarrow> u16 \<times> u8 list" where
  "hdlc_encode_loop crc [] = (crc, [])"
| "hdlc_encode_loop crc (c # cs) =
     (let (crc', d) = hdlc_encode_loop (hdlc_crc_byte crc c) cs in (crc', stuff c @ d))"

text \<open>The bytes written to the destination, from the first to the closing delimiter.\<close>

definition hdlc_encode_bytes :: "u8 list \<Rightarrow> u8 list" where
  "hdlc_encode_bytes src =
     (let (crc, d) = hdlc_encode_loop 0xffff src;
          tmp0 = ucast (NOT crc);
          tmp1 = ucast (drop_bit 8 (NOT crc))
      in d @ stuff tmp0 @ stuff tmp1 @ [0x7e])"

text \<open>A null result when the destination cannot be allocated; a fault if it is too small.\<close>

definition hdlc_encode :: "u8 list \<Rightarrow> 'z heap_scheme \<Rightarrow> (u8 list option \<times> 'z heap_scheme) res" where
  "hdlc_encode src s =
     (case malloc ((length src + 2) * 2 + 1) s of
        (None, s') \<Rightarrow> Inr (None, s')
      | (Some dst, s') \<Rightarrow>
          andthen (store dst 0 (hdlc_encode_bytes src)) (\<lambda>dst'.
            Inr (Some (take (length (hdlc_encode_bytes src)) dst'), s')))"

section \<open>The decoder\<close>

record hdlc_decoder =
  raw_buf :: "nat \<Rightarrow> u8"
  raw :: "nat option"
  escape :: u8

definition decoder_zero :: hdlc_decoder where
  "decoder_zero = \<lparr>raw_buf = (\<lambda>_. 0), raw = None, escape = 0\<rparr>"

text \<open>
  The loop ends at a delimiter (\<open>True\<close>) or when the ring is empty (\<open>False\<close>). The pointer
  \<open>raw\<close> is an offset into \<open>raw_buf\<close>. A tail outside the ring is read out of bounds. A head
  outside the ring is never reached: the loop goes round until it finds a delimiter or the
  decoder's buffer is full, and for ever when the ring holds nothing but escapes. \<open>circ_inv\<close>
  excludes both.
\<close>

definition only_escapes :: "circ_buf \<Rightarrow> bool" where
  "only_escapes b \<longleftrightarrow> HDLC_BUF_SIZE \<le> unat (head b) \<and> list_all (\<lambda>i. buf b i = 0x7d) [0..<HDLC_BUF_SIZE]"

function hdlc_decode_loop :: "hdlc_decoder \<Rightarrow> circ_buf \<Rightarrow> (bool \<times> hdlc_decoder \<times> circ_buf) res" where
  "hdlc_decode_loop d b =
     (if tail b = head b then Inr (False, d, b)
      else if HDLC_BUF_SIZE \<le> unat (tail b) then Inl OobRead
      else if only_escapes b then Inl Diverged
      else
        let ch = buf b (unat (tail b)); b' = b\<lparr>tail := circ_mask (tail b + 1)\<rparr> in
        if ch = 0x7e then Inr (True, d, b')
        else if ch = 0x7d then hdlc_decode_loop (d\<lparr>escape := 0x20\<rparr>) b'
        else case raw d of
               None \<Rightarrow> Inl NullDeref
             | Some r \<Rightarrow>
                 if HDLC_BUF_SIZE \<le> r then Inl OobWrite
                 else hdlc_decode_loop
                   (d\<lparr>raw_buf := (raw_buf d)(r := ch XOR escape d), raw := Some (r + 1), escape := 0\<rparr>) b')"
  by pat_completeness auto

text \<open>Taking one byte off the ring.\<close>

definition circ_pop :: "circ_buf \<Rightarrow> circ_buf" where
  "circ_pop b = b\<lparr>tail := circ_mask (tail b + 1)\<rparr>"

lemma circ_pop_simps [simp]: "buf (circ_pop b) = buf b" "head (circ_pop b) = head b"
  by (simp_all add: circ_pop_def)

lemma circ_pop_tail:
  assumes "circ_inv b"
  shows "unat (tail (circ_pop b)) = (unat (tail b) + 1) mod HDLC_BUF_SIZE"
  using assms by (simp add: circ_pop_def circ_inv_def HDLC_BUF_SIZE_def unat_word_ariths)

lemma circ_pop_inv: "circ_inv b \<Longrightarrow> circ_inv (circ_pop b)"
  by (simp add: circ_inv_def circ_pop_tail circ_pop_def HDLC_BUF_SIZE_def)

lemma circ_count_pop:
  assumes inv: "circ_inv b" and ne: "tail b \<noteq> head b"
  shows "circ_count b = Suc (circ_count (circ_pop b))"
proof -
  have t: "unat (tail b) \<noteq> unat (head b)" using ne by (simp add: word_unat_eq_iff)
  have bounds: "unat (tail b) < HDLC_BUF_SIZE" "unat (head b) < HDLC_BUF_SIZE"
    using inv by (simp_all add: circ_inv_def)
  show ?thesis
  proof (cases "unat (tail b) + 1 < HDLC_BUF_SIZE")
    case True
    then show ?thesis
      using t bounds circ_pop_tail [OF inv] circ_count_cases [OF inv]
        circ_count_cases [OF circ_pop_inv [OF inv]] by auto
  next
    case False
    then have "unat (tail b) + 1 = HDLC_BUF_SIZE" using bounds by simp
    then have "unat (tail (circ_pop b)) = 0" using circ_pop_tail [OF inv] by simp
    then show ?thesis
      using False t bounds circ_count_cases [OF inv]
        circ_count_cases [OF circ_pop_inv [OF inv]] by auto
  qed
qed

lemma contents_pop:
  assumes inv: "circ_inv b" and ne: "tail b \<noteq> head b"
  shows "contents b = buf b (unat (tail b)) # contents (circ_pop b)"
proof -
  have "(unat (tail b) + 1) mod HDLC_BUF_SIZE = unat (tail (circ_pop b))"
    by (simp add: circ_pop_tail [OF inv])
  then have "(unat (tail b) + Suc i) mod HDLC_BUF_SIZE = (unat (tail (circ_pop b)) + i) mod HDLC_BUF_SIZE" for i
    by (metis Suc_eq_plus1_left add.assoc mod_add_left_eq)
  then have "contents b = map (\<lambda>i. buf b ((unat (tail b) + i) mod HDLC_BUF_SIZE)) (0 # map Suc [0..<circ_count (circ_pop b)])"
    unfolding contents_def circ_count_pop [OF assms] upt_conv_Cons map_Suc_upt by (simp add: upt_rec)
  then show ?thesis
    using inv \<open>\<And>i. (unat (tail b) + Suc i) mod HDLC_BUF_SIZE = _\<close>
    by (simp add: contents_def circ_inv_def)
qed

lemma contents_nil: "circ_inv b \<Longrightarrow> tail b = head b \<longleftrightarrow> contents b = []"
  using contents_pop by (cases "tail b = head b") (auto simp: contents_def circ_count_def)

text \<open>
  Inside the ring the bytes left decrease. When \<^verbatim>\<open>head\<close> is outside, the loop goes round and
  round, but the next byte that is not an escape comes closer, and fills the buffer.
\<close>

lemma only_escapes_inv [simp]: "circ_inv b \<Longrightarrow> \<not> only_escapes b"
  by (simp add: only_escapes_def circ_inv_def)

definition escapes_ahead :: "circ_buf \<Rightarrow> nat" where
  "escapes_ahead b = (LEAST k. buf b ((unat (tail b) + k) mod HDLC_BUF_SIZE) \<noteq> 0x7d)"

lemma escapes_ahead_pop:
  assumes "\<not> only_escapes b" and "HDLC_BUF_SIZE \<le> unat (head b)" and "unat (tail b) < HDLC_BUF_SIZE"
    and "buf b (unat (tail b)) = 0x7d"
  shows "escapes_ahead (circ_pop b) < escapes_ahead b"
proof -
  let ?t = "unat (tail b)"
  let ?P = "\<lambda>k. buf b ((?t + k) mod HDLC_BUF_SIZE) \<noteq> 0x7d"
  from assms(1,2) obtain i where i: "i < HDLC_BUF_SIZE" "buf b i \<noteq> 0x7d"
    by (auto simp: only_escapes_def list_all_iff)
  have "(?t + (i + HDLC_BUF_SIZE - ?t)) mod HDLC_BUF_SIZE = i" using i(1) assms(3) by simp
  then have ex: "?P (i + HDLC_BUF_SIZE - ?t)" using i(2) by simp
  have least: "?P (escapes_ahead b)" unfolding escapes_ahead_def by (rule LeastI [of ?P, OF ex])
  moreover have "\<not> ?P 0" using assms(3,4) by simp
  ultimately obtain k where k: "escapes_ahead b = Suc k" by (metis not0_implies_Suc)
  have "unat (tail (circ_pop b)) = (?t + 1) mod HDLC_BUF_SIZE"
    using assms(3) by (simp add: circ_pop_def HDLC_BUF_SIZE_def unat_word_ariths)
  then have "(unat (tail (circ_pop b)) + k) mod HDLC_BUF_SIZE = (?t + Suc k) mod HDLC_BUF_SIZE"
    by (simp add: mod_add_left_eq)
  with least k have "escapes_ahead (circ_pop b) \<le> k"
    unfolding escapes_ahead_def [of "circ_pop b"] by (intro Least_le) simp
  with k show ?thesis by simp
qed

definition room_left :: "hdlc_decoder \<Rightarrow> circ_buf \<Rightarrow> nat" where
  "room_left d b = (if HDLC_BUF_SIZE \<le> unat (head b) then (case raw d of None \<Rightarrow> 0 | Some r \<Rightarrow> HDLC_BUF_SIZE - r) else 0)"

definition bytes_ahead :: "circ_buf \<Rightarrow> nat" where
  "bytes_ahead b = (if HDLC_BUF_SIZE \<le> unat (head b) then escapes_ahead b else circ_count b)"

termination hdlc_decode_loop
proof (relation "measures [\<lambda>(d, b). room_left d b, \<lambda>(d, b). bytes_ahead b]", goal_cases)
  case (2 d b ch b')
  show ?case
  proof (cases "HDLC_BUF_SIZE \<le> unat (head b)")
    case True
    with 2 escapes_ahead_pop [of b] show ?thesis by (simp add: circ_pop_def room_left_def bytes_ahead_def)
  next
    case False
    with 2 have "circ_inv b" by (simp add: circ_inv_def)
    with 2 False circ_count_pop [of b] show ?thesis by (simp add: circ_pop_def room_left_def bytes_ahead_def)
  qed
next
  case (3 d b ch b' r)
  show ?case
  proof (cases "HDLC_BUF_SIZE \<le> unat (head b)")
    case True
    with 3 show ?thesis by (auto simp: room_left_def)
  next
    case False
    with 3 have "circ_inv b" by (simp add: circ_inv_def)
    with 3 False circ_count_pop [of b] show ?thesis by (simp add: circ_pop_def room_left_def bytes_ahead_def)
  qed
qed simp

declare hdlc_decode_loop.simps [simp del]

text \<open>
  The result is null or the length of the message, whose bytes start \<open>raw_buf\<close>; the
  length is a \<^verbatim>\<open>size_t\<close>, and wraps when the frame holds fewer than two bytes.
\<close>

definition hdlc_decode_one :: "hdlc_decoder \<Rightarrow> circ_buf \<Rightarrow> (u64 option \<times> hdlc_decoder \<times> circ_buf) res" where
  "hdlc_decode_one d b =
     (let d0 = (case raw d of None \<Rightarrow> d\<lparr>raw := Some 0\<rparr> | Some _ \<Rightarrow> d) in
      andthen (hdlc_decode_loop d0 b) (\<lambda>(found, d', b').
        if \<not> found then Inr (None, d', b')
        else if raw d' = Some 0 then Inr (None, d', b')
        else case raw d' of
               None \<Rightarrow> Inl NullDeref
             | Some r \<Rightarrow> Inr (Some (of_nat r - 2), d'\<lparr>raw := Some 0, escape := 0\<rparr>, b')))"


section \<open>The decoder on the contents of the ring\<close>

text \<open>
  What the decoder does to the bytes in the ring: the decoded bytes, the escape state,
  whether a delimiter ended the scan, and the bytes not looked at.
\<close>

fun scan :: "u8 \<Rightarrow> u8 list \<Rightarrow> u8 list \<times> u8 \<times> bool \<times> u8 list" where
  "scan esc [] = ([], esc, False, [])"
| "scan esc (c # cs) =
     (if c = 0x7e then ([], esc, True, cs)
      else if c = 0x7d then scan 0x20 cs
      else let (ds, e, t, rest) = scan 0 cs in ((c XOR esc) # ds, e, t, rest))"

definition decoded_prefix :: "hdlc_decoder \<Rightarrow> nat \<Rightarrow> u8 list" where
  "decoded_prefix d n = map (raw_buf d) [0..<n]"

lemma length_decoded_prefix [simp]: "length (decoded_prefix d n) = n"
  by (simp add: decoded_prefix_def)

lemma decoded_prefix_take: "n \<le> k \<Longrightarrow> decoded_prefix d n = take n (decoded_prefix d k)"
  by (simp add: decoded_prefix_def take_map)

lemma length_scan: "scan esc bs = (ds, e, t, rest) \<Longrightarrow> length ds \<le> length bs"
proof (induction esc bs arbitrary: ds rule: scan.induct)
  case (2 esc c cs)
  then show ?case by (fastforce split: if_splits prod.splits)
qed simp

text \<open>
  As long as the decoded bytes fit the buffer the decoder implements the scanner; they
  are appended to what the buffer held.
\<close>

lemma hdlc_decode_loop_scan:
  assumes "circ_inv b" and "raw d = Some r" and "scan (escape d) (contents b) = (ds, e, t, rest)"
    and "r + length ds \<le> HDLC_BUF_SIZE"
  shows "\<exists>d' b'. hdlc_decode_loop d b = Inr (t, d', b') \<and> raw d' = Some (r + length ds) \<and>
    escape d' = e \<and> decoded_prefix d' (r + length ds) = decoded_prefix d r @ ds \<and>
    circ_inv b' \<and> head b' = head b \<and> contents b' = rest"
  using assms
proof (induction d b arbitrary: r ds rule: hdlc_decode_loop.induct)
  case (1 d b)
  show ?case
  proof (cases "tail b = head b")
    case True
    with "1.prems" contents_nil [of b] show ?thesis
      by (auto simp: hdlc_decode_loop.simps [of d b] decoded_prefix_def)
  next
    case ne: False
    let ?ch = "buf b (unat (tail b))"
    note pop = contents_pop [OF "1.prems"(1) ne] circ_pop_inv [OF "1.prems"(1)]
    have bnd: "\<not> HDLC_BUF_SIZE \<le> unat (tail b)" "\<not> only_escapes b"
      using "1.prems"(1) by (simp_all, simp add: circ_inv_def)
    note unf = hdlc_decode_loop.simps [of d b, folded circ_pop_def]
    note IH = "1.IH" [OF ne bnd refl refl, folded circ_pop_def]
    consider "?ch = 0x7e" | "?ch = 0x7d" | "?ch \<noteq> 0x7e" "?ch \<noteq> 0x7d" by blast
    then show ?thesis
    proof cases
      case 1
      with "1.prems" pop ne bnd show ?thesis by (auto simp: unf)
    next
      case 2
      with IH(1) [of r ds] "1.prems" pop ne bnd show ?thesis by (auto simp: unf decoded_prefix_def)
    next
      case 3
      obtain ds' where sc: "scan 0 (contents (circ_pop b)) = (ds', e, t, rest)"
        and ds: "ds = (?ch XOR escape d) # ds'"
        using "1.prems"(3) pop(1) 3 by (auto split: prod.splits)
      have r: "\<not> HDLC_BUF_SIZE \<le> r" using "1.prems"(4) ds by simp
      let ?d = "d\<lparr>raw_buf := (raw_buf d)(r := ?ch XOR escape d), raw := Some (r + 1), escape := 0\<rparr>"
      have "hdlc_decode_loop d b = hdlc_decode_loop ?d (circ_pop b)"
        using ne bnd 3 "1.prems"(2) r by (simp add: unf)
      moreover have "decoded_prefix ?d (r + 1) = decoded_prefix d r @ [?ch XOR escape d]"
        by (simp add: decoded_prefix_def)
      ultimately show ?thesis
        using IH(2) [OF 3 "1.prems"(2) r, of "r + 1" ds'] sc ds pop "1.prems"(4) by auto
    qed
  qed
qed

text \<open>When they do not fit, the decoder writes past its buffer.\<close>

lemma hdlc_decode_loop_overflow:
  assumes "circ_inv b" and "raw d = Some r" and "scan (escape d) (contents b) = (ds, e, t, rest)"
    and "HDLC_BUF_SIZE < r + length ds" and "r \<le> HDLC_BUF_SIZE"
  shows "hdlc_decode_loop d b = Inl OobWrite"
  using assms
proof (induction d b arbitrary: r ds rule: hdlc_decode_loop.induct)
  case (1 d b)
  have ne: "tail b \<noteq> head b"
    using "1.prems" contents_nil [of b] by auto
  let ?ch = "buf b (unat (tail b))"
  note pop = contents_pop [OF "1.prems"(1) ne] circ_pop_inv [OF "1.prems"(1)]
  have bnd: "\<not> HDLC_BUF_SIZE \<le> unat (tail b)" "\<not> only_escapes b"
    using "1.prems"(1) by (simp_all, simp add: circ_inv_def)
  note unf = hdlc_decode_loop.simps [of d b, folded circ_pop_def]
  note IH = "1.IH" [OF ne bnd refl refl, folded circ_pop_def]
  consider "?ch = 0x7e" | "?ch = 0x7d" | "?ch \<noteq> 0x7e" "?ch \<noteq> 0x7d" by blast
  then show ?case
  proof cases
    case 1
    with "1.prems" pop show ?thesis by auto
  next
    case 2
    with IH(1) [of r ds] "1.prems" pop ne bnd show ?thesis by (auto simp: unf)
  next
    case 3
    obtain ds' where sc: "scan 0 (contents (circ_pop b)) = (ds', e, t, rest)"
      and ds: "ds = (?ch XOR escape d) # ds'"
      using "1.prems"(3) pop(1) 3 by (auto split: prod.splits)
    show ?thesis
    proof (cases "HDLC_BUF_SIZE \<le> r")
      case True
      with ne bnd 3 "1.prems"(2) show ?thesis by (simp add: unf)
    next
      case r: False
      with IH(2) [OF 3 "1.prems"(2) r, of "r + 1" ds'] sc ds pop ne bnd 3 "1.prems"(2,4)
      show ?thesis by (simp add: unf)
    qed
  qed
qed


text \<open>A decoder between two frames.\<close>

definition decoder_idle :: "hdlc_decoder \<Rightarrow> bool" where
  "decoder_idle d \<longleftrightarrow> (raw d = None \<or> raw d = Some 0) \<and> escape d = 0"

lemma decoder_idle_zero [simp]: "decoder_idle decoder_zero"
  by (simp add: decoder_idle_def decoder_zero_def)

text \<open>One call on an idle decoder, by what the scanner finds in the ring.\<close>

lemma hdlc_decode_one_scan:
  assumes inv: "circ_inv b" and idle: "decoder_idle d" and sc: "scan 0 (contents b) = (ds, e, t, rest)"
  shows "\<exists>d' b'. hdlc_decode_one d b =
      Inr (if t \<and> ds \<noteq> [] then Some (of_nat (length ds) - 2) else None, d', b') \<and>
    circ_inv b' \<and> head b' = head b \<and> contents b' = rest \<and>
    decoded_prefix d' (length ds) = ds \<and> (t \<and> ds \<noteq> [] \<longrightarrow> decoder_idle d')"
proof -
  have len: "length ds \<le> HDLC_BUF_SIZE"
    using length_scan [OF sc] circ_count_less [of b] by simp
  define d0 where "d0 = (case raw d of None \<Rightarrow> d\<lparr>raw := Some 0\<rparr> | Some _ \<Rightarrow> d)"
  have d0: "raw d0 = Some 0" "escape d0 = 0"
    using idle by (auto simp: d0_def decoder_idle_def split: option.splits)
  then obtain d' b' where res: "hdlc_decode_loop d0 b = Inr (t, d', b')"
    "raw d' = Some (length ds)" "decoded_prefix d' (length ds) = ds" "circ_inv b'"
    "head b' = head b" "contents b' = rest"
    using hdlc_decode_loop_scan [OF inv d0(1), of ds e t rest] sc len
    by (auto simp: decoded_prefix_def)
  have one: "hdlc_decode_one d b = andthen (hdlc_decode_loop d0 b) (\<lambda>(found, d', b').
      if \<not> found then Inr (None, d', b')
      else if raw d' = Some 0 then Inr (None, d', b')
      else case raw d' of
             None \<Rightarrow> Inl NullDeref
           | Some r \<Rightarrow> Inr (Some (of_nat r - 2), d'\<lparr>raw := Some 0, escape := 0\<rparr>, b'))"
    by (simp add: hdlc_decode_one_def d0_def)
  show ?thesis
    using res by (auto simp: one decoder_idle_def decoded_prefix_def)
qed

section \<open>The round trip\<close>

lemma hdlc_encode_loop_eq:
  "hdlc_encode_loop crc bs = (fold (\<lambda>ch c. hdlc_crc_byte c ch) bs crc, concat (map stuff bs))"
  by (induction crc bs rule: hdlc_encode_loop.induct) simp_all

lemma hdlc_encode_bytes_eq:
  "hdlc_encode_bytes bs = concat (map stuff (bs @ fcs_bytes (crc_of bs))) @ [0x7e]"
  by (simp add: hdlc_encode_bytes_def hdlc_encode_loop_eq fcs_bytes_def crc_of_def)

lemma length_stuff: "length (stuff b) \<le> 2"
  by (simp add: stuff_def)

lemma length_concat_stuff: "length (concat (map stuff bs)) \<le> 2 * length bs"
proof (induction bs)
  case (Cons b bs)
  then show ?case using length_stuff [of b] by simp
qed simp

lemma length_hdlc_encode_bytes: "length (hdlc_encode_bytes bs) \<le> (length bs + 2) * 2 + 1"
  using length_concat_stuff [of "bs @ fcs_bytes (crc_of bs)"]
  by (simp add: hdlc_encode_bytes_eq fcs_bytes_def)

lemma delimiter_not_stuffed: "0x7e \<notin> set (stuff b)"
proof -
  have "(0x7e :: u8) XOR 0x20 \<noteq> 0x7e" "(0x7d :: u8) XOR 0x20 \<noteq> 0x7e" by simp_all
  then show ?thesis by (auto simp: stuff_def)
qed

lemma hdlc_encode_spec:
  "hdlc_encode bs s =
     Inr (if alloc_ok s (alloc_no s) then Some (hdlc_encode_bytes bs) else None,
          s\<lparr>alloc_no := Suc (alloc_no s)\<rparr>)"
  using length_hdlc_encode_bytes [of bs]
  by (simp add: hdlc_encode_def malloc_def store_ok)

lemma scan_stuff:
  "scan 0 (stuff c @ cs) = (let (ds, e, t, rest) = scan 0 cs in (c # ds, e, t, rest))"
proof -
  have x: "(0x7d :: u8) XOR 0x20 = 0x5d" "(0x7e :: u8) XOR 0x20 = 0x5e" by simp_all
  show ?thesis by (auto simp: stuff_def x split: prod.splits)
qed

lemma scan_stuffed:
  "scan 0 (concat (map stuff bs) @ 0x7e # rest) = (bs, 0, True, rest)"
  by (induction bs) (simp_all add: scan_stuff)

lemma scan_encoded:
  "scan 0 (hdlc_encode_bytes bs @ rest) = (bs @ fcs_bytes (crc_of bs), 0, True, rest)"
  unfolding hdlc_encode_bytes_eq by (simp only: append_assoc append.simps scan_stuffed)

text \<open>
  The framing contract: a decoder for one frame inverts the encoder and leaves the bytes
  that follow. It makes the encoding injective and prefix free, and makes a stream of
  frames decode to the messages that were sent.
\<close>

locale frame_codec =
  fixes enc :: "u8 list \<Rightarrow> u8 list"
    and dec :: "u8 list \<Rightarrow> (u8 list \<times> u8 list) option"
    and sendable :: "u8 list \<Rightarrow> bool"
  assumes dec_enc: "sendable m \<Longrightarrow> dec (enc m @ rest) = Some (m, rest)"
begin

lemma enc_prefix_free:
  assumes "sendable m" "sendable m'" "enc m @ rest = enc m' @ rest'"
  shows "m = m' \<and> rest = rest'"
proof -
  have "Some (m, rest) = dec (enc m @ rest)" using dec_enc [OF assms(1)] by (rule sym)
  also have "\<dots> = dec (enc m' @ rest')" by (rule arg_cong [OF assms(3)])
  also have "\<dots> = Some (m', rest')" by (rule dec_enc [OF assms(2)])
  finally show ?thesis by simp
qed

lemma enc_inj: "sendable m \<Longrightarrow> sendable m' \<Longrightarrow> enc m = enc m' \<Longrightarrow> m = m'"
  using enc_prefix_free [of m m' "[]" "[]"] by simp

fun dec_upto :: "nat \<Rightarrow> u8 list \<Rightarrow> u8 list list \<times> u8 list" where
  "dec_upto 0 bs = ([], bs)"
| "dec_upto (Suc n) bs =
     (case dec bs of None \<Rightarrow> ([], bs)
      | Some (m, rest) \<Rightarrow> (let (ms, rest') = dec_upto n rest in (m # ms, rest')))"

lemma dec_stream:
  "\<forall>m \<in> set ms. sendable m \<Longrightarrow> dec_upto (length ms) (concat (map enc ms) @ rest) = (ms, rest)"
proof (induction ms)
  case Nil
  show ?case by simp
next
  case (Cons m ms)
  have "dec (enc m @ concat (map enc ms) @ rest) = Some (m, concat (map enc ms) @ rest)"
    by (rule dec_enc) (use Cons.prems in simp)
  with Cons show ?case by simp
qed

end

definition hdlc_take_frame :: "u8 list \<Rightarrow> (u8 list \<times> u8 list) option" where
  "hdlc_take_frame bs =
     (case scan 0 bs of (ds, e, t, rest) \<Rightarrow>
        if t \<and> 2 \<le> length ds then Some (take (length ds - 2) ds, rest) else None)"

interpretation hdlc_frames: frame_codec hdlc_encode_bytes hdlc_take_frame "\<lambda>_. True"
  by unfold_locales (simp add: hdlc_take_frame_def scan_encoded fcs_bytes_def)

text \<open>The decoder of the code on a ring that starts with an encoded message.\<close>

lemma hdlc_decode_one_encoded:
  assumes inv: "circ_inv b" and idle: "decoder_idle d" and c: "contents b = hdlc_encode_bytes m @ rest"
  shows "\<exists>d' b'. hdlc_decode_one d b = Inr (Some (of_nat (length m)), d', b') \<and>
    decoded_prefix d' (length m) = m \<and> circ_inv b' \<and> contents b' = rest \<and> decoder_idle d'"
proof -
  let ?ds = "m @ fcs_bytes (crc_of m)"
  have sc: "scan 0 (contents b) = (?ds, 0, True, rest)" by (simp add: c scan_encoded)
  have len: "(of_nat (length ?ds) - 2 :: u64) = of_nat (length m)" by (simp add: fcs_bytes_def)
  have ne: "?ds \<noteq> []" by (simp add: fcs_bytes_def)
  obtain d' b' where *: "hdlc_decode_one d b = Inr (Some (of_nat (length m)), d', b')"
    "decoded_prefix d' (length ?ds) = ?ds" "circ_inv b'" "contents b' = rest" "decoder_idle d'"
    using hdlc_decode_one_scan [OF inv idle sc] ne len by auto
  have "decoded_prefix d' (length m) = take (length m) (decoded_prefix d' (length ?ds))"
    by (simp add: decoded_prefix_def take_map)
  then have "decoded_prefix d' (length m) = m" unfolding *(2) by simp
  with * show ?thesis by blast
qed

text \<open>
  The decoder accepts any two bytes in the place of the check sum: it does not compare
  them with the message.
\<close>

lemma check_bytes_ignored:
  assumes "circ_inv b" and "decoder_idle d" and "contents b = concat (map stuff (m @ [x, y])) @ 0x7e # rest"
  shows "\<exists>d' b'. hdlc_decode_one d b = Inr (Some (of_nat (length m)), d', b') \<and>
    decoded_prefix d' (length m) = m \<and> contents b' = rest"
proof -
  have sc: "scan 0 (contents b) = (m @ [x, y], 0, True, rest)" by (simp only: assms(3) scan_stuffed)
  from hdlc_decode_one_scan [OF assms(1,2) sc] obtain d' b' where
    "hdlc_decode_one d b = Inr (Some (of_nat (length m)), d', b')" "contents b' = rest"
      "decoded_prefix d' (length (m @ [x, y])) = m @ [x, y]" by auto
  moreover from this(3) have "decoded_prefix d' (length m) = take (length m) (m @ [x, y])"
    by (metis decoded_prefix_take length_append le_add1)
  ultimately show ?thesis by auto
qed

end
