(* ===== verification/Mbuf.thy ===== *)
theory Mbuf
  imports Diag_Prelude
begin

text \<open>
  Message buffers (\<^verbatim>\<open>mbuf.c\<close>): an allocation with a capacity, a fill offset, the flow
  control context the message counts against, and the data. Sizes are words of 64 bits,
  as \<^verbatim>\<open>size_t\<close> is, so that the bound check of \<^verbatim>\<open>mbuf_put\<close> wraps as in the code.
\<close>

record mbuf =
  m_size :: u64
  m_offset :: u64
  m_flow :: "nat option"
  m_data :: "u8 list"

definition MBUF_HDR :: nat where
  "MBUF_HDR = 40"

definition mbuf_alloc :: "nat \<Rightarrow> 'z heap_scheme \<Rightarrow> mbuf option \<times> 'z heap_scheme" where
  "mbuf_alloc n s =
     (case malloc (MBUF_HDR + n) s of
        (None, s') \<Rightarrow> (None, s')
      | (Some p, s') \<Rightarrow>
          (Some \<lparr>m_size = of_nat n, m_offset = 0, m_flow = None, m_data = drop MBUF_HDR p\<rparr>, s'))"

text \<open>The offset at which the caller may write, if there is room.\<close>

definition mbuf_put :: "mbuf \<Rightarrow> u64 \<Rightarrow> u64 option \<times> mbuf" where
  "mbuf_put m n =
     (if m_offset m + n > m_size m then (None, m)
      else (Some (m_offset m), m\<lparr>m_offset := m_offset m + n\<rparr>))"

lemma length_mbuf_alloc: "mbuf_alloc n s = (Some m, s') \<Longrightarrow> length (m_data m) = n"
  by (auto simp: mbuf_alloc_def malloc_def split: option.splits if_splits)

lemma mbuf_alloc_eq:
  "mbuf_alloc n s =
     (if alloc_ok s (alloc_no s)
      then Some \<lparr>m_size = of_nat n, m_offset = 0, m_flow = None,
                 m_data = drop MBUF_HDR (fresh_bytes s (MBUF_HDR + n))\<rparr>
      else None,
      s\<lparr>alloc_no := Suc (alloc_no s)\<rparr>)"
  by (simp add: mbuf_alloc_def malloc_def)

text \<open>
  A region handed out lies inside the buffer and after every earlier one, as long as the
  sizes do not wrap.
\<close>

definition mbuf_wf :: "mbuf \<Rightarrow> bool" where
  "mbuf_wf m \<longleftrightarrow> unat (m_size m) = length (m_data m) \<and> m_offset m \<le> m_size m"

lemma mbuf_put_region:
  assumes "mbuf_wf m" and "mbuf_put m n = (Some off, m')" and "unat (m_offset m) + unat n < 2 ^ 64"
  shows "mbuf_wf m' \<and> off = m_offset m \<and> unat off + unat n \<le> length (m_data m') \<and>
    unat (m_offset m') = unat off + unat n"
proof -
  have sum: "unat (m_offset m + n) = unat (m_offset m) + unat n"
    using assms(3) by (simp add: unat_word_ariths)
  show ?thesis
    using assms(1,2) sum by (auto simp: mbuf_put_def mbuf_wf_def word_le_nat_alt not_less split: if_splits)
qed

lemma mbuf_put_full: "mbuf_wf m \<Longrightarrow> unat (m_offset m) + unat n < 2 ^ 64 \<Longrightarrow>
    length (m_data m) < unat (m_offset m) + unat n \<Longrightarrow> mbuf_put m n = (None, m)"
  by (simp add: mbuf_put_def mbuf_wf_def word_less_nat_alt unat_word_ariths)

end
