(* ===== verification/List_Head.thy ===== *)
theory List_Head
  imports Diag_Prelude
begin

text \<open>
  The intrusive doubly linked lists of \<^verbatim>\<open>list.h\<close>: nodes are addresses, the two links of
  every node live in a store, and \<open>dll s h xs\<close> says that the list with head \<open>h\<close> holds
  the nodes \<open>xs\<close> in order. The operations are translated assignment by assignment; the
  lemmas show that they refine append, removal and iteration on HOL lists, which is how
  the other theories represent the queues and tables of the router.
\<close>

section \<open>The operations\<close>

type_synonym node = nat

record links =
  prev_of :: "node \<Rightarrow> node"
  next_of :: "node \<Rightarrow> node"

definition set_prev :: "node \<Rightarrow> node \<Rightarrow> 'z links_scheme \<Rightarrow> 'z links_scheme" where
  "set_prev n v s = s\<lparr>prev_of := (prev_of s)(n := v)\<rparr>"

definition set_next :: "node \<Rightarrow> node \<Rightarrow> 'z links_scheme \<Rightarrow> 'z links_scheme" where
  "set_next n v s = s\<lparr>next_of := (next_of s)(n := v)\<rparr>"

definition list_init :: "node \<Rightarrow> 'z links_scheme \<Rightarrow> 'z links_scheme" where
  "list_init l s = set_prev l l (set_next l l s)"

definition list_empty :: "node \<Rightarrow> 'z links_scheme \<Rightarrow> bool" where
  "list_empty l s \<longleftrightarrow> next_of s l = l"

text \<open>The item goes before the head, that is, to the tail of the list.\<close>

definition list_add :: "node \<Rightarrow> node \<Rightarrow> 'z links_scheme \<Rightarrow> 'z links_scheme" where
  "list_add l item s =
     (let prev = prev_of s l;
          s1 = set_next item l s;
          s2 = set_prev item prev s1;
          s3 = set_prev l item s2
      in set_next prev item s3)"

definition list_del :: "node \<Rightarrow> 'z links_scheme \<Rightarrow> 'z links_scheme" where
  "list_del item s =
     (let s1 = set_next (prev_of s item) (next_of s item) s
      in set_prev (next_of s1 item) (prev_of s1 item) s1)"

definition list_first :: "node \<Rightarrow> 'z links_scheme \<Rightarrow> node" where
  "list_first l s = next_of s l"

text \<open>
  The loops \<^verbatim>\<open>list_for_each\<close> and \<^verbatim>\<open>list_for_each_safe\<close>, over an arbitrary body; they
  return only if the traversal comes back to the head. The second one fetches the
  successor before the body runs.
\<close>

partial_function (option) for_each_from ::
    "(node \<Rightarrow> 'z links_scheme \<Rightarrow> 'z links_scheme) \<Rightarrow> node \<Rightarrow> node \<Rightarrow> 'z links_scheme \<Rightarrow> 'z links_scheme option" where
  "for_each_from body l item s =
     (if item = l then Some s
      else for_each_from body l (next_of (body item s) item) (body item s))"

definition list_for_each ::
    "(node \<Rightarrow> 'z links_scheme \<Rightarrow> 'z links_scheme) \<Rightarrow> node \<Rightarrow> 'z links_scheme \<Rightarrow> 'z links_scheme option" where
  "list_for_each body l s = for_each_from body l (next_of s l) s"

partial_function (option) for_each_safe_from ::
    "(node \<Rightarrow> 'z links_scheme \<Rightarrow> 'z links_scheme) \<Rightarrow> node \<Rightarrow> node \<Rightarrow> node \<Rightarrow> 'z links_scheme \<Rightarrow> 'z links_scheme option" where
  "for_each_safe_from body l item nxt s =
     (if item = l then Some s
      else for_each_safe_from body l nxt (next_of (body item s) nxt) (body item s))"

definition list_for_each_safe ::
    "(node \<Rightarrow> 'z links_scheme \<Rightarrow> 'z links_scheme) \<Rightarrow> node \<Rightarrow> 'z links_scheme \<Rightarrow> 'z links_scheme option" where
  "list_for_each_safe body l s = for_each_safe_from body l (next_of s l) (next_of s (next_of s l)) s"

lemma set_links [simp]:
  "next_of (set_prev n v s) = next_of s"
  "prev_of (set_next n v s) = prev_of s"
  "next_of (set_next n v s) = (next_of s)(n := v)"
  "prev_of (set_prev n v s) = (prev_of s)(n := v)"
  by (simp_all add: set_prev_def set_next_def)

section \<open>The shape of a list\<close>

text \<open>A segment: the links lead from \<open>a\<close> through \<open>xs\<close> to \<open>b\<close> and back.\<close>

fun seg :: "'z links_scheme \<Rightarrow> node \<Rightarrow> node list \<Rightarrow> node \<Rightarrow> bool" where
  "seg s a [] b \<longleftrightarrow> next_of s a = b \<and> prev_of s b = a"
| "seg s a (x # xs) b \<longleftrightarrow> next_of s a = x \<and> prev_of s x = a \<and> seg s x xs b"

definition dll :: "'z links_scheme \<Rightarrow> node \<Rightarrow> node list \<Rightarrow> bool" where
  "dll s h xs \<longleftrightarrow> distinct (h # xs) \<and> seg s h xs h"

lemma seg_append: "seg s a (xs @ x # ys) b \<longleftrightarrow> seg s a xs x \<and> seg s x ys b"
  by (induction xs arbitrary: a) auto

lemma seg_cong:
  "(\<And>n. n \<in> insert a (set xs) \<Longrightarrow> next_of s' n = next_of s n) \<Longrightarrow>
   (\<And>n. n \<in> insert b (set xs) \<Longrightarrow> prev_of s' n = prev_of s n) \<Longrightarrow> seg s' a xs b = seg s a xs b"
  by (induction xs arbitrary: a) auto

lemma seg_next: "seg s a xs b \<Longrightarrow> next_of s a = (case xs of [] \<Rightarrow> b | x # _ \<Rightarrow> x)"
  by (cases xs) auto

lemma seg_prev: "seg s a xs b \<Longrightarrow> prev_of s b = last (a # xs)"
  by (induction xs arbitrary: a) auto

text \<open>Replacing the last link of a segment, and the first.\<close>

lemma seg_relink_last:
  assumes "seg s a xs b" and "distinct (a # xs)" and "c \<notin> set xs"
    and "\<And>n. n \<in> insert a (set xs) \<Longrightarrow> n \<noteq> last (a # xs) \<Longrightarrow> next_of s' n = next_of s n"
    and "\<And>n. n \<in> set xs \<Longrightarrow> prev_of s' n = prev_of s n"
    and "next_of s' (last (a # xs)) = c" and "prev_of s' c = last (a # xs)"
  shows "seg s' a xs c"
  using assms
proof (induction xs arbitrary: a)
  case Nil
  then show ?case by simp
next
  case (Cons x xs)
  have lst: "last (a # x # xs) = last (x # xs)" by simp
  have "last (x # xs) \<in> set (x # xs)" by (rule last_in_set) simp
  then have "a \<noteq> last (a # x # xs)" unfolding lst using Cons.prems(2) by (metis distinct.simps(2))
  then have "next_of s' a = x" using Cons.prems(1,4) by simp
  moreover have "prev_of s' x = a" using Cons.prems(1,5) by simp
  moreover have "seg s' x xs c"
  proof (rule Cons.IH)
    show "\<And>n. n \<in> insert x (set xs) \<Longrightarrow> n \<noteq> last (x # xs) \<Longrightarrow> next_of s' n = next_of s n"
      using Cons.prems(4) unfolding lst by simp
  qed (use Cons.prems in \<open>simp_all del: last.simps add: lst\<close>)
  ultimately show ?case by simp
qed

lemma dllI: "distinct (h # xs) \<Longrightarrow> seg s h xs h \<Longrightarrow> dll s h xs"
  by (simp add: dll_def)

lemma dll_init: "dll (list_init h s) h []"
  by (simp add: dll_def list_init_def)

lemma dll_empty: "dll s h xs \<Longrightarrow> list_empty h s \<longleftrightarrow> xs = []"
  by (cases xs) (auto simp: dll_def list_empty_def)

lemma dll_first: "dll s h (x # xs) \<Longrightarrow> list_first h s = x"
  by (simp add: dll_def list_first_def)

lemma dll_unique:
  assumes "dll s h xs" and "dll s h ys"
  shows "xs = ys"
proof -
  have "seg s a xs h \<Longrightarrow> seg s a ys h \<Longrightarrow> h \<notin> set xs \<Longrightarrow> h \<notin> set ys \<Longrightarrow> xs = ys" for a
  proof (induction xs arbitrary: a ys)
    case Nil
    then show ?case by (cases ys) auto
  next
    case (Cons x xs)
    then show ?case by (cases ys) auto
  qed
  then show ?thesis using assms by (auto simp: dll_def)
qed

section \<open>Insertion and removal\<close>

lemma dll_add:
  assumes dll: "dll s h xs" and fresh: "item \<notin> set (h # xs)"
  shows "dll (list_add h item s) h (xs @ [item])"
proof -
  let ?s = "list_add h item s" and ?p = "last (h # xs)"
  from dll have d: "distinct (h # xs)" and sg: "seg s h xs h" by (simp_all add: dll_def)
  have p: "prev_of s h = ?p" using sg by (rule seg_prev)
  have in_p: "?p \<in> set (h # xs)" by (rule last_in_set) simp
  then have "item \<noteq> ?p" using fresh by metis
  have nx: "next_of ?s = (next_of s)(item := h, ?p := item)"
    and pv: "prev_of ?s = (prev_of s)(item := ?p, h := item)"
    by (simp_all add: list_add_def Let_def p)
  have "seg ?s h xs item"
    by (rule seg_relink_last [OF sg d]) (use fresh d \<open>item \<noteq> ?p\<close> in \<open>auto simp: nx pv\<close>)
  moreover have "seg ?s item [] h"
    using \<open>item \<noteq> ?p\<close> by (simp add: nx pv)
  ultimately have "seg ?s h (xs @ [item]) h" by (simp add: seg_append)
  then show ?thesis using d fresh by (simp add: dll_def)
qed

lemma dll_del:
  assumes dll: "dll s h (ys @ x # zs)"
  shows "dll (list_del x s) h (ys @ zs)"
proof -
  let ?s = "list_del x s" and ?p = "last (h # ys)"
  from dll have d: "distinct (h # ys @ x # zs)" and sy: "seg s h ys x" and sz: "seg s x zs h"
    by (simp_all add: dll_def seg_append)
  have p: "prev_of s x = ?p" using sy by (rule seg_prev)
  have in_p: "?p \<in> set (h # ys)" by (rule last_in_set) simp
  then have "?p \<noteq> x" using d by (auto split: if_splits)
  then have nx: "next_of ?s = (next_of s)(?p := next_of s x)"
    and pv: "prev_of ?s = (prev_of s)(next_of s x := ?p)"
    by (simp_all add: list_del_def Let_def p)
  show ?thesis
  proof (cases zs)
    case Nil
    with sz have n: "next_of s x = h" by simp
    have "seg ?s h ys h"
      by (rule seg_relink_last [OF sy]) (use d in \<open>auto simp: nx pv n\<close>)
    then show ?thesis using d Nil by (simp add: dll_def)
  next
    case (Cons z zs')
    with sz have n: "next_of s x = z" and sz': "seg s z zs' h" by simp_all
    have "seg ?s h ys z"
      by (rule seg_relink_last [OF sy]) (use d Cons in \<open>auto simp: nx pv n\<close>)
    moreover have "set (h # ys) \<inter> insert z (set zs') = {}"
      using d Cons by auto
    then have "?p \<notin> insert z (set zs')" using in_p by blast
    then have "seg ?s z zs' h = seg s z zs' h"
      by (intro seg_cong) (use d Cons in \<open>auto simp: nx pv n\<close>)
    ultimately show ?thesis using d Cons sz' by (simp add: dll_def seg_append)
  qed
qed

lemma dll_del_remove1:
  assumes "dll s h xs" and "x \<in> set xs"
  shows "dll (list_del x s) h (remove1 x xs)"
proof -
  from assms(2) obtain ys zs where xs: "xs = ys @ x # zs" "x \<notin> set ys"
    by (meson split_list_first)
  then have "remove1 x xs = ys @ zs" by (simp add: remove1_append)
  with dll_del [of s h ys x zs] assms(1) xs show ?thesis by simp
qed

text \<open>Operations on one list leave every other list alone.\<close>

lemma dll_add_frame:
  assumes "dll s h xs" and "dll s g ys" and "item \<notin> set (g # ys)" and "set (h # xs) \<inter> set (g # ys) = {}"
  shows "dll (list_add h item s) g ys"
proof -
  have p: "prev_of s h \<in> set (h # xs)"
    using assms(1) seg_prev [of s h xs h] last_in_set [of "h # xs"] by (simp add: dll_def)
  have "seg (list_add h item s) g ys g = seg s g ys g"
    by (rule seg_cong) (use p assms(3,4) in \<open>auto simp: list_add_def Let_def\<close>)
  then show ?thesis using assms(2) by (simp add: dll_def)
qed

section \<open>Iteration\<close>

text \<open>A loop whose body keeps the links visits the nodes in order, and returns.\<close>

lemma for_each_fold:
  assumes keep: "\<And>x s. next_of (body x s) = next_of s"
  shows "dll s h xs \<Longrightarrow> list_for_each body h s = Some (fold body xs s)"
proof -
  have walk: "seg s a xs h \<Longrightarrow> h \<notin> set xs \<Longrightarrow> next_of t = next_of s \<Longrightarrow>
      for_each_from body h (next_of s a) t = Some (fold body xs t)" for a t
  proof (induction xs arbitrary: a t)
    case Nil
    then show ?case by (simp add: for_each_from.simps)
  next
    case (Cons x xs)
    then have "next_of s a = x" "x \<noteq> h" "seg s x xs h" by auto
    with Cons.IH [of x "body x t"] Cons.prems(2,3) show ?case
      by (simp add: for_each_from.simps [of body h x] keep)
  qed
  then show "dll s h xs \<Longrightarrow> list_for_each body h s = Some (fold body xs s)"
    by (simp add: dll_def list_for_each_def)
qed

text \<open>
  The safe loop, with a body that unlinks the nodes selected by \<open>P\<close> and leaves the
  others: it returns, and exactly the selected nodes are gone.
\<close>

definition del_if :: "(node \<Rightarrow> bool) \<Rightarrow> node \<Rightarrow> 'z links_scheme \<Rightarrow> 'z links_scheme" where
  "del_if P x s = (if P x then list_del x s else s)"

lemma for_each_safe_suffix:
  "dll s h (ys @ xs) \<Longrightarrow> \<forall>y \<in> set ys. \<not> P y \<Longrightarrow> item = hd (xs @ [h]) \<Longrightarrow>
   nxt = next_of s item \<or> item = h \<Longrightarrow>
   \<exists>s'. for_each_safe_from (del_if P) h item nxt s = Some s' \<and> dll s' h (ys @ filter (\<lambda>x. \<not> P x) xs)"
proof (induction xs arbitrary: s ys item nxt)
  case Nil
  then show ?case by (simp add: for_each_safe_from.simps)
next
  case (Cons x xs)
  have item: "item = x" "x \<noteq> h" using Cons.prems(1,3) by (auto simp: dll_def)
  have nxt: "nxt = hd (xs @ [h])"
    using Cons.prems(1,4) item by (cases xs) (auto simp: dll_def seg_append)
  let ?s = "del_if P x s" and ?ys = "if P x then ys else ys @ [x]"
  have dll: "dll ?s h (?ys @ xs)"
    using Cons.prems(1) dll_del [of s h ys x xs] by (simp add: del_if_def)
  have ys: "\<forall>y \<in> set ?ys. \<not> P y" using Cons.prems(2) by simp
  have eq: "?ys @ filter (\<lambda>x. \<not> P x) xs = ys @ filter (\<lambda>x. \<not> P x) (x # xs)" by simp
  have "for_each_safe_from (del_if P) h item nxt s =
      for_each_safe_from (del_if P) h nxt (next_of ?s nxt) ?s"
    using item by (simp add: for_each_safe_from.simps [of _ h x])
  with Cons.IH [OF dll ys nxt, of "next_of ?s nxt"] eq show ?case by simp
qed

lemma for_each_safe_del:
  assumes "dll s h xs"
  shows "\<exists>s'. list_for_each_safe (del_if P) h s = Some s' \<and> dll s' h (filter (\<lambda>x. \<not> P x) xs)"
  using for_each_safe_suffix [of s h "[]" xs P "next_of s h" "next_of s (next_of s h)"] assms
  by (cases xs) (auto simp: list_for_each_safe_def dll_def)

section \<open>The queue interface\<close>

text \<open>
  What the producers and consumers of message queues rely on: a push appends, the first
  element can be read and removed, and emptiness can be tested.
\<close>

locale msg_queue =
  fixes repr :: "'s \<Rightarrow> 'n list \<Rightarrow> bool"
    and push :: "'n \<Rightarrow> 's \<Rightarrow> 's"
    and first :: "'s \<Rightarrow> 'n"
    and remove :: "'n \<Rightarrow> 's \<Rightarrow> 's"
    and is_empty :: "'s \<Rightarrow> bool"
    and usable :: "'n \<Rightarrow> bool"
  assumes repr_push: "repr s xs \<Longrightarrow> usable n \<Longrightarrow> n \<notin> set xs \<Longrightarrow> repr (push n s) (xs @ [n])"
    and repr_first: "repr s (x # xs) \<Longrightarrow> first s = x"
    and repr_remove: "repr s (x # xs) \<Longrightarrow> repr (remove x s) xs"
    and repr_empty: "repr s xs \<Longrightarrow> is_empty s \<longleftrightarrow> xs = []"
begin

text \<open>Taking up to \<open>k\<close> elements from the front.\<close>

fun take_front :: "nat \<Rightarrow> 's \<Rightarrow> 'n list \<times> 's" where
  "take_front 0 s = ([], s)"
| "take_front (Suc k) s =
     (if is_empty s then ([], s)
      else let x = first s; (xs, s') = take_front k (remove x s) in (x # xs, s'))"

lemma take_front_fifo:
  "repr s xs \<Longrightarrow> fst (take_front k s) = take k xs \<and> repr (snd (take_front k s)) (drop k xs)"
proof (induction k arbitrary: s xs)
  case 0
  then show ?case by simp
next
  case (Suc k)
  show ?case
  proof (cases xs)
    case Nil
    with Suc.prems repr_empty show ?thesis by auto
  next
    case (Cons x ys)
    with Suc.prems have "\<not> is_empty s" "first s = x" "repr (remove x s) ys"
      using repr_empty repr_first repr_remove by auto
    with Suc.IH [of "remove x s" ys] Cons show ?thesis
      by (simp add: Let_def case_prod_beta)
  qed
qed

lemma pushes_repr:
  "repr s xs \<Longrightarrow> distinct (xs @ ns) \<Longrightarrow> \<forall>n \<in> set ns. usable n \<Longrightarrow> repr (fold push ns s) (xs @ ns)"
proof (induction ns arbitrary: s xs)
  case Nil
  then show ?case by simp
next
  case (Cons n ns)
  then have "repr (push n s) (xs @ [n])" by (auto intro: repr_push)
  from Cons.IH [OF this] Cons.prems show ?case by simp
qed

text \<open>First in, first out: what was queued comes out before what is pushed later.\<close>

lemma fifo:
  assumes "repr s xs" and "distinct (xs @ ns)" and "\<forall>n \<in> set ns. usable n"
  shows "fst (take_front k (fold push ns s)) = take k (xs @ ns)"
  using take_front_fifo [OF pushes_repr [OF assms]] by simp

end

text \<open>The lists of \<^verbatim>\<open>list.h\<close> provide it, for every head.\<close>

interpretation lh: msg_queue
  "\<lambda>(s :: links) xs. dll s h xs" "list_add h" "list_first h" list_del "list_empty h" "\<lambda>n. n \<noteq> h" for h
proof (unfold_locales, goal_cases)
  case (1 s xs n)
  then show ?case by (auto intro: dll_add)
next
  case (2 s x xs)
  then show ?case by (rule dll_first)
next
  case (3 s x xs)
  then show ?case using dll_del [of s h "[]" x xs] by simp
next
  case (4 s xs)
  then show ?case by (rule dll_empty)
qed

text \<open>
  Any number of nodes appended with \<^verbatim>\<open>list_add\<close> and taken from the front come out in the
  order in which they were appended, after those that were there before.
\<close>

lemma list_is_fifo:
  assumes "dll s h xs" and "distinct (h # xs @ ns)"
  shows "dll (fold (list_add h) ns s) h (xs @ ns)"
  using assms
proof (induction ns arbitrary: s xs)
  case (Cons n ns)
  have "dll (list_add h n s) h (xs @ [n])" using Cons.prems by (intro dll_add) auto
  from Cons.IH [OF this] Cons.prems(2) show ?case by simp
qed simp

end
