(* ===== verification/Watch.thy ===== *)
theory Watch
  imports Mbuf List_Head
begin

text \<open>
  The event loop's tables (\<^verbatim>\<open>watch.c\<close>): flow control contexts, read watches, asynchronous
  input and output on message queues, and timers. Function pointers with their data
  pointer are values of the types below; the lists of the code are HOL lists, which
  \<open>List_Head\<close> shows to be what its list operations implement.
\<close>

section \<open>State\<close>

type_synonym flow_id = nat
type_synonym client_id = nat
type_synonym perif_id = nat

datatype queue_id =
    ClientOutq client_id
  | PerifCmdq perif_id
  | PerifCntlq perif_id
  | PerifDataq perif_id
  | UsbOutq nat

datatype read_cb =
    CbDmRecv client_id
  | CbUnixListen
  | CbUdevUpdate
  | CbEp0 nat
  | CbRpmsgCntl perif_id
  | CbRpmsgData perif_id
  | CbRpmsgCmd perif_id
  | CbQrtrCntl perif_id
  | CbQrtrCmd perif_id
  | CbQrtrData perif_id

datatype aio_done = AioFreeWrite | AioFfsRecv nat

datatype timer_cb = TmHdlcReset client_id | TmPeripheralOpen perif_id

record watch =
  w_addr :: nat
  w_fd :: int
  w_cb :: "read_cb option"
  w_queue :: "queue_id option"
  w_pending :: "mbuf option"
  w_is_write :: bool
  w_flow :: "flow_id option"
  w_complete :: "aio_done option"

type_synonym timeval = "int \<times> int"

record timer =
  t_addr :: nat
  t_cb :: timer_cb
  t_interval :: u32
  t_repeat :: bool
  t_tick :: timeval

text \<open>
  \<open>flows\<close> maps each context to its number of outstanding packets; \<open>clock\<close> is what
  \<^verbatim>\<open>gettimeofday\<close> returns.
\<close>

record flow_state = heap +
  flows :: "flow_id \<Rightarrow> int"
  next_flow :: flow_id

record watch_state = flow_state +
  clock :: timeval
  timers :: "timer list"
  read_watches :: "watch list"
  aio_watches :: "watch list"
  quit_watches :: "watch list"
  do_watch_quit :: bool

section \<open>Flow control\<close>

definition FLOW_WATERMARK :: int where
  "FLOW_WATERMARK = 10"

definition watch_flow_new :: "'z flow_state_scheme \<Rightarrow> flow_id option \<times> 'z flow_state_scheme" where
  "watch_flow_new s =
     (case malloc 4 s of
        (None, s') \<Rightarrow> (None, s')
      | (Some _, s') \<Rightarrow>
          (Some (next_flow s'),
           s'\<lparr>flows := (flows s')(next_flow s' := 0), next_flow := Suc (next_flow s')\<rparr>))"

definition watch_flow_inc :: "flow_id option \<Rightarrow> 'z flow_state_scheme \<Rightarrow> 'z flow_state_scheme" where
  "watch_flow_inc flow s =
     (case flow of None \<Rightarrow> s | Some f \<Rightarrow> s\<lparr>flows := (flows s)(f := flows s f + 1)\<rparr>)"

text \<open>An unbalanced decrement only prints a message.\<close>

definition watch_flow_dec :: "flow_id option \<Rightarrow> 'z flow_state_scheme \<Rightarrow> 'z flow_state_scheme" where
  "watch_flow_dec flow s =
     (case flow of
        None \<Rightarrow> s
      | Some f \<Rightarrow> if flows s f = 0 then s else s\<lparr>flows := (flows s)(f := flows s f - 1)\<rparr>)"

definition watch_flow_blocked :: "flow_id option \<Rightarrow> 'z flow_state_scheme \<Rightarrow> bool" where
  "watch_flow_blocked flow s \<longleftrightarrow>
     (case flow of None \<Rightarrow> False | Some f \<Rightarrow> flows s f > FLOW_WATERMARK)"

lemma flow_inc_dec [simp]:
  "flows s f \<ge> 0 \<Longrightarrow> flows (watch_flow_dec (Some f) (watch_flow_inc (Some f) s)) = flows s"
  by (auto simp: watch_flow_inc_def watch_flow_dec_def)

lemma flow_inc_other: "f \<noteq> Some g \<Longrightarrow> flows (watch_flow_inc f s) g = flows s g"
  by (auto simp: watch_flow_inc_def split: option.splits)

lemma flow_dec_nonneg:
  "\<forall>f. flows s f \<ge> 0 \<Longrightarrow> \<forall>f. flows (watch_flow_dec g s) f \<ge> 0"
  by (auto simp: watch_flow_dec_def order_less_le split: option.splits)

lemma flow_inc_alloc [simp]:
  "alloc_no (watch_flow_inc f s) = alloc_no s" "alloc_ok (watch_flow_inc f s) = alloc_ok s"
  by (auto simp: watch_flow_inc_def split: option.splits)

section \<open>Watches\<close>

text \<open>The common shape of the registration functions: \<^verbatim>\<open>calloc\<close>, or exit.\<close>

definition calloc_or_exit :: "nat \<Rightarrow> 'z heap_scheme \<Rightarrow> 'z heap_scheme res" where
  "calloc_or_exit n s = (case malloc n s of (None, _) \<Rightarrow> Inl Exited | (Some _, s') \<Rightarrow> Inr s')"

definition WATCH_SIZE :: nat where "WATCH_SIZE = 144"
definition TIMER_SIZE :: nat where "TIMER_SIZE = 56"

text \<open>The address of a watch or timer is the number of its allocation.\<close>

definition watch_zero :: watch where
  "watch_zero = \<lparr>w_addr = 0, w_fd = 0, w_cb = None, w_queue = None, w_pending = None, w_is_write = False,
                 w_flow = None, w_complete = None\<rparr>"

definition watch_add_readfd ::
    "int \<Rightarrow> read_cb \<Rightarrow> flow_id option \<Rightarrow> 'z watch_state_scheme \<Rightarrow> 'z watch_state_scheme res" where
  "watch_add_readfd fd cb flow s =
     andthen (calloc_or_exit WATCH_SIZE s) (\<lambda>s'.
       Inr (s'\<lparr>read_watches := read_watches s' @ 
         [watch_zero\<lparr>w_addr := alloc_no s, w_fd := fd, w_cb := Some cb, w_flow := flow\<rparr>]\<rparr>))"

definition watch_add_readq ::
    "int \<Rightarrow> queue_id \<Rightarrow> aio_done \<Rightarrow> 'z watch_state_scheme \<Rightarrow> 'z watch_state_scheme res" where
  "watch_add_readq fd queue cb s =
     andthen (calloc_or_exit WATCH_SIZE s) (\<lambda>s'.
       Inr (s'\<lparr>aio_watches := aio_watches s' @
         [watch_zero\<lparr>w_addr := alloc_no s, w_fd := fd, w_complete := Some cb, w_queue := Some queue,
            w_is_write := False\<rparr>]\<rparr>))"

definition watch_add_writeq ::
    "int \<Rightarrow> queue_id \<Rightarrow> 'z watch_state_scheme \<Rightarrow> 'z watch_state_scheme res" where
  "watch_add_writeq fd queue s =
     andthen (calloc_or_exit WATCH_SIZE s) (\<lambda>s'.
       Inr (s'\<lparr>aio_watches := aio_watches s' @
         [watch_zero\<lparr>w_addr := alloc_no s, w_fd := fd, w_queue := Some queue, w_complete := Some AioFreeWrite,
            w_is_write := True\<rparr>]\<rparr>))"

definition watch_remove_fd :: "int \<Rightarrow> 'z watch_state_scheme \<Rightarrow> 'z watch_state_scheme" where
  "watch_remove_fd fd s =
     s\<lparr>read_watches := filter (\<lambda>w. w_fd w \<noteq> fd) (read_watches s),
       aio_watches := filter (\<lambda>w. w_fd w \<noteq> fd) (aio_watches s)\<rparr>"

definition watch_remove_writeq :: "int \<Rightarrow> 'z watch_state_scheme \<Rightarrow> 'z watch_state_scheme" where
  "watch_remove_writeq fd s = s\<lparr>aio_watches := filter (\<lambda>w. w_fd w \<noteq> fd) (aio_watches s)\<rparr>"

definition watch_add_quit :: "read_cb \<Rightarrow> 'z watch_state_scheme \<Rightarrow> 'z watch_state_scheme res" where
  "watch_add_quit cb s =
     andthen (calloc_or_exit WATCH_SIZE s) (\<lambda>s'.
       Inr (s'\<lparr>quit_watches := quit_watches s' @ [watch_zero\<lparr>w_addr := alloc_no s, w_cb := Some cb\<rparr>]\<rparr>))"

definition watch_quit :: "'z watch_state_scheme \<Rightarrow> 'z watch_state_scheme" where
  "watch_quit s = s\<lparr>do_watch_quit := True\<rparr>"

section \<open>Timers\<close>

definition timeradd :: "timeval \<Rightarrow> timeval \<Rightarrow> timeval" where
  "timeradd a b =
     (let sec = fst a + fst b; usec = snd a + snd b
      in if usec \<ge> 1000000 then (sec + 1, usec - 1000000) else (sec, usec))"

definition timersub :: "timeval \<Rightarrow> timeval \<Rightarrow> timeval" where
  "timersub a b =
     (let sec = fst a - fst b; usec = snd a - snd b
      in if usec < 0 then (sec - 1, usec + 1000000) else (sec, usec))"

definition timer_less :: "timeval \<Rightarrow> timeval \<Rightarrow> bool" where
  "timer_less a b \<longleftrightarrow> (if fst a = fst b then snd a < snd b else fst a < fst b)"

definition watch_set_timer :: "timer \<Rightarrow> 'z watch_state_scheme \<Rightarrow> timer" where
  "watch_set_timer t s =
     t\<lparr>t_tick := timeradd (clock s)
        (int (unat (t_interval t) div 1000), int (unat (t_interval t) mod 1000) * 1000)\<rparr>"

definition watch_add_timer ::
    "timer_cb \<Rightarrow> u32 \<Rightarrow> bool \<Rightarrow> 'z watch_state_scheme \<Rightarrow> 'z watch_state_scheme res" where
  "watch_add_timer cb interval repeat s =
     andthen (calloc_or_exit TIMER_SIZE s) (\<lambda>s'.
       Inr (s'\<lparr>timers := timers s' @
         [watch_set_timer
            \<lparr>t_addr = alloc_no s, t_cb = cb, t_interval = interval, t_repeat = repeat, t_tick = (0, 0)\<rparr> s']\<rparr>))"

definition watch_free_timer :: "timer \<Rightarrow> 'z watch_state_scheme \<Rightarrow> 'z watch_state_scheme" where
  "watch_free_timer t s = s\<lparr>timers := filter (\<lambda>u. t_addr u \<noteq> t_addr t) (timers s)\<rparr>"

definition watch_get_next_timer :: "'z watch_state_scheme \<Rightarrow> timer option" where
  "watch_get_next_timer s =
     (case timers s of
        [] \<Rightarrow> None
      | t # _ \<Rightarrow>
          Some (fold (\<lambda>timer selected. if timer_less (t_tick timer) (t_tick selected) then timer else selected)
                (timers s) t))"

text \<open>How long \<^verbatim>\<open>watch_run\<close> lets \<^verbatim>\<open>select\<close> sleep.\<close>

definition watch_timeout :: "'z watch_state_scheme \<Rightarrow> timeval option" where
  "watch_timeout s =
     (case watch_get_next_timer s of
        None \<Rightarrow> None
      | Some t \<Rightarrow> (let tv = timersub (t_tick t) (clock s) in Some (if fst tv < 0 then (0, 0) else tv)))"

definition time_us :: "timeval \<Rightarrow> int" where
  "time_us tv = fst tv * 1000000 + snd tv"

definition time_wf :: "timeval \<Rightarrow> bool" where
  "time_wf tv \<longleftrightarrow> 0 \<le> snd tv \<and> snd tv < 1000000"

lemma timer_less_us: "time_wf a \<Longrightarrow> time_wf b \<Longrightarrow> timer_less a b \<longleftrightarrow> time_us a < time_us b"
  by (auto simp: timer_less_def time_us_def time_wf_def)

lemma timeradd_us: "time_us (timeradd a b) = time_us a + time_us b"
  by (simp add: timeradd_def time_us_def Let_def algebra_simps)

lemma timeradd_wf: "time_wf a \<Longrightarrow> time_wf b \<Longrightarrow> time_wf (timeradd a b)"
  by (auto simp: timeradd_def time_wf_def Let_def)

lemma timersub_us: "time_us (timersub a b) = time_us a - time_us b"
  by (simp add: timersub_def time_us_def Let_def algebra_simps)

lemma timersub_wf: "time_wf a \<Longrightarrow> time_wf b \<Longrightarrow> time_wf (timersub a b)"
  by (auto simp: timersub_def time_wf_def Let_def)

lemma watch_set_timer_us:
  "time_us (t_tick (watch_set_timer t s)) = time_us (clock s) + 1000 * int (unat (t_interval t))"
proof -
  have "int (unat (t_interval t)) = 1000 * int (unat (t_interval t) div 1000) + int (unat (t_interval t) mod 1000)"
    by (metis mult_div_mod_eq of_nat_add of_nat_mult of_nat_numeral)
  moreover have "time_us (t_tick (watch_set_timer t s)) =
      time_us (clock s) + time_us (int (unat (t_interval t) div 1000), int (unat (t_interval t) mod 1000) * 1000)"
    by (simp add: watch_set_timer_def timeradd_us)
  ultimately show ?thesis by (simp add: time_us_def)
qed

text \<open>The timer selected is due no later than any other.\<close>

lemma fold_select:
  fixes f :: "'a \<Rightarrow> int" and lt :: "'a \<Rightarrow> 'a \<Rightarrow> bool"
  assumes lt: "\<And>x y. x \<in> P \<Longrightarrow> y \<in> P \<Longrightarrow> lt x y \<longleftrightarrow> f x < f y"
  shows "m \<in> P \<Longrightarrow> set xs \<subseteq> P \<Longrightarrow>
    (let r = fold (\<lambda>x m. if lt x m then x else m) xs m
     in r \<in> insert m (set xs) \<and> (\<forall>x \<in> insert m (set xs). f r \<le> f x))"
proof (induction xs arbitrary: m)
  case Nil
  then show ?case by simp
next
  case (Cons x xs)
  let ?m = "if lt x m then x else m"
  have m: "?m \<in> P" and xs: "set xs \<subseteq> P" and x: "x \<in> P" using Cons.prems by auto
  have le: "f ?m \<le> f x" "f ?m \<le> f m" using lt [OF x Cons.prems(1)] by auto
  show ?case
    using Cons.IH [OF m xs] le by (fastforce simp: Let_def)
qed

lemma watch_get_next_timer_least:
  assumes wf: "\<forall>t \<in> set (timers s). time_wf (t_tick t)" and sel: "watch_get_next_timer s = Some t"
  shows "t \<in> set (timers s) \<and> (\<forall>u \<in> set (timers s). time_us (t_tick t) \<le> time_us (t_tick u))"
proof -
  from sel obtain t0 ts where ts: "timers s = t0 # ts"
    by (auto simp: watch_get_next_timer_def split: list.splits)
  let ?P = "{t. time_wf (t_tick t)}"
  let ?r = "fold (\<lambda>x m. if timer_less (t_tick x) (t_tick m) then x else m) (timers s) t0"
  have "let r = ?r in r \<in> insert t0 (set (timers s)) \<and>
      (\<forall>x \<in> insert t0 (set (timers s)). time_us (t_tick r) \<le> time_us (t_tick x))"
    by (rule fold_select [where P = ?P]) (use wf ts in \<open>auto simp: timer_less_us\<close>)
  moreover have "t = ?r" using sel ts by (simp add: watch_get_next_timer_def)
  ultimately show ?thesis using ts by (auto simp: Let_def)
qed

section \<open>Asynchronous input and output\<close>

text \<open>
  Submitting the first message of a queue. The kernel's answer (did \<^verbatim>\<open>io_submit\<close> accept
  the request) is an argument; the result is the watch and what is left of the queue.
\<close>

definition watch_submit_aio :: "bool \<Rightarrow> watch \<Rightarrow> mbuf list \<Rightarrow> (watch \<times> mbuf list) res" where
  "watch_submit_aio accepted w queue =
     (if w_pending w \<noteq> None then Inl AssertFailed
      else case queue of
             [] \<Rightarrow> Inr (w, queue)
           | m # rest \<Rightarrow> if accepted then Inr (w\<lparr>w_pending := Some m\<rparr>, rest) else Inr (w, queue))"

text \<open>The guard under which \<^verbatim>\<open>watch_run\<close> calls it.\<close>

definition watch_poll_aio :: "bool \<Rightarrow> watch \<Rightarrow> mbuf list \<Rightarrow> (watch \<times> mbuf list) res" where
  "watch_poll_aio accepted w queue =
     (if queue \<noteq> [] \<and> w_pending w = None then watch_submit_aio accepted w queue else Inr (w, queue))"

definition watch_free_write_aio :: "mbuf \<Rightarrow> 'z flow_state_scheme \<Rightarrow> 'z flow_state_scheme" where
  "watch_free_write_aio m s = watch_flow_dec (m_flow m) s"

text \<open>
  The events of one \<^verbatim>\<open>io_getevents\<close> for one watch: each is the descriptor and the result
  of a finished request. \<open>complete\<close> runs the completion callback of the watch.
\<close>

fun watch_complete_aio ::
    "(aio_done \<Rightarrow> mbuf \<Rightarrow> 's \<Rightarrow> 's res) \<Rightarrow> (int \<times> int) list \<Rightarrow> watch \<Rightarrow> 's \<Rightarrow> (watch \<times> 's) res" where
  "watch_complete_aio complete [] w s = Inr (w, s)"
| "watch_complete_aio complete ((fd, res) # evs) w s =
     (if fd \<noteq> w_fd w then watch_complete_aio complete evs w s
      else case w_pending w of
             None \<Rightarrow> Inl AssertFailed
           | Some m \<Rightarrow>
               if res = - EAGAIN then watch_complete_aio complete evs w s
               else
                 let m' = (if \<not> w_is_write w \<and> res \<ge> 0 then m\<lparr>m_offset := of_int res\<rparr> else m) in
                 case w_complete w of
                   None \<Rightarrow> Inl NullDeref
                 | Some cb \<Rightarrow>
                     andthen (complete cb m' s) (\<lambda>s'.
                       watch_complete_aio complete evs (w\<lparr>w_pending := None\<rparr>) s'))"

text \<open>
  A request that ends with \<^verbatim>\<open>EAGAIN\<close> leaves the watch as it is, with its message still
  pending, and a watch with a pending message is never submitted again.
\<close>

lemma eagain_keeps_pending:
  "\<forall>(fd, res) \<in> set evs. fd = w_fd w \<longrightarrow> res = - EAGAIN \<Longrightarrow> w_pending w = Some m \<Longrightarrow>
   watch_complete_aio complete evs w s = Inr (w, s)"
  by (induction evs) auto

lemma pending_not_submitted: "w_pending w = Some m \<Longrightarrow> watch_poll_aio acc w queue = Inr (w, queue)"
  by (simp add: watch_poll_aio_def)

text \<open>Messages leave a queue from the front, one at a time.\<close>

lemma watch_poll_aio_order:
  assumes "watch_poll_aio acc w queue = Inr (w', queue')"
  shows "(case w_pending w of None \<Rightarrow> [] | Some m \<Rightarrow> [m]) @ queue =
    (case w_pending w' of None \<Rightarrow> [] | Some m \<Rightarrow> [m]) @ queue'"
  using assms by (auto simp: watch_poll_aio_def watch_submit_aio_def split: list.splits if_splits option.splits)

lemma watch_poll_aio_safe: "\<exists>w' queue'. watch_poll_aio acc w queue = Inr (w', queue')"
  by (auto simp: watch_poll_aio_def watch_submit_aio_def split: list.splits)

text \<open>
  A transfer that ends with \<^verbatim>\<open>EAGAIN\<close> blocks its queue for good: the message stays
  pending through the completion, and the poll of the next round does not submit it again.
\<close>

lemma eagain_blocks_queue:
  assumes "w_pending w = Some m" and "\<forall>(fd, res) \<in> set evs. fd = w_fd w \<longrightarrow> res = - EAGAIN"
  shows "andthen (watch_complete_aio complete evs w s) (\<lambda>(w, s). watch_poll_aio accepted w queue) = Inr (w, queue)"
  by (simp add: eagain_keeps_pending [OF assms(2,1)] pending_not_submitted [OF assms(1)])

end
