(* ===== verification/Masks.thy ===== *)
theory Masks
  imports Watch
begin

text \<open>
  The mask tables (\<^verbatim>\<open>masks.c\<close>, \<^verbatim>\<open>masks.h\<close>): one bit mask per equipment id for log codes, one
  level mask per message in each range of subsystem ids (with a second, build-time copy),
  and one bit mask for events. Tables and masks are heap objects, so that copies are
  checked against the size that was allocated.
\<close>

section \<open>Constants and tables\<close>

definition DIAG_CTRL_MASK_INVALID :: u8 where "DIAG_CTRL_MASK_INVALID = 0"
definition DIAG_CTRL_MASK_ALL_DISABLED :: u8 where "DIAG_CTRL_MASK_ALL_DISABLED = 1"
definition DIAG_CTRL_MASK_ALL_ENABLED :: u8 where "DIAG_CTRL_MASK_ALL_ENABLED = 2"
definition DIAG_CTRL_MASK_VALID :: u8 where "DIAG_CTRL_MASK_VALID = 3"

lemmas mask_status_defs =
  DIAG_CTRL_MASK_INVALID_def DIAG_CTRL_MASK_ALL_DISABLED_def
  DIAG_CTRL_MASK_ALL_ENABLED_def DIAG_CTRL_MASK_VALID_def

definition MSG_MASK_TBL_CNT :: nat where "MSG_MASK_TBL_CNT = 25"
definition NUM_OF_MASK_RANGES :: nat where "NUM_OF_MASK_RANGES = 25"
definition MAX_EQUIP_ID :: nat where "MAX_EQUIP_ID = 16"
definition MAX_SSID_PER_RANGE :: u32 where "MAX_SSID_PER_RANGE = 200"
definition MAX_ITEMS_PER_EQUIP_ID :: u32 where "MAX_ITEMS_PER_EQUIP_ID = 512"
definition MAX_ITEMS_ALLOWED :: u32 where "MAX_ITEMS_ALLOWED = 0xfff"
definition EVENT_MASK_SIZE :: int where "EVENT_MASK_SIZE = 513"
definition APPS_EVENT_LAST_ID :: u16 where "APPS_EVENT_LAST_ID = 0x0b3f"
definition APPS_BUF_SIZE :: int where "APPS_BUF_SIZE = 16384"
definition MSG_MASK_SIZE :: int where "MSG_MASK_SIZE = 25 * 28"
definition LOG_MASK_SIZE :: int where "LOG_MASK_SIZE = 16 * 25"

definition log_code_last_tbl :: "u32 list" where
  "log_code_last_tbl = [
     0x0, 0x1A02, 0x0, 0x0, 0x4910, 0x5420, 0x0, 0x74FF,
     0x0, 0x0, 0xA38A, 0xB201, 0x0, 0xD1FF, 0x0, 0x0
   ]"

definition ssid_first_arr :: "u32 list" where
  "ssid_first_arr = [
     0, 500, 1000, 2000, 3000, 4000, 4500, 4600,
     5000, 5500, 6000, 6500, 7000, 7100, 7200, 8000,
     8500, 9000, 9500, 10200, 10251, 10300, 10350, 10400,
     0xC000
   ]"

definition ssid_last_arr :: "u32 list" where
  "ssid_last_arr = [
     120, 506, 1007, 2008, 3014, 4010, 4573, 4615,
     5033, 5516, 6081, 6521, 7003, 7111, 7201, 8000,
     8529, 9008, 9510, 10210, 10255, 10300, 10377, 10416,
     0xC063
   ]"

definition LOG_GET_ITEM_NUM :: "u32 \<Rightarrow> u32" where
  "LOG_GET_ITEM_NUM code = code AND 0x0fff"

section \<open>State\<close>

record log_mask_t =
  lm_equip_id :: u8
  lm_num_items :: u32
  lm_num_items_tools :: u32
  lm_range :: u32
  lm_range_tools :: u32
  lm_ptr :: "u8 list pointer"

record ssid_range =
  ssid_first :: u16
  ssid_last :: u16

record msg_mask_t =
  mm_ssid_first :: u32
  mm_ssid_last :: u32
  mm_ssid_last_tools :: u32
  mm_range :: u32
  mm_range_tools :: u32
  mm_ptr :: "u32 list pointer"

record 'a mask_info =
  mi_ptr :: "'a pointer"
  mi_mask_len :: int
  mi_status :: u8

record mask_state = watch_state +
  msg_mask :: "msg_mask_t list mask_info"
  msg_bt_mask :: "msg_mask_t list mask_info"
  log_mask :: "log_mask_t list mask_info"
  event_mask :: "u8 list mask_info"
  event_max_num_bits :: u16

definition log_mask_zero :: log_mask_t where
  "log_mask_zero = \<lparr>lm_equip_id = 0, lm_num_items = 0, lm_num_items_tools = 0, lm_range = 0,
                    lm_range_tools = 0, lm_ptr = Null\<rparr>"

definition msg_mask_zero :: msg_mask_t where
  "msg_mask_zero = \<lparr>mm_ssid_first = 0, mm_ssid_last = 0, mm_ssid_last_tools = 0, mm_range = 0,
                    mm_range_tools = 0, mm_ptr = Null\<rparr>"

text \<open>The macro \<^verbatim>\<open>MSG_RANGE_TO_SIZE\<close>: an \<^verbatim>\<open>int\<close> that its users store in 32 unsigned bits.\<close>

definition MSG_RANGE_TO_SIZE :: "ssid_range \<Rightarrow> u32" where
  "MSG_RANGE_TO_SIZE r = (ucast (ssid_last r) - ucast (ssid_first r) + 1) * 4"

section \<open>Initialisation\<close>

text \<open>\<open>zero\<close> is the content of the cleared allocation.\<close>

definition diag_mask_init ::
    "'a mask_info \<Rightarrow> int \<Rightarrow> int \<Rightarrow> 'a \<Rightarrow> 'z heap_scheme \<Rightarrow> int \<times> 'a mask_info \<times> 'z heap_scheme" where
  "diag_mask_init mi mask_len update_buf_len zero s =
     (if mask_len < 0 \<or> update_buf_len < 0 then (- EINVAL, mi, s)
      else
        let mi = mi\<lparr>mi_status := DIAG_CTRL_MASK_INVALID, mi_mask_len := mask_len\<rparr> in
        if mask_len > 0 then
          (case malloc (nat mask_len) s of
             (None, s') \<Rightarrow> (- ENOMEM, mi\<lparr>mi_ptr := Null\<rparr>, s')
           | (Some _, s') \<Rightarrow> (0, mi\<lparr>mi_ptr := Obj zero\<rparr>, s'))
        else (0, mi, s))"

definition diag_create_msg_mask_table_entry ::
    "nat \<Rightarrow> msg_mask_t \<Rightarrow> 'z heap_scheme \<Rightarrow> (int \<times> msg_mask_t \<times> 'z heap_scheme) res" where
  "diag_create_msg_mask_table_entry entry m s =
     (if entry > NUM_OF_MASK_RANGES then Inr (- EINVAL, m, s)
      else
        andthen (arr_read ssid_first_arr entry) (\<lambda>first.
        andthen (arr_read ssid_last_arr entry) (\<lambda>last.
          let range0 = last - first + 1;
              range = (if range0 < MAX_SSID_PER_RANGE then MAX_SSID_PER_RANGE else range0);
              m = m\<lparr>mm_ssid_first := first, mm_ssid_last := last, mm_ssid_last_tools := last,
                    mm_range := range, mm_range_tools := range\<rparr>
          in if range > 0 then
               (case malloc (unat range * 4) s of
                  (None, s') \<Rightarrow> Inr (- ENOMEM, m\<lparr>mm_ptr := Null\<rparr>, s')
                | (Some _, s') \<Rightarrow> Inr (0, m\<lparr>mm_ptr := Obj (replicate (unat range) 0xffffffff)\<rparr>, s'))
             else Inr (0, m, s))))"

text \<open>
  The two loops that build the tables; entries after a failure keep their zero value. The
  test of the entry pointer against null in \<open>diag_create_msg_mask_table_entry\<close> is the null
  table of its callers.
\<close>

fun create_msg_masks ::
    "nat \<Rightarrow> msg_mask_t list \<Rightarrow> 'z heap_scheme \<Rightarrow> (int \<times> msg_mask_t list \<times> 'z heap_scheme) res" where
  "create_msg_masks i [] s = Inr (0, [], s)"
| "create_msg_masks i (m # ms) s =
     andthen (diag_create_msg_mask_table_entry i m s) (\<lambda>(err, m', s').
       if err \<noteq> 0 then Inr (err, m' # ms, s')
       else andthen (create_msg_masks (i + 1) ms s') (\<lambda>(err, ms', s''). Inr (err, m' # ms', s'')))"

definition diag_create_build_time_mask :: "'z mask_state_scheme \<Rightarrow> (int \<times> 'z mask_state_scheme) res" where
  "diag_create_build_time_mask s =
     (case mi_ptr (msg_bt_mask s) of
        Null \<Rightarrow> Inr (- EIO, s)
      | Freed \<Rightarrow> Inl UseAfterFree
      | Obj tbl \<Rightarrow>
          andthen (create_msg_masks 0 tbl s) (\<lambda>(err, tbl', s).
            Inr (err, s\<lparr>msg_bt_mask := (msg_bt_mask s)\<lparr>mi_ptr := Obj tbl'\<rparr>\<rparr>)))"

definition diag_create_msg_mask_table :: "'z mask_state_scheme \<Rightarrow> (int \<times> 'z mask_state_scheme) res" where
  "diag_create_msg_mask_table s =
     (case mi_ptr (msg_mask s) of
        Null \<Rightarrow> Inr (- EIO, s)
      | Freed \<Rightarrow> Inl UseAfterFree
      | Obj tbl \<Rightarrow>
          andthen (create_msg_masks 0 tbl s) (\<lambda>(err, tbl', s).
            Inr (err, s\<lparr>msg_mask := (msg_mask s)\<lparr>mi_ptr := Obj tbl'\<rparr>\<rparr>)))"

definition diag_msg_mask_init :: "'z mask_state_scheme \<Rightarrow> (int \<times> 'z mask_state_scheme) res" where
  "diag_msg_mask_init s =
     (let (ret, mi, s) = diag_mask_init (msg_mask s) MSG_MASK_SIZE APPS_BUF_SIZE
            (replicate MSG_MASK_TBL_CNT msg_mask_zero) s;
          s = s\<lparr>msg_mask := mi\<rparr>
      in if ret \<noteq> 0 then Inr (ret, s) else diag_create_msg_mask_table s)"

definition diag_build_time_mask_init :: "'z mask_state_scheme \<Rightarrow> (int \<times> 'z mask_state_scheme) res" where
  "diag_build_time_mask_init s =
     (let (ret, mi, s) = diag_mask_init (msg_bt_mask s) MSG_MASK_SIZE 0
            (replicate MSG_MASK_TBL_CNT msg_mask_zero) s;
          s = s\<lparr>msg_bt_mask := mi\<rparr>
      in if ret \<noteq> 0 then Inr (ret, s) else diag_create_build_time_mask s)"

fun create_log_masks ::
    "nat \<Rightarrow> log_mask_t list \<Rightarrow> 'z heap_scheme \<Rightarrow> (int \<times> log_mask_t list \<times> 'z heap_scheme) res" where
  "create_log_masks i [] s = Inr (0, [], s)"
| "create_log_masks i (m # ms) s =
     andthen (arr_read log_code_last_tbl i) (\<lambda>code.
       let num = LOG_GET_ITEM_NUM code;
           range = (if bits_to_bytes32 num > MAX_ITEMS_PER_EQUIP_ID then bits_to_bytes32 num
                    else MAX_ITEMS_PER_EQUIP_ID);
           m = m\<lparr>lm_equip_id := of_nat i, lm_num_items := num, lm_num_items_tools := num,
                 lm_range := range, lm_range_tools := range\<rparr>
       in case malloc (unat range) s of
            (None, s') \<Rightarrow> Inr (- ENOMEM, m\<lparr>lm_ptr := Null\<rparr> # ms, s')
          | (Some _, s') \<Rightarrow>
              andthen (create_log_masks (i + 1) ms s') (\<lambda>(err, ms', s'').
                Inr (err, m\<lparr>lm_ptr := Obj (replicate (unat range) 0)\<rparr> # ms', s'')))"

definition diag_create_log_mask_table :: "'z mask_state_scheme \<Rightarrow> (int \<times> 'z mask_state_scheme) res" where
  "diag_create_log_mask_table s =
     andthen (deref (mi_ptr (log_mask s))) (\<lambda>tbl.
     andthen (create_log_masks 0 tbl s) (\<lambda>(err, tbl', s).
       Inr (err, s\<lparr>log_mask := (log_mask s)\<lparr>mi_ptr := Obj tbl'\<rparr>\<rparr>)))"

definition diag_log_mask_init :: "'z mask_state_scheme \<Rightarrow> (int \<times> 'z mask_state_scheme) res" where
  "diag_log_mask_init s =
     (let (ret, mi, s) = diag_mask_init (log_mask s) LOG_MASK_SIZE APPS_BUF_SIZE
            (replicate MAX_EQUIP_ID log_mask_zero) s;
          s = s\<lparr>log_mask := mi\<rparr>
      in if ret \<noteq> 0 then Inr (ret, s) else diag_create_log_mask_table s)"

definition diag_event_mask_init :: "'z mask_state_scheme \<Rightarrow> (int \<times> 'z mask_state_scheme) res" where
  "diag_event_mask_init s =
     (let s = s\<lparr>event_max_num_bits := APPS_EVENT_LAST_ID\<rparr>;
          (ret, mi, s) = diag_mask_init (event_mask s) EVENT_MASK_SIZE APPS_BUF_SIZE
            (replicate (nat EVENT_MASK_SIZE) 0) s
      in Inr (ret, s\<lparr>event_mask := mi\<rparr>))"

text \<open>
  Releasing a table frees its masks and itself, and leaves the pointer dangling; a null
  pointer is skipped, a dangling one would be released twice.
\<close>

definition mask_free :: "'a mask_info \<Rightarrow> 'a mask_info res" where
  "mask_free mi = (case mi_ptr mi of
     Null \<Rightarrow> Inr mi
   | Freed \<Rightarrow> Inl UseAfterFree
   | Obj _ \<Rightarrow> Inr (mi\<lparr>mi_ptr := Freed\<rparr>))"

definition diag_msg_mask_exit :: "'z mask_state_scheme \<Rightarrow> 'z mask_state_scheme res" where
  "diag_msg_mask_exit s = andthen (mask_free (msg_mask s)) (\<lambda>mi. Inr (s\<lparr>msg_mask := mi\<rparr>))"

definition diag_build_time_mask_exit :: "'z mask_state_scheme \<Rightarrow> 'z mask_state_scheme res" where
  "diag_build_time_mask_exit s = andthen (mask_free (msg_bt_mask s)) (\<lambda>mi. Inr (s\<lparr>msg_bt_mask := mi\<rparr>))"

definition diag_log_mask_exit :: "'z mask_state_scheme \<Rightarrow> 'z mask_state_scheme res" where
  "diag_log_mask_exit s = andthen (mask_free (log_mask s)) (\<lambda>mi. Inr (s\<lparr>log_mask := mi\<rparr>))"

definition diag_event_mask_exit :: "'z mask_state_scheme \<Rightarrow> 'z mask_state_scheme res" where
  "diag_event_mask_exit s = andthen (mask_free (event_mask s)) (\<lambda>mi. Inr (s\<lparr>event_mask := mi\<rparr>))"

definition diag_masks_exit :: "'z mask_state_scheme \<Rightarrow> 'z mask_state_scheme res" where
  "diag_masks_exit s =
     andthen (diag_msg_mask_exit s) (\<lambda>s.
     andthen (diag_build_time_mask_exit s) (\<lambda>s.
     andthen (diag_log_mask_exit s) diag_event_mask_exit))"

definition diag_masks_init :: "'z mask_state_scheme \<Rightarrow> (int \<times> 'z mask_state_scheme) res" where
  "diag_masks_init s =
     (let fail = (\<lambda>s. andthen (diag_masks_exit s) (\<lambda>s. Inr (- ENOMEM, s))) in
      andthen (diag_msg_mask_init s) (\<lambda>(e, s). if e \<noteq> 0 then fail s else
      andthen (diag_build_time_mask_init s) (\<lambda>(e, s). if e \<noteq> 0 then fail s else
      andthen (diag_log_mask_init s) (\<lambda>(e, s). if e \<noteq> 0 then fail s else
      andthen (diag_event_mask_init s) (\<lambda>(e, s). if e \<noteq> 0 then fail s else Inr (0, s))))))"


section \<open>What a client may rely on\<close>

text \<open>
  The contract of a mask table: setting a mask that the table accepts succeeds, keeps the
  invariant, and changes exactly the addressed entry of the view that reads give.
\<close>

locale mask_table =
  fixes inv :: "'s \<Rightarrow> bool"
    and view :: "'s \<Rightarrow> 'k \<Rightarrow> 'v option"
    and accepts :: "'k \<Rightarrow> 'v \<Rightarrow> bool"
    and update :: "'k \<times> 'v \<Rightarrow> 's \<Rightarrow> 's res"
  assumes update_ok: "inv s \<Longrightarrow> accepts k v \<Longrightarrow>
    \<exists>s'. update (k, v) s = Inr s' \<and> inv s' \<and> view s' = (view s)(k \<mapsto> v)"

sublocale mask_table \<subseteq> safe_step inv "\<lambda>(k, v) s. accepts k v" update
proof (unfold_locales, goal_cases)
  case (1 s x)
  then show ?case using update_ok [of s "fst x" "snd x"] by (cases x) auto
next
  case (2 s x y s')
  then show ?case by (cases y) simp
qed

context mask_table
begin

text \<open>A sequence of settings: for each entry, the last one is in force.\<close>

lemma updates_view:
  "inv s \<Longrightarrow> \<forall>(k, v) \<in> set kvs. accepts k v \<Longrightarrow>
   \<exists>s'. fold_res update kvs s = Inr s' \<and> inv s' \<and> view s' = view s ++ map_of (rev kvs)"
proof (induction kvs arbitrary: s)
  case Nil
  then show ?case by simp
next
  case (Cons kv kvs)
  obtain k v where kv: "kv = (k, v)" by (cases kv)
  then obtain s1 where s1: "update (k, v) s = Inr s1" "inv s1" "view s1 = (view s)(k \<mapsto> v)"
    using update_ok [of s k v] Cons.prems by auto
  from Cons.IH [OF s1(2)] Cons.prems obtain s2 where
    s2: "fold_res update kvs s1 = Inr s2" "inv s2" "view s2 = view s1 ++ map_of (rev kvs)" by auto
  have "map_of (rev kvs @ [(k, v)]) = [k \<mapsto> v] ++ map_of (rev kvs)"
    by (simp add: map_of_append)
  then show ?case using s1 s2 kv by simp
qed

lemma update_same_again:
  assumes "inv s" "accepts k v" "accepts k v'"
  shows "\<exists>s'. fold_res update [(k, v), (k, v')] s = Inr s' \<and> view s' = (view s)(k \<mapsto> v')"
  using updates_view [of s "[(k, v), (k, v')]"] assms by auto

lemma updates_commute:
  assumes "inv s" "accepts k v" "accepts k' v'" "k \<noteq> k'"
  shows "\<exists>s1 s2. fold_res update [(k, v), (k', v')] s = Inr s1 \<and>
    fold_res update [(k', v'), (k, v)] s = Inr s2 \<and> view s1 = view s2"
proof -
  obtain s1 where "fold_res update [(k, v), (k', v')] s = Inr s1" "view s1 = view s ++ [k \<mapsto> v, k' \<mapsto> v']"
    using updates_view [of s "[(k, v), (k', v')]"] assms by auto
  moreover obtain s2 where "fold_res update [(k', v'), (k, v)] s = Inr s2"
    "view s2 = view s ++ [k' \<mapsto> v', k \<mapsto> v]"
    using updates_view [of s "[(k', v'), (k, v)]"] assms by auto
  ultimately show ?thesis using assms(4) fun_upd_twist [of k k' "view s"] by auto
qed

end

end
