(* ===== verification/Msg_Queue.thy ===== *)
theory Msg_Queue
  imports Hdlc Masks
begin

text \<open>
  Putting messages on queues (\<^verbatim>\<open>queue_push\<close> and its variants in \<^verbatim>\<open>diag.c\<close>, the HDLC variants in
  \<^verbatim>\<open>router.c\<close>). A message on a queue is an \<open>mbuf\<close> whose data is exactly what was pushed, in
  the encoding of the variant. The NHDLC framing is the second interpretation of the codec
  contract: it holds for messages whose length fits the 16-bit length of the header.
\<close>

record queue_state = mask_state +
  queues :: "queue_id \<Rightarrow> mbuf list"

definition enqueue :: "queue_id \<Rightarrow> mbuf \<Rightarrow> 'z queue_state_scheme \<Rightarrow> 'z queue_state_scheme" where
  "enqueue q m s = s\<lparr>queues := (queues s)(q := queues s q @ [m])\<rparr>"

section \<open>Operations\<close>

text \<open>
  A message is given as its bytes. \<^verbatim>\<open>queue_push_flow\<close> does not test what \<^verbatim>\<open>mbuf_alloc\<close>
  returns; \<^verbatim>\<open>mbuf_put\<close> then dereferences it.
\<close>

definition queue_push_flow ::
    "queue_id \<Rightarrow> u8 list \<Rightarrow> flow_id option \<Rightarrow> 'z queue_state_scheme \<Rightarrow> 'z queue_state_scheme res" where
  "queue_push_flow q msg flow s =
     (case mbuf_alloc (length msg) s of
        (None, _) \<Rightarrow> Inl NullDeref
      | (Some m, s) \<Rightarrow>
          (case mbuf_put m (of_nat (length msg)) of
             (None, _) \<Rightarrow> Inl NullDeref
           | (Some off, m) \<Rightarrow>
               andthen (store (m_data m) (unat off) msg) (\<lambda>data.
                 Inr (enqueue q (m\<lparr>m_data := data, m_flow := flow\<rparr>) (watch_flow_inc flow s)))))"

definition queue_push :: "queue_id \<Rightarrow> u8 list \<Rightarrow> 'z queue_state_scheme \<Rightarrow> 'z queue_state_scheme res" where
  "queue_push q msg s = queue_push_flow q msg None s"

definition NHDLC_CONTROL_CHAR :: u8 where "NHDLC_CONTROL_CHAR = 0x7e"

text \<open>The header of a packet: start, version and the low 16 bits of the length.\<close>

definition diag_pkt_frame :: "nat \<Rightarrow> u8 list" where
  "diag_pkt_frame n = [NHDLC_CONTROL_CHAR, 1] @ le16 (of_nat n)"

definition queue_push_nhdlc_flow ::
    "queue_id \<Rightarrow> u8 list \<Rightarrow> flow_id option \<Rightarrow> 'z queue_state_scheme \<Rightarrow> 'z queue_state_scheme res" where
  "queue_push_nhdlc_flow q msg flow s =
     (let len = length msg + 4 + 1 in
      case mbuf_alloc len s of
        (None, s) \<Rightarrow> Inr s
      | (Some m, s) \<Rightarrow>
          (case mbuf_put m (of_nat len) of
             (None, _) \<Rightarrow> Inr s
           | (Some ptr, m) \<Rightarrow>
               andthen (store (m_data m) (unat ptr) (diag_pkt_frame (length msg))) (\<lambda>data.
               andthen (store data (unat ptr + 4) msg) (\<lambda>data.
               andthen (store data (unat ptr + 4 + length msg) [NHDLC_CONTROL_CHAR]) (\<lambda>data.
                 Inr (enqueue q (m\<lparr>m_data := data, m_offset := of_nat (4 + length msg + 1), m_flow := flow\<rparr>)
                        (watch_flow_inc flow s)))))))"

definition hdlc_enqueue_flow ::
    "queue_id \<Rightarrow> u8 list \<Rightarrow> flow_id option \<Rightarrow> 'z queue_state_scheme \<Rightarrow> 'z queue_state_scheme res" where
  "hdlc_enqueue_flow q msg flow s =
     andthen (hdlc_encode msg s) (\<lambda>(out, s).
       case out of None \<Rightarrow> Inl Exited | Some bytes \<Rightarrow> queue_push_flow q bytes flow s)"

definition hdlc_enqueue :: "queue_id \<Rightarrow> u8 list \<Rightarrow> 'z queue_state_scheme \<Rightarrow> 'z queue_state_scheme res" where
  "hdlc_enqueue q msg s = hdlc_enqueue_flow q msg None s"

section \<open>What is on the queue\<close>

text \<open>The message buffer that holds exactly the given bytes.\<close>

definition mbuf_for :: "u8 list \<Rightarrow> flow_id option \<Rightarrow> mbuf" where
  "mbuf_for bs flow =
     \<lparr>m_size = of_nat (length bs), m_offset = of_nat (length bs), m_flow = flow, m_data = bs\<rparr>"

definition bump :: "nat \<Rightarrow> 'z queue_state_scheme \<Rightarrow> 'z queue_state_scheme" where
  "bump k s = s\<lparr>alloc_no := alloc_no s + k\<rparr>"

definition pushed ::
    "queue_id \<Rightarrow> u8 list \<Rightarrow> flow_id option \<Rightarrow> 'z queue_state_scheme \<Rightarrow> 'z queue_state_scheme" where
  "pushed q bs flow s = enqueue q (mbuf_for bs flow) (watch_flow_inc flow s)"

definition fits :: "u8 list \<Rightarrow> bool" where
  "fits bs \<longleftrightarrow> length bs < 2 ^ 62"

lemma queues_enqueue [simp]:
  "queues (enqueue q m s) = (queues s)(q := queues s q @ [m])"
  by (simp add: enqueue_def)

lemma queues_flow_inc [simp]: "queues (watch_flow_inc f s) = queues s"
  by (auto simp: watch_flow_inc_def split: option.splits)

lemma queues_pushed [simp]:
  "queues (pushed q bs f s) = (queues s)(q := queues s q @ [mbuf_for bs f])"
  by (simp add: pushed_def)

lemma queues_bump [simp]: "queues (bump k s) = queues s"
  by (simp add: bump_def)

lemma mem_ok_bump [simp]: "mem_ok (bump k s) = mem_ok s"
  by (simp add: bump_def mem_ok_def)

lemma mem_ok_pushed [simp]: "mem_ok (pushed q bs f s) = mem_ok s"
  by (simp add: pushed_def mem_ok_def enqueue_def)

lemma fits_unat: "fits bs \<Longrightarrow> unat (of_nat (length bs) :: u64) = length bs"
  by (simp add: fits_def unat_of_nat take_bit_nat_eq_self)

lemma length_fresh_drop [simp]: "length (drop MBUF_HDR (fresh_bytes s (MBUF_HDR + n))) = n"
  by simp

lemma queue_push_flow_ok:
  "mem_ok s \<Longrightarrow> queue_push_flow q bs f s = Inr (pushed q bs f (bump 1 s))"
  by (simp add: queue_push_flow_def mbuf_alloc_eq mbuf_put_def pushed_def mbuf_for_def bump_def
      store_ok)

text \<open>A failed allocation is a null dereference.\<close>

lemma queue_push_flow_nomem:
  "\<not> alloc_ok s (alloc_no s) \<Longrightarrow> queue_push_flow q bs f s = Inl NullDeref"
  by (simp add: queue_push_flow_def mbuf_alloc_eq)

definition nhdlc_encode_bytes :: "u8 list \<Rightarrow> u8 list" where
  "nhdlc_encode_bytes msg = diag_pkt_frame (length msg) @ msg @ [NHDLC_CONTROL_CHAR]"

lemma length_pkt_frame [simp]: "length (diag_pkt_frame n) = 4"
  by (simp add: diag_pkt_frame_def)

text \<open>The three copies fill the buffer.\<close>

lemma nhdlc_stores:
  assumes "length data = length msg + 5"
  shows "andthen (store data 0 (diag_pkt_frame (length msg))) (\<lambda>data.
         andthen (store data 4 msg) (\<lambda>data.
         store data (4 + length msg) [NHDLC_CONTROL_CHAR])) = Inr (nhdlc_encode_bytes msg)"
proof -
  let ?h = "diag_pkt_frame (length msg)"
  have "store data 0 ?h = Inr (?h @ drop 4 data)" using assms by (simp add: store_ok)
  moreover have "store (?h @ drop 4 data) 4 msg = Inr (?h @ msg @ drop (4 + length msg) data)"
    using assms by (simp add: store_ok add.commute)
  moreover have "store (?h @ msg @ drop (4 + length msg) data) (4 + length msg) [NHDLC_CONTROL_CHAR] =
      Inr (?h @ msg @ [NHDLC_CONTROL_CHAR])"
    using assms by (simp add: store_ok)
  ultimately show ?thesis by (simp add: nhdlc_encode_bytes_def)
qed

lemma queue_push_nhdlc_flow_ok:
  assumes "mem_ok s"
  shows "queue_push_nhdlc_flow q msg f s = Inr (pushed q (nhdlc_encode_bytes msg) f (bump 1 s))"
proof -
  let ?data = "drop MBUF_HDR (fresh_bytes s (MBUF_HDR + (length msg + 5)))"
  have chain: "andthen (store ?data 0 (diag_pkt_frame (length msg))) (\<lambda>data.
      andthen (store data 4 msg) (\<lambda>data.
      andthen (store data (4 + length msg) [NHDLC_CONTROL_CHAR]) k)) = k (nhdlc_encode_bytes msg)" for k :: "u8 list \<Rightarrow> 'x res"
    using arg_cong [OF nhdlc_stores [of ?data msg], of "\<lambda>r. andthen r k"] by (simp add: andthen_assoc)
  show ?thesis
    using assms chain
    by (simp add: queue_push_nhdlc_flow_def mbuf_alloc_eq mbuf_put_def pushed_def mbuf_for_def bump_def
        nhdlc_encode_bytes_def add.commute)
qed

lemma hdlc_enqueue_flow_ok:
  "mem_ok s \<Longrightarrow> hdlc_enqueue_flow q msg f s = Inr (pushed q (hdlc_encode_bytes msg) f (bump 2 s))"
  by (simp add: hdlc_enqueue_flow_def hdlc_encode_spec queue_push_flow_ok bump_def)

section \<open>The NHDLC frame\<close>

text \<open>The receiving side of the format: what \<^verbatim>\<open>dm_check_nhdlc_pkt\<close> tests, on a list of bytes.\<close>

definition nhdlc_take_frame :: "u8 list \<Rightarrow> (u8 list \<times> u8 list) option" where
  "nhdlc_take_frame bs =
     (case bs of
        start # _ # l0 # l1 # data \<Rightarrow>
          let n = unat (u16_of l0 l1) in
          if start = NHDLC_CONTROL_CHAR \<and> n < length data \<and> data ! n = NHDLC_CONTROL_CHAR
          then Some (take n data, drop (n + 1) data) else None
      | _ \<Rightarrow> None)"

interpretation nhdlc_frames: frame_codec nhdlc_encode_bytes nhdlc_take_frame "\<lambda>m. length m < 65536"
proof unfold_locales
  fix m rest :: "u8 list"
  assume "length m < 65536"
  then have "unat (of_nat (length m) :: u16) = length m"
    by (simp add: unat_of_nat take_bit_nat_eq_self)
  then show "nhdlc_take_frame (nhdlc_encode_bytes m @ rest) = Some (m, rest)"
    by (simp add: nhdlc_take_frame_def nhdlc_encode_bytes_def diag_pkt_frame_def le16_def u16_of_le16 nth_append)
qed

end
