(* ===== verification/Dm.thy ===== *)
theory Dm
  imports Msg_Queue
begin

text \<open>
  The diagnostic monitors (\<^verbatim>\<open>dm.c\<close>): the clients the router serves, and sending to one or all
  of them. A client is known by its position in the list of clients, which only grows, so
  that its position is a name for its object. What is proved is that a message reaches
  exactly the enabled clients, once each and in the encoding of each, and that the flow
  control count of its sender grows by the number of copies queued.
\<close>

definition DIAG_ENCODE_RAW :: int where "DIAG_ENCODE_RAW = 1"
definition DIAG_ENCODE_HDLC :: int where "DIAG_ENCODE_HDLC = 2"
definition DIAG_ENCODE_NHDLC :: int where "DIAG_ENCODE_NHDLC = 3"

lemmas encode_type_defs = DIAG_ENCODE_RAW_def DIAG_ENCODE_HDLC_def DIAG_ENCODE_NHDLC_def

text \<open>The members \<^verbatim>\<open>fd\<close> and \<^verbatim>\<open>recv_decoder\<close> of the code's structure are never used.\<close>

record diag_client =
  cl_name :: string
  cl_in_fd :: int
  cl_out_fd :: int
  cl_encode_type :: int
  cl_hdlc_reset :: bool
  cl_enabled :: bool
  cl_recv_buf :: circ_buf

record dm_state = queue_state +
  clients :: "diag_client list"
  bad_cmd_counter :: u32

definition CLIENT_SIZE :: nat where "CLIENT_SIZE = 49304"

definition set_client :: "client_id \<Rightarrow> (diag_client \<Rightarrow> diag_client) \<Rightarrow> 'z dm_state_scheme \<Rightarrow> 'z dm_state_scheme" where
  "set_client c f s = s\<lparr>clients := (clients s)[c := f (clients s ! c)]\<rparr>"

section \<open>Operations\<close>

definition dm_add ::
    "string \<Rightarrow> int \<Rightarrow> int \<Rightarrow> bool \<Rightarrow> 'z dm_state_scheme \<Rightarrow> (client_id \<times> 'z dm_state_scheme) res" where
  "dm_add name in_fd out_fd is_encoded s =
     andthen (calloc_or_exit CLIENT_SIZE s) (\<lambda>s.
     let c = length (clients s);
         dm = \<lparr>cl_name = name, cl_in_fd = in_fd, cl_out_fd = out_fd,
               cl_encode_type = (if is_encoded then DIAG_ENCODE_HDLC else DIAG_ENCODE_RAW),
               cl_hdlc_reset = False, cl_enabled = False, cl_recv_buf = circ_empty\<rparr>;
         s = s\<lparr>queues := (queues s)(ClientOutq c := [])\<rparr>
     in andthen (if in_fd \<ge> 0 then watch_add_readfd in_fd (CbDmRecv c) None s else Inr s) (\<lambda>s.
        andthen (watch_add_writeq out_fd (ClientOutq c) s) (\<lambda>s.
          Inr (c, s\<lparr>clients := clients s @ [dm]\<rparr>))))"

text \<open>A null pointer passes the test of \<^verbatim>\<open>enabled\<close> and is dereferenced after it.\<close>

definition dm_send_flow ::
    "client_id option \<Rightarrow> u8 list \<Rightarrow> flow_id option \<Rightarrow> 'z dm_state_scheme \<Rightarrow> (int \<times> 'z dm_state_scheme) res" where
  "dm_send_flow dm msg flow s =
     (case dm of
        None \<Rightarrow> Inl NullDeref
      | Some c \<Rightarrow>
          andthen (arr_read (clients s) c) (\<lambda>cl.
          if \<not> cl_enabled cl then Inr (0, s)
          else if cl_encode_type cl = DIAG_ENCODE_RAW then
            andthen (queue_push_flow (ClientOutq c) msg flow s) (\<lambda>s. Inr (0, s))
          else if cl_encode_type cl = DIAG_ENCODE_HDLC then
            andthen (hdlc_enqueue_flow (ClientOutq c) msg flow s) (\<lambda>s. Inr (0, s))
          else if cl_encode_type cl = DIAG_ENCODE_NHDLC then
            andthen (queue_push_nhdlc_flow (ClientOutq c) msg flow s) (\<lambda>s. Inr (0, s))
          else Inr (- EINVAL, s)))"

definition dm_send :: "client_id option \<Rightarrow> u8 list \<Rightarrow> 'z dm_state_scheme \<Rightarrow> (int \<times> 'z dm_state_scheme) res" where
  "dm_send dm msg s = dm_send_flow dm msg None s"

definition dm_broadcast ::
    "u8 list \<Rightarrow> flow_id option \<Rightarrow> 'z dm_state_scheme \<Rightarrow> 'z dm_state_scheme res" where
  "dm_broadcast msg flow s =
     fold_res (\<lambda>c s. andthen (dm_send_flow (Some c) msg flow s) (\<lambda>(_, s). Inr s)) [0..<length (clients s)] s"

definition dm_enable :: "client_id \<Rightarrow> 'z dm_state_scheme \<Rightarrow> 'z dm_state_scheme" where
  "dm_enable c s = set_client c (\<lambda>cl. cl\<lparr>cl_enabled := True\<rparr>) s"

definition dm_disable :: "client_id \<Rightarrow> 'z dm_state_scheme \<Rightarrow> 'z dm_state_scheme" where
  "dm_disable c s = set_client c (\<lambda>cl. cl\<lparr>cl_enabled := False\<rparr>) s"

definition set_encode_type :: "int \<Rightarrow> 'z dm_state_scheme \<Rightarrow> 'z dm_state_scheme" where
  "set_encode_type ty s =
     s\<lparr>clients := map (\<lambda>cl. if cl_encode_type cl = DIAG_ENCODE_RAW then cl else cl\<lparr>cl_encode_type := ty\<rparr>) (clients s)\<rparr>"

section \<open>What a client receives\<close>

text \<open>The encoding of a message for a client, and the number of allocations it takes.\<close>

definition client_encode :: "diag_client \<Rightarrow> u8 list \<Rightarrow> u8 list" where
  "client_encode cl msg =
     (if cl_encode_type cl = DIAG_ENCODE_RAW then msg
      else if cl_encode_type cl = DIAG_ENCODE_HDLC then hdlc_encode_bytes msg
      else nhdlc_encode_bytes msg)"

definition client_cost :: "diag_client \<Rightarrow> nat" where
  "client_cost cl = (if cl_encode_type cl = DIAG_ENCODE_HDLC then 2 else 1)"

definition client_wf :: "diag_client \<Rightarrow> bool" where
  "client_wf cl \<longleftrightarrow> cl_encode_type cl \<in> {DIAG_ENCODE_RAW, DIAG_ENCODE_HDLC, DIAG_ENCODE_NHDLC}"

definition dm_wf :: "'z dm_state_scheme \<Rightarrow> bool" where
  "dm_wf s \<longleftrightarrow> mem_ok s \<and> (\<forall>cl \<in> set (clients s). client_wf cl)"

lemma clients_frame [simp]:
  "clients (pushed q bs f s) = clients s" "clients (bump k s) = clients s"
  by (auto simp: pushed_def enqueue_def bump_def watch_flow_inc_def split: option.splits)

lemma dm_wf_frame [simp]:
  "dm_wf (pushed q bs f s) = dm_wf s" "dm_wf (bump k s) = dm_wf s"
  by (simp_all add: dm_wf_def)

lemma dm_wf_client: "dm_wf s \<Longrightarrow> c < length (clients s) \<Longrightarrow> client_wf (clients s ! c)"
  by (simp add: dm_wf_def)

text \<open>Sending to a client: nothing when it is disabled, else one message on its queue.\<close>

lemma dm_send_flow_ok:
  assumes wf: "dm_wf s" and c: "c < length (clients s)"
  shows "dm_send_flow (Some c) msg flow s =
    Inr (0, if cl_enabled (clients s ! c)
            then pushed (ClientOutq c) (client_encode (clients s ! c) msg) flow (bump (client_cost (clients s ! c)) s)
            else s)"
proof -
  have "mem_ok s" using wf by (simp add: dm_wf_def)
  moreover have "client_wf (clients s ! c)" by (rule dm_wf_client [OF wf c])
  ultimately show ?thesis
    using c
    by (auto simp: dm_send_flow_def arr_read_def client_wf_def client_encode_def client_cost_def
        encode_type_defs queue_push_flow_ok hdlc_enqueue_flow_ok queue_push_nhdlc_flow_ok)
qed

lemma dm_send_flow_wf:
  assumes "dm_wf s" and "c < length (clients s)"
  obtains s' where "dm_send_flow (Some c) msg flow s = Inr (0, s')" "dm_wf s'" "clients s' = clients s"
  using dm_send_flow_ok [OF assms, of msg flow] assms(1) by (auto split: if_splits)

text \<open>The queues after a broadcast, and the count of the sender's flow.\<close>

definition delivered :: "diag_client list \<Rightarrow> u8 list \<Rightarrow> flow_id option \<Rightarrow> nat list \<Rightarrow> queue_id \<Rightarrow> mbuf list" where
  "delivered cls msg flow cs q =
     (case q of
        ClientOutq c \<Rightarrow> if c \<in> set cs \<and> cl_enabled (cls ! c) then [mbuf_for (client_encode (cls ! c) msg) flow] else []
      | _ \<Rightarrow> [])"

definition copies :: "diag_client list \<Rightarrow> nat list \<Rightarrow> nat" where
  "copies cls cs = length (filter (\<lambda>c. cl_enabled (cls ! c)) cs)"

lemma flows_pushed [simp]:
  "flows (pushed q bs f s) = (case f of None \<Rightarrow> flows s | Some x \<Rightarrow> (flows s)(x := flows s x + 1))"
  by (auto simp: pushed_def enqueue_def watch_flow_inc_def split: option.splits)

lemma flows_bump [simp]: "flows (bump k s) = flows s"
  by (simp add: bump_def)

definition broadcast_over ::
    "u8 list \<Rightarrow> flow_id option \<Rightarrow> nat list \<Rightarrow> 'z dm_state_scheme \<Rightarrow> 'z dm_state_scheme res" where
  "broadcast_over msg flow cs s =
     fold_res (\<lambda>c s. andthen (dm_send_flow (Some c) msg flow s) (\<lambda>(_, s). Inr s)) cs s"

lemma broadcast_over_ok:
  "dm_wf s \<Longrightarrow> distinct cs \<Longrightarrow> \<forall>c \<in> set cs. c < length (clients s) \<Longrightarrow>
   \<exists>s'. broadcast_over msg flow cs s = Inr s' \<and> dm_wf s' \<and> clients s' = clients s \<and>
     (\<forall>q. queues s' q = queues s q @ delivered (clients s) msg flow cs q) \<and>
     (\<forall>f. flows s' f = flows s f + (if flow = Some f then int (copies (clients s) cs) else 0))"
proof (induction cs arbitrary: s)
  case Nil
  then show ?case by (auto simp: broadcast_over_def delivered_def copies_def split: queue_id.splits)
next
  case (Cons c cs)
  then have c: "c < length (clients s)" by simp
  let ?s = "if cl_enabled (clients s ! c)
            then pushed (ClientOutq c) (client_encode (clients s ! c) msg) flow (bump (client_cost (clients s ! c)) s)
            else s"
  have s: "dm_wf ?s" "clients ?s = clients s" using Cons.prems(1) by auto
  obtain s' where s': "broadcast_over msg flow cs ?s = Inr s'" "dm_wf s'" "clients s' = clients s"
    "\<forall>q. queues s' q = queues ?s q @ delivered (clients s) msg flow cs q"
    "\<forall>f. flows s' f = flows ?s f + (if flow = Some f then int (copies (clients s) cs) else 0)"
    using Cons.IH [OF s(1)] Cons.prems s(2) by auto
  have "broadcast_over msg flow (c # cs) s = Inr s'"
    using s'(1) dm_send_flow_ok [OF Cons.prems(1) c, of msg flow] by (simp add: broadcast_over_def)
  moreover have "queues s' q = queues s q @ delivered (clients s) msg flow (c # cs) q" for q
    using s'(4) Cons.prems(2) by (auto simp: delivered_def split: queue_id.splits)
  moreover have "flows s' f = flows s f + (if flow = Some f then int (copies (clients s) (c # cs)) else 0)" for f
    using s'(5) by (auto simp: copies_def split: option.splits)
  ultimately show ?case using s'(2,3) by blast
qed

lemma dm_broadcast_ok:
  assumes "dm_wf s"
  shows "\<exists>s'. dm_broadcast msg flow s = Inr s' \<and> dm_wf s' \<and> clients s' = clients s \<and>
     (\<forall>q. queues s' q = queues s q @ delivered (clients s) msg flow [0..<length (clients s)] q) \<and>
     (\<forall>f. flows s' f = flows s f +
        (if flow = Some f then int (copies (clients s) [0..<length (clients s)]) else 0))"
  using broadcast_over_ok [OF assms, of "[0..<length (clients s)]" msg flow]
  by (simp add: dm_broadcast_def broadcast_over_def)

text \<open>The loop over the clients as an instance of the contract for loops.\<close>

interpretation dm_loop: safe_step dm_wf "\<lambda>(c, _) s. c < length (clients s)"
    "\<lambda>(c, msg) s. andthen (dm_send_flow (Some c) msg None s) (\<lambda>(_, s). Inr s)"
proof (unfold_locales, goal_cases)
  case (1 s x)
  obtain c msg where x: "x = (c, msg)" by (cases x)
  with 1 obtain s' where "dm_send_flow (Some c) msg None s = Inr (0, s')" "dm_wf s'"
    by (auto elim: dm_send_flow_wf)
  with x show ?case by simp
next
  case (2 s x y s')
  obtain c msg where x: "x = (c, msg)" by (cases x)
  with 2 obtain s1 where "dm_send_flow (Some c) msg None s = Inr (0, s1)" "clients s1 = clients s"
    by (auto elim: dm_send_flow_wf)
  with x 2 show ?case by (cases y) simp
qed

section \<open>Adding and configuring clients\<close>

lemma watch_add_frame [simp]:
  "watch_add_readfd fd cb f s = Inr s' \<Longrightarrow> clients s' = clients s \<and> queues s' = queues s"
  "watch_add_writeq fd q s = Inr s' \<Longrightarrow> clients s' = clients s \<and> queues s' = queues s"
  by (auto simp: watch_add_readfd_def watch_add_writeq_def calloc_or_exit_def malloc_def andthen_eq_Inr
      split: if_splits)

lemma calloc_ok: "mem_ok s \<Longrightarrow> calloc_or_exit n s = Inr (s\<lparr>alloc_no := Suc (alloc_no s)\<rparr>)"
  by (simp add: calloc_or_exit_def malloc_ok)

text \<open>A new client is disabled, with an empty queue that its write watch serves.\<close>

lemma dm_add_ok:
  assumes "dm_wf s"
  shows "\<exists>s'. dm_add name in_fd out_fd enc s = Inr (length (clients s), s') \<and> dm_wf s' \<and>
    (\<exists>cl. clients s' = clients s @ [cl] \<and> \<not> cl_enabled cl \<and> contents (cl_recv_buf cl) = []) \<and>
    queues s' = (queues s)(ClientOutq (length (clients s)) := []) \<and>
    (\<exists>w. aio_watches s' = aio_watches s @ [w] \<and> w_fd w = out_fd \<and>
       w_queue w = Some (ClientOutq (length (clients s))) \<and> w_is_write w) \<and>
    read_watches s' = read_watches s @
      (if in_fd \<ge> 0 then [watch_zero\<lparr>w_addr := Suc (alloc_no s), w_fd := in_fd, w_cb := Some (CbDmRecv (length (clients s)))\<rparr>] else [])"
proof -
  have "mem_ok s" using assms by (simp add: dm_wf_def)
  then have ok: "mem_ok (s\<lparr>alloc_no := k\<rparr>)" "mem_ok (s\<lparr>alloc_no := k, queues := q\<rparr>)"
      "mem_ok (s\<lparr>alloc_no := k, queues := q, read_watches := w\<rparr>)" for k q w
    by (simp_all add: mem_ok_def)
  show ?thesis
    using assms ok \<open>mem_ok s\<close>
    by (auto simp: dm_add_def calloc_ok watch_add_readfd_def watch_add_writeq_def Let_def dm_wf_def
        client_wf_def mem_ok_def watch_zero_def)
qed

lemma set_encode_type_wf:
  "dm_wf s \<Longrightarrow> ty \<in> {DIAG_ENCODE_RAW, DIAG_ENCODE_HDLC, DIAG_ENCODE_NHDLC} \<Longrightarrow> dm_wf (set_encode_type ty s)"
  by (auto simp: dm_wf_def set_encode_type_def client_wf_def mem_ok_def)

lemma set_encode_type_raw:
  "c < length (clients s) \<Longrightarrow>
   cl_encode_type (clients (set_encode_type ty s) ! c) =
     (if cl_encode_type (clients s ! c) = DIAG_ENCODE_RAW then DIAG_ENCODE_RAW else ty)"
  by (simp add: set_encode_type_def)

end
