(* ===== verification/Log_Masks.thy ===== *)
theory Log_Masks
  imports Masks
begin

text \<open>
  The log mask operations of \<^verbatim>\<open>masks.c\<close>: reset, ranges, and setting and reading the mask of
  one equipment id. Under the invariant established by the initialisation the buffer of
  every equipment id is large enough for the largest mask the protocol allows, so the
  reallocation in \<open>diag_cmd_set_log_mask\<close> is never taken and no copy leaves its buffer;
  a mask that was set is read back, and the other ids keep theirs.
\<close>

section \<open>Operations\<close>

definition diag_get_log_mask_status :: "'z mask_state_scheme \<Rightarrow> u8" where
  "diag_get_log_mask_status s = mi_status (log_mask s)"

definition set_log_table :: "log_mask_t list \<Rightarrow> 'z mask_state_scheme \<Rightarrow> 'z mask_state_scheme" where
  "set_log_table tbl s = s\<lparr>log_mask := (log_mask s)\<lparr>mi_ptr := Obj tbl\<rparr>\<rparr>"

definition set_log_status :: "u8 \<Rightarrow> 'z mask_state_scheme \<Rightarrow> 'z mask_state_scheme" where
  "set_log_status st s = s\<lparr>log_mask := (log_mask s)\<lparr>mi_status := st\<rparr>\<rparr>"

fun disable_log_items :: "log_mask_t list \<Rightarrow> log_mask_t list res" where
  "disable_log_items [] = Inr []"
| "disable_log_items (m # ms) =
     andthen (deref (lm_ptr m)) (\<lambda>p.
     andthen (fill p 0 (unat (lm_range m))) (\<lambda>p'.
     andthen (disable_log_items ms) (\<lambda>ms'. Inr (m\<lparr>lm_ptr := Obj p'\<rparr> # ms'))))"

definition diag_cmd_disable_log :: "'z mask_state_scheme \<Rightarrow> 'z mask_state_scheme res" where
  "diag_cmd_disable_log s =
     andthen (deref (mi_ptr (log_mask s))) (\<lambda>tbl.
     andthen (disable_log_items tbl) (\<lambda>tbl'.
       Inr (set_log_status DIAG_CTRL_MASK_ALL_DISABLED (set_log_table tbl' s))))"

definition diag_cmd_get_log_range :: "nat \<Rightarrow> 'z mask_state_scheme \<Rightarrow> u32 list res" where
  "diag_cmd_get_log_range count s =
     andthen (deref (mi_ptr (log_mask s))) (\<lambda>tbl.
     andthen (load tbl (min MAX_EQUIP_ID count)) (\<lambda>items. Inr (map lm_num_items_tools items)))"

text \<open>
  The results are the return value and the values left in \<open>*num_items\<close> and \<open>*mask_size\<close>;
  \<open>bits_ptr\<close> points into the request.
\<close>

definition diag_cmd_set_log_mask ::
    "u8 \<Rightarrow> u32 \<Rightarrow> mem \<Rightarrow> u32 \<Rightarrow> 'z mask_state_scheme \<Rightarrow> (int \<times> u32 \<times> u32 \<times> 'z mask_state_scheme) res" where
  "diag_cmd_set_log_mask equip_id num_items bits_ptr mask_size s =
     andthen (deref (mi_ptr (log_mask s))) (\<lambda>tbl.
     case first_index (\<lambda>m. lm_equip_id m = equip_id) tbl of
       None \<Rightarrow> Inr (1, num_items, mask_size, s)
     | Some i \<Rightarrow>
         let item = tbl ! i;
             tools = (if num_items < MAX_ITEMS_ALLOWED then num_items else MAX_ITEMS_ALLOWED);
             size = bits_to_bytes32 tools;
             item = item\<lparr>lm_num_items_tools := tools\<rparr>
         in andthen (deref (lm_ptr item)) (\<lambda>p.
            andthen (fill p 0 (unat (lm_range_tools item))) (\<lambda>p.
            let item = item\<lparr>lm_ptr := Obj p\<rparr> in
            if size > lm_range_tools item then
              (case realloc p (unat size) s of
                 (None, s) \<Rightarrow>
                   Inr (- ENOMEM, num_items, size,
                        set_log_status DIAG_CTRL_MASK_INVALID (set_log_table (tbl[i := item]) s))
               | (Some p, s) \<Rightarrow>
                   andthen (fill p 0 (unat size)) (\<lambda>p.
                   andthen (rd_bytes bits_ptr 0 (unat size)) (\<lambda>bits.
                   andthen (store p 0 bits) (\<lambda>p.
                     Inr (0, tools, size,
                       set_log_status DIAG_CTRL_MASK_VALID
                         (set_log_table (tbl[i := item\<lparr>lm_range_tools := size, lm_ptr := Obj p\<rparr>]) s))))))
            else
              andthen (rd_bytes bits_ptr 0 (unat size)) (\<lambda>bits.
              andthen (store p 0 bits) (\<lambda>p.
                Inr (0, tools, size,
                  set_log_status DIAG_CTRL_MASK_VALID
                    (set_log_table (tbl[i := item\<lparr>lm_ptr := Obj p\<rparr>]) s)))))))"

text \<open>
  The arguments \<open>num_items\<close>, \<open>bits_out\<close> and \<open>mask_size\<close> are what the caller's variables hold;
  they are returned unchanged when no equipment id matches.
\<close>

definition diag_cmd_get_log_mask ::
    "u32 \<Rightarrow> u32 \<Rightarrow> u8 list option \<Rightarrow> u32 \<Rightarrow> 'z mask_state_scheme \<Rightarrow>
     (int \<times> u32 \<times> u8 list option \<times> u32 \<times> 'z mask_state_scheme) res" where
  "diag_cmd_get_log_mask equip_id num_items bits_out mask_size s =
     andthen (deref (mi_ptr (log_mask s))) (\<lambda>tbl.
     case first_index (\<lambda>m. ucast (lm_equip_id m) = equip_id) tbl of
       None \<Rightarrow> Inr (1, num_items, bits_out, mask_size, s)
     | Some i \<Rightarrow>
         let item = tbl ! i; size = bits_to_bytes32 (lm_num_items_tools item) in
         (case malloc (unat size) s of
            (None, s) \<Rightarrow> Inr (- ENOMEM, lm_num_items_tools item, None, size, s)
          | (Some _, s) \<Rightarrow>
              andthen (deref (lm_ptr item)) (\<lambda>p.
              andthen (load p (unat size)) (\<lambda>bits.
                Inr (0, lm_num_items_tools item, Some bits, size, s)))))"

section \<open>The invariant\<close>

definition log_item_wf :: "nat \<Rightarrow> log_mask_t \<Rightarrow> bool" where
  "log_item_wf i m \<longleftrightarrow> lm_equip_id m = of_nat i \<and> lm_range m = 512 \<and> lm_range_tools m = 512 \<and>
     lm_num_items_tools m \<le> MAX_ITEMS_ALLOWED \<and> (\<exists>p. lm_ptr m = Obj p \<and> length p = 512)"

definition log_table_wf :: "log_mask_t list \<Rightarrow> bool" where
  "log_table_wf tbl \<longleftrightarrow> length tbl = MAX_EQUIP_ID \<and> (\<forall>i < MAX_EQUIP_ID. log_item_wf i (tbl ! i))"

definition log_masks_wf :: "'z mask_state_scheme \<Rightarrow> bool" where
  "log_masks_wf s \<longleftrightarrow> (\<exists>tbl. mi_ptr (log_mask s) = Obj tbl \<and> log_table_wf tbl)"

text \<open>The mask in force for an equipment id: how many items, and their bits.\<close>

definition log_entry :: "log_mask_t \<Rightarrow> (u32 \<times> u8 list) option" where
  "log_entry m =
     (case lm_ptr m of
        Obj p \<Rightarrow> Some (lm_num_items_tools m, take (unat (bits_to_bytes32 (lm_num_items_tools m))) p)
      | _ \<Rightarrow> None)"

definition log_view :: "'z mask_state_scheme \<Rightarrow> nat \<Rightarrow> (u32 \<times> u8 list) option" where
  "log_view s i =
     (case mi_ptr (log_mask s) of
        Obj tbl \<Rightarrow> if i < length tbl then log_entry (tbl ! i) else None
      | _ \<Rightarrow> None)"

lemma log_size_le:
  assumes "n \<le> MAX_ITEMS_ALLOWED"
  shows "unat (bits_to_bytes32 n) = (unat n + 7) div 8 \<and> unat (bits_to_bytes32 n) \<le> 512"
proof -
  have n: "unat n \<le> 4095" using assms by (simp add: MAX_ITEMS_ALLOWED_def word_le_nat_alt)
  then have "unat (bits_to_bytes32 n) = (unat n + 7) div 8" by (intro unat_bits_to_bytes32) simp
  with n show ?thesis by simp
qed

lemma log_index:
  assumes "log_table_wf tbl"
  shows "first_index (\<lambda>m. lm_equip_id m = e) tbl = (if unat e < MAX_EQUIP_ID then Some (unat e) else None)"
proof (cases "unat e < MAX_EQUIP_ID")
  case True
  have "first_index (\<lambda>m. lm_equip_id m = e) tbl = Some (unat e)"
  proof (rule first_index_unique)
    show "lm_equip_id (tbl ! unat e) = e"
      using assms True by (simp add: log_table_wf_def log_item_wf_def)
    show "lm_equip_id (tbl ! j) \<noteq> e" if "j < unat e" for j
    proof
      assume "lm_equip_id (tbl ! j) = e"
      then have "e = of_nat j" using assms that True by (auto simp: log_table_wf_def log_item_wf_def)
      then have "unat e = j" using that True by (simp add: unat_of_nat MAX_EQUIP_ID_def)
      with that show False by simp
    qed
  qed (use assms True in \<open>simp_all add: log_table_wf_def\<close>)
  with True show ?thesis by simp
next
  case False
  have "lm_equip_id m \<noteq> e" if "m \<in> set tbl" for m
  proof
    assume e: "lm_equip_id m = e"
    from that obtain i where "i < MAX_EQUIP_ID" "m = tbl ! i"
      using assms by (auto simp: in_set_conv_nth log_table_wf_def)
    with e assms have "e = of_nat i" by (auto simp: log_table_wf_def log_item_wf_def)
    with \<open>i < MAX_EQUIP_ID\<close> False show False by (simp add: unat_of_nat MAX_EQUIP_ID_def)
  qed
  with False show ?thesis by (simp add: first_index_None)
qed


lemma log_status_table [simp]:
  "mi_ptr (log_mask (set_log_status st s)) = mi_ptr (log_mask s)"
  "mi_status (log_mask (set_log_status st s)) = st"
  "mi_ptr (log_mask (set_log_table tbl s)) = Obj tbl"
  by (simp_all add: set_log_status_def set_log_table_def)

lemma log_table_wf_update:
  "log_table_wf tbl \<Longrightarrow> i < MAX_EQUIP_ID \<Longrightarrow> log_item_wf i m \<Longrightarrow> log_table_wf (tbl[i := m])"
  by (auto simp: log_table_wf_def nth_list_update)

section \<open>Setting and reading\<close>

lemma set_log_mask_unknown:
  assumes "log_masks_wf s" and "\<not> unat e < MAX_EQUIP_ID"
  shows "diag_cmd_set_log_mask e n p sz s = Inr (1, n, sz, s)"
  using assms by (auto simp: log_masks_wf_def diag_cmd_set_log_mask_def log_index)

text \<open>The number of items after the cap, and the bytes it takes.\<close>

definition log_capped :: "u32 \<Rightarrow> u32" where
  "log_capped n = (if n < MAX_ITEMS_ALLOWED then n else MAX_ITEMS_ALLOWED)"

lemma log_capped_le: "log_capped n \<le> MAX_ITEMS_ALLOWED"
  by (auto simp: log_capped_def)

lemma set_log_mask_ok:
  assumes wf: "log_masks_wf s" and e: "unat e < MAX_EQUIP_ID"
    and req: "rd_bytes p 0 (unat (bits_to_bytes32 (log_capped n))) = Inr bits"
  shows "\<exists>s'. diag_cmd_set_log_mask e n p sz s =
      Inr (0, log_capped n, bits_to_bytes32 (log_capped n), s') \<and> log_masks_wf s' \<and>
    diag_get_log_mask_status s' = DIAG_CTRL_MASK_VALID \<and>
    log_view s' = (log_view s)(unat e \<mapsto> (log_capped n, bits)) \<and>
    heap.truncate s' = heap.truncate s"
proof -
  let ?size = "bits_to_bytes32 (log_capped n)"
  from wf obtain tbl where tbl: "mi_ptr (log_mask s) = Obj tbl" "log_table_wf tbl"
    by (auto simp: log_masks_wf_def)
  let ?m = "tbl ! unat e"
  from tbl e obtain q where q: "lm_ptr ?m = Obj q" "length q = 512" "lm_range_tools ?m = 512"
      "lm_range ?m = 512" "lm_equip_id ?m = of_nat (unat e)"
    by (auto simp: log_table_wf_def log_item_wf_def)
  have size: "unat ?size \<le> 512" using log_size_le [OF log_capped_le] by blast
  have len: "length bits = unat ?size" using req by (rule rd_bytes_Inr)
  let ?z = "replicate 512 0"
  let ?q = "bits @ drop (length bits) ?z"
  have fill: "fill q 0 512 = Inr ?z" using q(2) by (simp add: fill_ok)
  have store: "store ?z 0 bits = Inr ?q" using size len by (simp add: store_ok)
  let ?m' = "?m\<lparr>lm_num_items_tools := log_capped n, lm_ptr := Obj ?q\<rparr>"
  let ?s' = "set_log_status DIAG_CTRL_MASK_VALID (set_log_table (tbl[unat e := ?m']) s)"
  have wf': "log_item_wf (unat e) ?m'"
    using q size len by (simp add: log_item_wf_def log_capped_le)
  have "\<not> ?size > 512" using size by (simp add: word_less_nat_alt)
  then have "diag_cmd_set_log_mask e n p sz s = Inr (0, log_capped n, ?size, ?s')"
    using tbl e q fill req store
    by (simp add: diag_cmd_set_log_mask_def log_index Let_def flip: log_capped_def)
  moreover have "log_masks_wf ?s'"
    using log_table_wf_update [OF tbl(2) e wf'] by (simp add: log_masks_wf_def)
  moreover have "log_view ?s' = (log_view s)(unat e \<mapsto> (log_capped n, bits))"
    using tbl e len by (auto simp: log_view_def log_table_wf_def fun_eq_iff log_entry_def nth_list_update)
  moreover have "diag_get_log_mask_status ?s' = DIAG_CTRL_MASK_VALID"
    by (simp add: diag_get_log_mask_status_def)
  moreover have "heap.truncate ?s' = heap.truncate s"
    by (simp add: heap.truncate_def set_log_status_def set_log_table_def)
  ultimately show ?thesis by blast
qed

lemma get_log_mask_ok:
  assumes wf: "log_masks_wf s" and ok: "mem_ok s" and e: "unat e < MAX_EQUIP_ID"
  shows "\<exists>n bits. log_view s (unat e) = Some (n, bits) \<and>
    diag_cmd_get_log_mask e n0 p0 z0 s =
      Inr (0, n, Some bits, bits_to_bytes32 n, s\<lparr>alloc_no := Suc (alloc_no s)\<rparr>) \<and>
    length bits = unat (bits_to_bytes32 n)"
proof -
  from wf obtain tbl where tbl: "mi_ptr (log_mask s) = Obj tbl" "log_table_wf tbl"
    by (auto simp: log_masks_wf_def)
  let ?m = "tbl ! unat e" and ?e = "ucast e :: u8"
  have e': "unat ?e = unat e" using e by (simp add: unsigned_ucast_eq take_bit_nat_eq_self MAX_EQUIP_ID_def)
  have "(ucast (lm_equip_id m) = e) = (lm_equip_id m = ?e)" if "m \<in> set tbl" for m
  proof
    assume "ucast (lm_equip_id m) = e"
    then have "?e = ucast (ucast (lm_equip_id m) :: u32)" by simp
    also have "\<dots> = lm_equip_id m" by (rule bit_word_eqI) (simp add: bit_simps)
    finally show "lm_equip_id m = ?e" by (rule sym)
  next
    assume "lm_equip_id m = ?e"
    then show "ucast (lm_equip_id m) = e"
      using e by (simp add: word_unat_eq_iff unsigned_ucast_eq take_bit_nat_eq_self MAX_EQUIP_ID_def)
  qed
  then have "first_index (\<lambda>m. ucast (lm_equip_id m) = e) tbl = first_index (\<lambda>m. lm_equip_id m = ?e) tbl"
    by (induction tbl) auto
  also have "\<dots> = Some (unat e)" using log_index [OF tbl(2), of ?e] e e' by simp
  finally have idx: "first_index (\<lambda>m. ucast (lm_equip_id m) = e) tbl = Some (unat e)" .
  from tbl e obtain q where q: "lm_ptr ?m = Obj q" "length q = 512" "lm_num_items_tools ?m \<le> MAX_ITEMS_ALLOWED"
    by (auto simp: log_table_wf_def log_item_wf_def)
  have "unat (bits_to_bytes32 (lm_num_items_tools ?m)) \<le> length q"
    using log_size_le [OF q(3)] q(2) by simp
  then show ?thesis
    using tbl idx q ok e by (simp add: diag_cmd_get_log_mask_def malloc_ok Let_def log_entry_def log_view_def log_entry_def log_table_wf_def)
qed

section \<open>Disabling and initialisation\<close>

definition log_item_cleared :: "log_mask_t \<Rightarrow> log_mask_t" where
  "log_item_cleared m = m\<lparr>lm_ptr := Obj (replicate 512 0)\<rparr>"

lemma disable_log_items_ok:
  "\<forall>m \<in> set ms. lm_range m = 512 \<and> (\<exists>p. lm_ptr m = Obj p \<and> length p = 512) \<Longrightarrow>
   disable_log_items ms = Inr (map log_item_cleared ms)"
proof (induction ms)
  case (Cons m ms)
  then obtain p where "lm_ptr m = Obj p" "length p = 512" "lm_range m = 512" by auto
  with Cons show ?case by (simp add: fill_ok log_item_cleared_def)
qed simp

lemma disable_log_ok:
  assumes "log_masks_wf s"
  shows "\<exists>s'. diag_cmd_disable_log s = Inr s' \<and> log_masks_wf s' \<and>
    diag_get_log_mask_status s' = DIAG_CTRL_MASK_ALL_DISABLED \<and>
    (\<forall>i n bits. log_view s' i = Some (n, bits) \<longrightarrow> set bits \<subseteq> {0})"
proof -
  from assms obtain tbl where tbl: "mi_ptr (log_mask s) = Obj tbl" "log_table_wf tbl"
    by (auto simp: log_masks_wf_def)
  have items: "disable_log_items tbl = Inr (map log_item_cleared tbl)"
    using tbl(2) by (intro disable_log_items_ok) (auto simp: log_table_wf_def log_item_wf_def in_set_conv_nth)
  let ?s' = "set_log_status DIAG_CTRL_MASK_ALL_DISABLED (set_log_table (map log_item_cleared tbl) s)"
  have "log_table_wf (map log_item_cleared tbl)"
    using tbl(2) by (auto simp: log_table_wf_def log_item_wf_def log_item_cleared_def)
  then have "log_masks_wf ?s'" by (simp add: log_masks_wf_def)
  moreover have "diag_cmd_disable_log s = Inr ?s'"
    using tbl items by (simp add: diag_cmd_disable_log_def)
  moreover have "set bits \<subseteq> {0}" if "log_view ?s' i = Some (n, bits)" for i n bits
    using that set_take_subset [of _ "replicate 512 (0::u8)"]
    by (auto simp: log_view_def log_entry_def log_item_cleared_def split: if_splits)
  ultimately show ?thesis by (auto simp: diag_get_log_mask_status_def)
qed

text \<open>What one turn of the initialisation loop leaves in entry \<open>i\<close>.\<close>

definition log_item_init :: "nat \<Rightarrow> log_mask_t" where
  "log_item_init i =
     (let num = LOG_GET_ITEM_NUM (log_code_last_tbl ! i) in
      \<lparr>lm_equip_id = of_nat i, lm_num_items = num, lm_num_items_tools = num,
       lm_range = 512, lm_range_tools = 512, lm_ptr = Obj (replicate 512 0)\<rparr>)"

lemma unat_ucast_u8: "unat (ucast (w :: u8) :: u32) = unat w"
proof -
  have "unat w < 2 ^ LENGTH(8)" by (rule unsigned_less)
  then show ?thesis by (simp add: unsigned_ucast_eq take_bit_nat_eq_self)
qed

lemma log_code_num: "LOG_GET_ITEM_NUM c \<le> MAX_ITEMS_ALLOWED"
  by (simp add: LOG_GET_ITEM_NUM_def MAX_ITEMS_ALLOWED_def word_and_le1)

lemma create_log_masks_ok:
  "mem_ok s \<Longrightarrow> i + length ms \<le> length log_code_last_tbl \<Longrightarrow>
   create_log_masks i ms s =
     Inr (0, map log_item_init [i..<i + length ms], s\<lparr>alloc_no := alloc_no s + length ms\<rparr>)"
proof (induction ms arbitrary: i s)
  case Nil
  then show ?case by simp
next
  case (Cons m ms)
  have "\<not> bits_to_bytes32 (LOG_GET_ITEM_NUM (log_code_last_tbl ! i)) > MAX_ITEMS_PER_EQUIP_ID"
    using log_size_le [OF log_code_num [of "log_code_last_tbl ! i"]]
    by (simp add: MAX_ITEMS_PER_EQUIP_ID_def word_less_nat_alt not_less)
  moreover have "mem_ok (s\<lparr>alloc_no := Suc (alloc_no s)\<rparr>)" using Cons.prems by (simp add: mem_ok_def)
  ultimately show ?case
    using Cons.IH [of "s\<lparr>alloc_no := Suc (alloc_no s)\<rparr>" "i + 1"] Cons.prems
    by (simp add: arr_read_def malloc_ok Let_def log_item_init_def upt_conv_Cons
        MAX_ITEMS_PER_EQUIP_ID_def del: upt_Suc)
qed

lemma log_mask_init_wf:
  assumes "mem_ok s"
  shows "\<exists>s'. diag_log_mask_init s = Inr (0, s') \<and> log_masks_wf s' \<and> mem_ok s' \<and>
    msg_mask s' = msg_mask s \<and> msg_bt_mask s' = msg_bt_mask s \<and> event_mask s' = event_mask s \<and>
    mask_state.more s' = mask_state.more s"
proof -
  let ?tbl = "map log_item_init [0..<MAX_EQUIP_ID]"
  have "length log_code_last_tbl = MAX_EQUIP_ID" by (simp add: log_code_last_tbl_def MAX_EQUIP_ID_def)
  moreover have "log_table_wf ?tbl"
    by (auto simp: log_table_wf_def log_item_wf_def log_item_init_def Let_def log_code_num)
  ultimately show ?thesis
    using assms
    by (simp add: diag_log_mask_init_def diag_mask_init_def LOG_MASK_SIZE_def APPS_BUF_SIZE_def malloc_ok
        diag_create_log_mask_table_def create_log_masks_ok mem_ok_def log_masks_wf_def)
qed

section \<open>The contract\<close>

text \<open>Setting the mask of an equipment id from a request that holds exactly its bytes.\<close>

definition log_accepts :: "nat \<Rightarrow> u32 \<times> u8 list \<Rightarrow> bool" where
  "log_accepts i v \<longleftrightarrow> i < MAX_EQUIP_ID \<and> fst v \<le> MAX_ITEMS_ALLOWED \<and>
     length (snd v) = unat (bits_to_bytes32 (fst v))"

definition log_update :: "nat \<times> u32 \<times> u8 list \<Rightarrow> 'z mask_state_scheme \<Rightarrow> 'z mask_state_scheme res" where
  "log_update kv s =
     andthen (diag_cmd_set_log_mask (of_nat (fst kv)) (fst (snd kv)) (mem_of (snd (snd kv))) 0 s)
       (\<lambda>(_, _, _, s'). Inr s')"

lemma log_update_ok:
  assumes "log_masks_wf s" and acc: "log_accepts i v"
  shows "\<exists>s'. log_update (i, v) s = Inr s' \<and> log_masks_wf s' \<and> log_view s' = (log_view s)(i \<mapsto> v)"
proof -
  obtain n bs where v: "v = (n, bs)" by (cases v)
  have capped: "log_capped n = n" using acc v by (auto simp: log_capped_def log_accepts_def)
  have i: "unat (of_nat i :: u8) = i" "i < MAX_EQUIP_ID"
    using acc by (simp_all add: log_accepts_def unat_of_nat MAX_EQUIP_ID_def)
  have "rd_bytes (mem_of bs) 0 (unat (bits_to_bytes32 (log_capped n))) = Inr bs"
    using acc v capped by (simp add: log_accepts_def rd_bytes_ok) (simp add: list_eq_iff_nth_eq)
  from set_log_mask_ok [OF assms(1) _ this, of "of_nat i" 0] i capped v show ?thesis
    by (auto simp: log_update_def)
qed

interpretation log_masks: mask_table log_masks_wf log_view log_accepts log_update
  by unfold_locales (rule log_update_ok)

end
