(* ===== verification/Msg_Masks.thy ===== *)
theory Msg_Masks
  imports Masks
begin

text \<open>
  The message masks of \<^verbatim>\<open>masks.c\<close>: a table of subsystem id (ssid) ranges, each with a heap
  object of one word per ssid, which \<open>diag_cmd_set_msg_mask\<close> resizes. The invariant ties the
  recorded number of words to the size of the object; requests of at most
  \<open>MAX_SSID_PER_RANGE\<close> ids in order keep it and change exactly the addressed words.
  Two requests outside this contract are shown to leave the object: a longer range after the
  object was shrunk, and a read of a shrunk object.
\<close>

section \<open>Operations\<close>

definition diag_get_build_mask_status :: "'z mask_state_scheme \<Rightarrow> u8" where
  "diag_get_build_mask_status s = mi_status (msg_bt_mask s)"

definition diag_get_msg_mask_status :: "'z mask_state_scheme \<Rightarrow> u8" where
  "diag_get_msg_mask_status s = mi_status (msg_mask s)"

definition set_msg_table :: "msg_mask_t list \<Rightarrow> 'z mask_state_scheme \<Rightarrow> 'z mask_state_scheme" where
  "set_msg_table tbl s = s\<lparr>msg_mask := (msg_mask s)\<lparr>mi_ptr := Obj tbl\<rparr>\<rparr>"

definition set_msg_status :: "u8 \<Rightarrow> 'z mask_state_scheme \<Rightarrow> 'z mask_state_scheme" where
  "set_msg_status st s = s\<lparr>msg_mask := (msg_mask s)\<lparr>mi_status := st\<rparr>\<rparr>"

definition diag_cmd_get_ssid_range ::
    "'z mask_state_scheme \<Rightarrow> (u32 \<times> ssid_range list option \<times> 'z mask_state_scheme) res" where
  "diag_cmd_get_ssid_range s =
     (case malloc (MSG_MASK_TBL_CNT * 4) s of
        (None, s) \<Rightarrow> Inr (of_nat MSG_MASK_TBL_CNT, None, s)
      | (Some _, s) \<Rightarrow>
          andthen (deref (mi_ptr (msg_mask s))) (\<lambda>tbl.
          andthen (load tbl MSG_MASK_TBL_CNT) (\<lambda>items.
            Inr (of_nat MSG_MASK_TBL_CNT,
                 Some (map (\<lambda>m. \<lparr>ssid_first = ucast (mm_ssid_first m), ssid_last = ucast (mm_ssid_last_tools m)\<rparr>) items),
                 s))))"

text \<open>The results are the return value, the range after the call, and the caller's pointer.\<close>

definition diag_cmd_get_build_mask ::
    "ssid_range \<Rightarrow> u32 list option \<Rightarrow> 'z mask_state_scheme \<Rightarrow>
     (int \<times> ssid_range \<times> u32 list option \<times> 'z mask_state_scheme) res" where
  "diag_cmd_get_build_mask rng out s =
     andthen (deref (mi_ptr (msg_bt_mask s))) (\<lambda>tbl.
     case first_index (\<lambda>m. mm_ssid_first m = ucast (ssid_first rng)) tbl of
       None \<Rightarrow> Inr (1, rng, out, s)
     | Some i \<Rightarrow>
         let item = tbl ! i;
             asked = ucast (ssid_last rng) - ucast (ssid_first rng) + 1;
             n = (if asked > mm_range item then mm_range item else asked);
             rng = (if asked > mm_range item
                      then rng\<lparr>ssid_last := ssid_first rng + ucast (mm_range item)\<rparr> else rng)
         in case malloc (unat (n * 4)) s of
              (None, s) \<Rightarrow> Inr (- ENOMEM, rng, None, s)
            | (Some _, s) \<Rightarrow>
                andthen (deref (mm_ptr item)) (\<lambda>p.
                andthen (load p (unat n)) (\<lambda>ws. Inr (0, rng, Some ws, s))))"

definition diag_cmd_get_msg_mask ::
    "ssid_range pointer \<Rightarrow> u32 list option \<Rightarrow> 'z mask_state_scheme \<Rightarrow>
     (int \<times> ssid_range \<times> u32 list option \<times> 'z mask_state_scheme) res" where
  "diag_cmd_get_msg_mask rng_ptr out s =
     andthen (deref (mi_ptr (msg_mask s))) (\<lambda>tbl.
     andthen (deref rng_ptr) (\<lambda>rng.
     case first_index (\<lambda>m. \<not> (ucast (ssid_first rng) < mm_ssid_first m \<or>
                              ucast (ssid_first rng) > mm_ssid_last_tools m)) tbl of
       None \<Rightarrow> Inr (1, rng, out, s)
     | Some i \<Rightarrow>
         let item = tbl ! i;
             rng = \<lparr>ssid_first = ucast (mm_ssid_first item), ssid_last = ucast (mm_ssid_last item)\<rparr>
         in case malloc (unat (mm_range item * 4)) s of
              (None, s) \<Rightarrow> Inr (- ENOMEM, rng, None, s)
            | (Some _, s) \<Rightarrow>
                andthen (deref (mm_ptr item)) (\<lambda>p.
                andthen (load p (unat (mm_range item))) (\<lambda>ws. Inr (0, rng, Some ws, s)))))"

text \<open>
  The search of \<open>diag_cmd_set_msg_mask\<close>, over the first ids of the table: the entry that
  starts at or before the id and not more than \<open>MAX_SSID_PER_RANGE\<close> before it, unless the next
  entry also starts at or before it.
\<close>

fun msg_slot :: "u32 \<Rightarrow> nat \<Rightarrow> u32 list \<Rightarrow> nat option" where
  "msg_slot f i [] = None"
| "msg_slot f i [b] = (if f < b \<or> f > b + MAX_SSID_PER_RANGE then None else Some i)"
| "msg_slot f i (b # c # bs) =
     (if f < b \<or> f > b + MAX_SSID_PER_RANGE \<or> f \<ge> c then msg_slot f (i + 1) (c # bs) else Some i)"

text \<open>The copy at the end: the range must lie in the words the entry claims to have.\<close>

definition msg_copy ::
    "nat \<Rightarrow> msg_mask_t \<Rightarrow> u32 \<Rightarrow> u32 \<Rightarrow> mem \<Rightarrow> msg_mask_t list \<Rightarrow> 'z mask_state_scheme \<Rightarrow>
     (int \<times> 'z mask_state_scheme) res" where
  "msg_copy i item first num bits tbl s =
     (let offset = first - mm_ssid_first item in
      if offset + num > mm_range_tools item then Inr (1, set_msg_table (tbl[i := item]) s)
      else
        andthen (rd32s bits 0 (unat num)) (\<lambda>ws.
        andthen (deref (mm_ptr item)) (\<lambda>p.
        andthen (store p (unat offset) ws) (\<lambda>p.
          Inr (0, set_msg_status DIAG_CTRL_MASK_VALID (set_msg_table (tbl[i := item\<lparr>mm_ptr := Obj p\<rparr>]) s))))))"

definition diag_cmd_set_msg_mask ::
    "ssid_range \<Rightarrow> mem \<Rightarrow> 'z mask_state_scheme \<Rightarrow> (int \<times> 'z mask_state_scheme) res" where
  "diag_cmd_set_msg_mask rng bits s =
     andthen (deref (mi_ptr (msg_mask s))) (\<lambda>tbl.
     let first = ucast (ssid_first rng); last = ucast (ssid_last rng) in
     case msg_slot first 0 (map mm_ssid_first tbl) of
       None \<Rightarrow> Inr (1, s)
     | Some i \<Rightarrow>
         let item = tbl ! i;
             asked = last - first + 1;
             num = (if asked > MAX_SSID_PER_RANGE then MAX_SSID_PER_RANGE else asked);
             item = (if asked > MAX_SSID_PER_RANGE
                     then item\<lparr>mm_range_tools := MAX_SSID_PER_RANGE,
                               mm_ssid_last_tools := mm_ssid_first item + MAX_SSID_PER_RANGE\<rparr>
                     else item)
         in if last > mm_ssid_last_tools item then
              let item = (if num \<noteq> MAX_SSID_PER_RANGE then item\<lparr>mm_ssid_last_tools := last\<rparr> else item);
                  item = item\<lparr>mm_range_tools := mm_ssid_last_tools item - mm_ssid_first item + 1\<rparr>
              in andthen (deref (mm_ptr item)) (\<lambda>p.
                 case realloc32 p (unat (mm_range_tools item)) s of
                   (None, s) \<Rightarrow>
                     Inr (- ENOMEM, set_msg_status DIAG_CTRL_MASK_INVALID (set_msg_table (tbl[i := item]) s))
                 | (Some p, s) \<Rightarrow> msg_copy i (item\<lparr>mm_ptr := Obj p\<rparr>) first num bits tbl s)
            else msg_copy i item first num bits tbl s)"

text \<open>\<^verbatim>\<open>memset\<close> stores the low byte of its argument in every byte of the words.\<close>

definition memset_word :: "u32 \<Rightarrow> u32" where
  "memset_word w = u32_of (ucast w) (ucast w) (ucast w) (ucast w)"

fun set_all_msg_items :: "u32 \<Rightarrow> msg_mask_t list \<Rightarrow> msg_mask_t list res" where
  "set_all_msg_items w [] = Inr []"
| "set_all_msg_items w (m # ms) =
     andthen (deref (mm_ptr m)) (\<lambda>p.
     andthen (fill p (memset_word w) (unat (mm_range_tools m))) (\<lambda>p'.
     andthen (set_all_msg_items w ms) (\<lambda>ms'. Inr (m\<lparr>mm_ptr := Obj p'\<rparr> # ms'))))"

definition diag_cmd_set_all_msg_mask :: "u32 \<Rightarrow> 'z mask_state_scheme \<Rightarrow> 'z mask_state_scheme res" where
  "diag_cmd_set_all_msg_mask w s =
     andthen (deref (mi_ptr (msg_mask s))) (\<lambda>tbl.
     andthen (set_all_msg_items w tbl) (\<lambda>tbl'.
       Inr (set_msg_status (if w \<noteq> 0 then DIAG_CTRL_MASK_ALL_ENABLED else DIAG_CTRL_MASK_ALL_DISABLED)
              (set_msg_table tbl' s))))"

section \<open>The invariant\<close>

text \<open>
  The object behind an entry has as many words as \<open>mm_range_tools\<close> says, which reach at least
  to the last id in use; the last id never falls below the one of the build.
\<close>

definition msg_item_wf :: "nat \<Rightarrow> msg_mask_t \<Rightarrow> bool" where
  "msg_item_wf i m \<longleftrightarrow> mm_ssid_first m = ssid_first_arr ! i \<and> mm_ssid_last m = ssid_last_arr ! i \<and>
     mm_range m = MAX_SSID_PER_RANGE \<and> (\<exists>p. mm_ptr m = Obj p \<and> length p = unat (mm_range_tools m)) \<and>
     ssid_last_arr ! i \<le> mm_ssid_last_tools m \<and> unat (mm_ssid_last_tools m) < 100000 \<and>
     unat (mm_ssid_last_tools m) < unat (mm_ssid_first m) + unat (mm_range_tools m)"

definition msg_table_wf :: "msg_mask_t list \<Rightarrow> bool" where
  "msg_table_wf tbl \<longleftrightarrow> length tbl = MSG_MASK_TBL_CNT \<and> (\<forall>i < MSG_MASK_TBL_CNT. msg_item_wf i (tbl ! i))"

definition msg_masks_wf :: "'z mask_state_scheme \<Rightarrow> bool" where
  "msg_masks_wf s \<longleftrightarrow> mem_ok s \<and> (\<exists>tbl. mi_ptr (msg_mask s) = Obj tbl \<and> msg_table_wf tbl)"

text \<open>The word for the id at an offset of an entry, as far as the entry is in use.\<close>

definition msg_entry :: "msg_mask_t \<Rightarrow> nat \<Rightarrow> u32 option" where
  "msg_entry m off =
     (case mm_ptr m of
        Obj p \<Rightarrow> if unat (mm_ssid_first m) + off \<le> unat (mm_ssid_last_tools m) \<and> off < length p
                 then Some (p ! off) else None
      | _ \<Rightarrow> None)"

text \<open>The object behind an entry.\<close>

definition msg_object :: "'z mask_state_scheme \<Rightarrow> nat \<Rightarrow> u32 list option" where
  "msg_object s i =
     (case mi_ptr (msg_mask s) of
        Obj tbl \<Rightarrow> if i < length tbl then (case mm_ptr (tbl ! i) of Obj p \<Rightarrow> Some p | _ \<Rightarrow> None) else None
      | _ \<Rightarrow> None)"

definition msg_view :: "'z mask_state_scheme \<Rightarrow> nat \<times> nat \<Rightarrow> u32 option" where
  "msg_view s k =
     (case mi_ptr (msg_mask s) of
        Obj tbl \<Rightarrow> if fst k < length tbl then msg_entry (tbl ! fst k) (snd k) else None
      | _ \<Rightarrow> None)"

lemma msg_status_table [simp]:
  "mi_ptr (msg_mask (set_msg_status st s)) = mi_ptr (msg_mask s)"
  "mi_status (msg_mask (set_msg_status st s)) = st"
  "mi_ptr (msg_mask (set_msg_table tbl s)) = Obj tbl"
  "mem_ok (set_msg_status st s) = mem_ok s"
  "mem_ok (set_msg_table tbl s) = mem_ok s"
  by (simp_all add: set_msg_status_def set_msg_table_def mem_ok_def)

lemma msg_arr_lengths: "length ssid_first_arr = MSG_MASK_TBL_CNT" "length ssid_last_arr = MSG_MASK_TBL_CNT"
  by (simp_all add: ssid_first_arr_def ssid_last_arr_def MSG_MASK_TBL_CNT_def)

definition ssid_bounds :: "u32 \<Rightarrow> u32 \<Rightarrow> bool" where
  "ssid_bounds b l \<longleftrightarrow> b \<le> l \<and> unat l < unat b + 200 \<and> unat l < 50000"

lemma ssid_bounds_all: "list_all2 ssid_bounds ssid_first_arr ssid_last_arr"
  by (simp add: ssid_first_arr_def ssid_last_arr_def ssid_bounds_def)

lemma ssid_arrs:
  "i < MSG_MASK_TBL_CNT \<Longrightarrow> ssid_first_arr ! i \<le> ssid_last_arr ! i"
  "i < MSG_MASK_TBL_CNT \<Longrightarrow> unat (ssid_last_arr ! i) < unat (ssid_first_arr ! i) + 200"
  "i < MSG_MASK_TBL_CNT \<Longrightarrow> unat (ssid_last_arr ! i) < 50000"
  using list_all2_nthD [OF ssid_bounds_all] by (simp_all add: msg_arr_lengths ssid_bounds_def)

lemma msg_table_firsts: "msg_table_wf tbl \<Longrightarrow> map mm_ssid_first tbl = ssid_first_arr"
  by (auto simp: list_eq_iff_nth_eq msg_arr_lengths msg_table_wf_def msg_item_wf_def)

lemma msg_table_wf_update:
  "msg_table_wf tbl \<Longrightarrow> i < MSG_MASK_TBL_CNT \<Longrightarrow> msg_item_wf i m \<Longrightarrow> msg_table_wf (tbl[i := m])"
  by (auto simp: msg_table_wf_def nth_list_update)

lemma msg_slot_Some:
  "msg_slot f i bs = Some j \<Longrightarrow>
   i \<le> j \<and> j < i + length bs \<and> bs ! (j - i) \<le> f \<and> f \<le> bs ! (j - i) + MAX_SSID_PER_RANGE"
proof (induction f i bs rule: msg_slot.induct)
  case (3 f i b c bs)
  show ?case
  proof (cases "f < b \<or> f > b + MAX_SSID_PER_RANGE \<or> f \<ge> c")
    case True
    then have "msg_slot f (i + 1) (c # bs) = Some j" using 3(2) by simp
    note IH = 3(1) [OF True this]
    then obtain k where "j = i + 1 + k" by (auto simp: le_iff_add)
    with IH show ?thesis by simp
  next
    case False
    with 3(2) show ?thesis by (auto simp: not_less)
  qed
qed (auto simp: not_less split: if_splits)

section \<open>Setting a range\<close>

lemma msg_copy_ok:
  assumes p: "mm_ptr m = Obj p" "length p = unat (mm_range_tools m)"
    and ws: "rd32s bits 0 (unat n) = Inr ws" "length ws = unat n"
    and first: "mm_ssid_first m \<le> f" and small: "unat f + unat n < 2 ^ 32"
    and off: "off = unat f - unat (mm_ssid_first m)"
  shows "msg_copy i m f n bits tbl s =
    (if off + unat n > unat (mm_range_tools m) then Inr (1, set_msg_table (tbl[i := m]) s)
     else Inr (0, set_msg_status DIAG_CTRL_MASK_VALID
       (set_msg_table (tbl[i := m\<lparr>mm_ptr := Obj (take off p @ ws @ drop (off + unat n) p)\<rparr>]) s)))"
proof -
  let ?o = "f - mm_ssid_first m"
  have o: "unat ?o = off" using first off by (simp add: unat_sub)
  have "unat (?o + n) = off + unat n"
    using small o off by (simp add: unat_word_ariths)
  then have "?o + n > mm_range_tools m \<longleftrightarrow> off + unat n > unat (mm_range_tools m)"
    by (simp add: word_less_nat_alt)
  then show ?thesis
    using p ws o by (simp add: msg_copy_def Let_def store_ok)
qed

definition msg_request_ok :: "ssid_range \<Rightarrow> bool" where
  "msg_request_ok r \<longleftrightarrow> unat (ssid_first r) \<le> unat (ssid_last r) \<and>
     unat (ssid_last r) < unat (ssid_first r) + 200"

definition msg_count :: "ssid_range \<Rightarrow> nat" where
  "msg_count r = unat (ssid_last r) - unat (ssid_first r) + 1"

definition msg_slot_of :: "ssid_range \<Rightarrow> nat option" where
  "msg_slot_of r = msg_slot (ucast (ssid_first r)) 0 ssid_first_arr"

definition msg_offset :: "nat \<Rightarrow> ssid_range \<Rightarrow> nat" where
  "msg_offset i r = unat (ssid_first r) - unat (ssid_first_arr ! i)"

definition msg_written :: "nat \<Rightarrow> nat \<Rightarrow> u32 list \<Rightarrow> nat \<times> nat \<Rightarrow> u32 option" where
  "msg_written i off ws =
     (\<lambda>(j, k). if j = i \<and> off \<le> k \<and> k < off + length ws then Some (ws ! (k - off)) else None)"

lemma unat_ucast_u16: "unat (ucast (w :: u16) :: u32) = unat w"
proof -
  have "unat w < 2 ^ LENGTH(16)" by (rule unsigned_less)
  then show ?thesis by (simp add: unsigned_ucast_eq take_bit_nat_eq_self)
qed

lemma msg_asked:
  assumes "msg_request_ok r"
  shows "unat (ucast (ssid_last r) - ucast (ssid_first r) + 1 :: u32) = msg_count r" "msg_count r \<le> 200"
proof -
  have le: "(ucast (ssid_first r) :: u32) \<le> ucast (ssid_last r)"
    using assms by (simp add: msg_request_ok_def word_le_nat_alt unat_ucast_u16)
  have "unat (ucast (ssid_last r) - ucast (ssid_first r) :: u32) = unat (ssid_last r) - unat (ssid_first r)"
    using unat_sub [OF le] by (simp add: unat_ucast_u16)
  moreover have "unat (ssid_last r) - unat (ssid_first r) < 200"
    using assms unfolding msg_request_ok_def by linarith
  ultimately show "unat (ucast (ssid_last r) - ucast (ssid_first r) + 1 :: u32) = msg_count r"
    by (simp add: msg_count_def unat_word_ariths)
  show "msg_count r \<le> 200" using assms unfolding msg_request_ok_def msg_count_def by linarith
qed

lemma msg_slot_of_Some:
  assumes "msg_slot_of r = Some i"
  shows "i < MSG_MASK_TBL_CNT" "ssid_first_arr ! i \<le> ucast (ssid_first r)"
    "unat (ssid_first_arr ! i) \<le> unat (ssid_first r)"
  using msg_slot_Some [OF assms [unfolded msg_slot_of_def]]
  by (simp_all add: msg_arr_lengths word_le_nat_alt unat_ucast_u16)

text \<open>What an entry shows after a copy into its object, and a table after a change of an entry.\<close>

lemma msg_entry_store:
  assumes "mm_ptr m = Obj p" and "off + length ws \<le> length p"
    and "unat (mm_ssid_first m) + off + length ws \<le> unat (mm_ssid_last_tools m) + 1"
  shows "msg_entry (m\<lparr>mm_ptr := Obj (take off p @ ws @ drop (off + length ws) p)\<rparr>) k =
    (if off \<le> k \<and> k < off + length ws then Some (ws ! (k - off)) else msg_entry m k)"
proof -
  have "(take off p @ ws @ drop (off + length ws) p) ! k =
      (if off \<le> k \<and> k < off + length ws then ws ! (k - off) else p ! k)" if "k < length p"
    using that assms(2) by (auto simp: nth_append)
  with assms show ?thesis by (auto simp: msg_entry_def)
qed

lemma msg_view_change:
  assumes "mi_ptr (msg_mask s) = Obj tbl" and "mi_ptr (msg_mask s') = Obj (tbl[i := m])" and "i < length tbl"
  shows "msg_view s' (j, k) = (if j = i then msg_entry m k else msg_view s (j, k))"
  using assms by (simp add: msg_view_def)

lemma msg_view_written:
  assumes "mi_ptr (msg_mask s) = Obj tbl" and "i < length tbl"
    and "mi_ptr (msg_mask s') = Obj (tbl[i := m\<lparr>mm_ptr := Obj (take off p @ ws @ drop (off + length ws) p)\<rparr>])"
    and "mm_ptr m = Obj p" and "off + length ws \<le> length p"
    and "unat (mm_ssid_first m) + off + length ws \<le> unat (mm_ssid_last_tools m) + 1"
    and keep: "msg_entry (tbl ! i) \<subseteq>\<^sub>m msg_entry m"
  shows "msg_view s ++ msg_written i off ws \<subseteq>\<^sub>m msg_view s'"
    and "msg_entry m = msg_entry (tbl ! i) \<Longrightarrow> msg_view s' = msg_view s ++ msg_written i off ws"
proof -
  note view = msg_view_change [OF assms(1,3,2)] and entry = msg_entry_store [OF assms(4-6)]
  have old: "msg_view s (i, k) = msg_entry (tbl ! i) k" for k using assms(1,2) by (simp add: msg_view_def)
  show "msg_view s ++ msg_written i off ws \<subseteq>\<^sub>m msg_view s'"
  proof (rule map_leI)
    fix key w
    assume "(msg_view s ++ msg_written i off ws) key = Some w"
    then show "msg_view s' key = Some w"
      using keep old
      by (cases key) (auto simp: view entry msg_written_def map_add_Some_iff map_le_def dom_def split: if_splits)
  qed
  assume "msg_entry m = msg_entry (tbl ! i)"
  then show "msg_view s' = msg_view s ++ msg_written i off ws"
    using old by (auto simp: fun_eq_iff view entry msg_written_def map_add_def)
qed

text \<open>The entry stays within the invariant when its object is rewritten in place or resized.\<close>

lemma msg_table_item:
  assumes "mi_ptr (msg_mask s) = Obj tbl" and "msg_masks_wf s" and "msg_slot_of r = Some i"
  obtains p where "mm_ptr (tbl ! i) = Obj p" "length p = unat (mm_range_tools (tbl ! i))"
    "i < length tbl" "msg_item_wf i (tbl ! i)" "msg_table_wf tbl"
    "msg_slot (ucast (ssid_first r)) 0 (map mm_ssid_first tbl) = Some i"
    "mm_ssid_first (tbl ! i) = ssid_first_arr ! i"
proof -
  have tbl: "msg_table_wf tbl" using assms(1,2) by (simp add: msg_masks_wf_def)
  moreover have i: "i < MSG_MASK_TBL_CNT" by (rule msg_slot_of_Some [OF assms(3)])
  ultimately have "msg_item_wf i (tbl ! i)" by (simp add: msg_table_wf_def)
  moreover from this obtain p where "mm_ptr (tbl ! i) = Obj p" "length p = unat (mm_range_tools (tbl ! i))"
    by (auto simp: msg_item_wf_def)
  moreover have "i < length tbl" using tbl i by (simp add: msg_table_wf_def)
  moreover have "mm_ssid_first (tbl ! i) = ssid_first_arr ! i"
    using \<open>msg_item_wf i (tbl ! i)\<close> by (simp add: msg_item_wf_def)
  ultimately show thesis
    using that tbl assms(3) by (simp add: msg_slot_of_def msg_table_firsts)
qed

lemma msg_masks_wfI:
  "mem_ok s \<Longrightarrow> mi_ptr (msg_mask s) = Obj (tbl[i := m]) \<Longrightarrow> msg_table_wf tbl \<Longrightarrow> i < MSG_MASK_TBL_CNT \<Longrightarrow>
   msg_item_wf i m \<Longrightarrow> msg_masks_wf s"
  by (auto simp: msg_masks_wf_def intro: msg_table_wf_update)

lemma msg_item_wf_store:
  "msg_item_wf i m \<Longrightarrow> mm_ptr m = Obj q \<Longrightarrow> length q' = length q \<Longrightarrow> msg_item_wf i (m\<lparr>mm_ptr := Obj q'\<rparr>)"
  by (auto simp: msg_item_wf_def)

lemma length_overwrite: "off + length ws \<le> length q \<Longrightarrow> length (take off q @ ws @ drop (off + length ws) q) = length q"
  by simp

text \<open>Within the ids in use: the words of the request, and nothing else, change.\<close>

lemma set_msg_mask_within:
  assumes wf: "msg_masks_wf s" and tbl: "mi_ptr (msg_mask s) = Obj tbl" and r: "msg_request_ok r"
    and ws: "rd32s bits 0 (msg_count r) = Inr ws" "length ws = msg_count r" and slot: "msg_slot_of r = Some i"
    and within: "unat (ssid_last r) \<le> unat (mm_ssid_last_tools (tbl ! i))"
  shows "\<exists>s'. diag_cmd_set_msg_mask r bits s = Inr (0, s') \<and> msg_masks_wf s' \<and>
    diag_get_msg_mask_status s' = DIAG_CTRL_MASK_VALID \<and>
    msg_view s' = msg_view s ++ msg_written i (msg_offset i r) ws"
proof -
  let ?m = "tbl ! i" and ?f = "ucast (ssid_first r) :: u32" and ?l = "ucast (ssid_last r) :: u32"
  let ?n = "?l - ?f + 1" and ?o = "msg_offset i r"
  obtain p where p: "mm_ptr ?m = Obj p" "length p = unat (mm_range_tools ?m)" "i < length tbl"
      "msg_item_wf i ?m" "msg_table_wf tbl" "msg_slot ?f 0 (map mm_ssid_first tbl) = Some i"
      "mm_ssid_first ?m = ssid_first_arr ! i"
    by (rule msg_table_item [OF tbl wf slot])
  note n = msg_asked [OF r] and b = msg_slot_of_Some [OF slot]
  have fits: "?o + msg_count r \<le> unat (mm_range_tools ?m)"
      "unat (ssid_first_arr ! i) + ?o + msg_count r \<le> unat (mm_ssid_last_tools ?m) + 1"
    using within p(4,7) b(3) r by (auto simp: msg_item_wf_def msg_offset_def msg_count_def msg_request_ok_def)
  let ?m' = "?m\<lparr>mm_ptr := Obj (take ?o p @ ws @ drop (?o + length ws) p)\<rparr>"
  let ?s' = "set_msg_status DIAG_CTRL_MASK_VALID (set_msg_table (tbl[i := ?m']) s)"
  have nocap: "\<not> ?n > MAX_SSID_PER_RANGE" "\<not> ?l > mm_ssid_last_tools ?m"
    using n within by (simp_all add: word_less_nat_alt MAX_SSID_PER_RANGE_def unat_ucast_u16)
  have "msg_copy i ?m ?f ?n bits tbl s = Inr (0, ?s')"
    using msg_copy_ok [OF p(1,2), of bits ?n ws ?f ?o i tbl s] ws n b p(7) fits
      unsigned_less [of "ssid_first r", where ?'a = nat]
    by (simp add: msg_offset_def unat_ucast_u16)
  then have "diag_cmd_set_msg_mask r bits s = Inr (0, ?s')"
    using tbl p(6) nocap by (simp add: diag_cmd_set_msg_mask_def Let_def)
  moreover have "msg_masks_wf ?s'"
    by (rule msg_masks_wfI [of _ tbl i ?m'])
      (use wf p b fits ws in \<open>auto simp: msg_masks_wf_def msg_item_wf_def\<close>)
  moreover have "msg_view ?s' = msg_view s ++ msg_written i ?o ws"
    by (rule msg_view_written(2) [OF tbl p(3) _ p(1)]) (use p(2,7) fits ws in simp_all)
  ultimately show ?thesis by (auto simp: diag_get_msg_mask_status_def)
qed

text \<open>Resizing the object of an entry to end at the id \<open>t\<close>.\<close>

definition msg_resized :: "u32 \<Rightarrow> u32 list \<Rightarrow> msg_mask_t \<Rightarrow> msg_mask_t" where
  "msg_resized t q m = m\<lparr>mm_ssid_last_tools := t, mm_range_tools := t - mm_ssid_first m + 1, mm_ptr := Obj q\<rparr>"

lemma msg_item_resized:
  assumes wf: "msg_item_wf i m" and i: "i < MSG_MASK_TBL_CNT" and p: "mm_ptr m = Obj p"
    and t: "mm_ssid_last_tools m \<le> t" "unat t < 100000"
    and q: "q = take n p @ drop (length p) (fresh_words s n)" and n: "n = unat (t - mm_ssid_first m + 1)"
  shows "n = unat t - unat (mm_ssid_first m) + 1" and "length q = n"
    and "msg_item_wf i (msg_resized t q m)" and "msg_entry m \<subseteq>\<^sub>m msg_entry (msg_resized t q m)"
    and "t = mm_ssid_last_tools m \<Longrightarrow> msg_entry (msg_resized t q m) = msg_entry m"
proof -
  have le: "mm_ssid_first m \<le> t"
    using wf t(1) ssid_arrs(1) [OF i] by (auto simp: msg_item_wf_def)
  have "unat (t - mm_ssid_first m) = unat t - unat (mm_ssid_first m)" using unat_sub [OF le] .
  then show nn: "n = unat t - unat (mm_ssid_first m) + 1"
    using n t(2) by (simp add: unat_word_ariths)
  show lq: "length q = n" using q by simp
  have le': "unat (mm_ssid_first m) \<le> unat t" "unat (mm_ssid_last_tools m) \<le> unat t"
    using le t(1) by (simp_all add: word_le_nat_alt)
  show "msg_item_wf i (msg_resized t q m)"
    using wf t nn n lq le' by (auto simp: msg_item_wf_def msg_resized_def)
  have nth: "q ! k = p ! k" if "k < length p" "k < n" for k
    using that q by (simp add: nth_append)
  show "msg_entry m \<subseteq>\<^sub>m msg_entry (msg_resized t q m)"
    using p le' nn lq nth by (auto intro!: map_leI simp: msg_entry_def msg_resized_def split: if_splits)
  assume t: "t = mm_ssid_last_tools m"
  have "k < length p" if "unat (mm_ssid_first m) + k \<le> unat t" for k
    using that wf p t by (auto simp: msg_item_wf_def)
  then show "msg_entry (msg_resized t q m) = msg_entry m"
    using p le' nn lq nth t by (auto simp: fun_eq_iff msg_entry_def msg_resized_def)
qed

text \<open>Beyond the ids in use, with fewer ids than the maximum: the entry grows to the last id.\<close>

lemma set_msg_mask_grow:
  assumes wf: "msg_masks_wf s" and tbl: "mi_ptr (msg_mask s) = Obj tbl" and r: "msg_request_ok r"
    and ws: "rd32s bits 0 (msg_count r) = Inr ws" "length ws = msg_count r" and slot: "msg_slot_of r = Some i"
    and beyond: "unat (mm_ssid_last_tools (tbl ! i)) < unat (ssid_last r)" and count: "msg_count r < 200"
  shows "\<exists>s'. diag_cmd_set_msg_mask r bits s = Inr (0, s') \<and> msg_masks_wf s' \<and>
    diag_get_msg_mask_status s' = DIAG_CTRL_MASK_VALID \<and>
    msg_view s ++ msg_written i (msg_offset i r) ws \<subseteq>\<^sub>m msg_view s' \<and>
    map_option length (msg_object s' i) = Some (unat (ssid_last r) - unat (ssid_first_arr ! i) + 1)"
proof -
  let ?m = "tbl ! i" and ?f = "ucast (ssid_first r) :: u32" and ?l = "ucast (ssid_last r) :: u32"
  let ?n = "?l - ?f + 1" and ?o = "msg_offset i r" and ?k = "unat (?l - mm_ssid_first ?m + 1)"
  obtain p where p: "mm_ptr ?m = Obj p" "length p = unat (mm_range_tools ?m)" "i < length tbl"
      "msg_item_wf i ?m" "msg_table_wf tbl" "msg_slot ?f 0 (map mm_ssid_first tbl) = Some i"
      "mm_ssid_first ?m = ssid_first_arr ! i"
    by (rule msg_table_item [OF tbl wf slot])
  note n = msg_asked [OF r] and b = msg_slot_of_Some [OF slot]
  let ?q = "take ?k p @ drop (length p) (fresh_words s ?k)" and ?s1 = "s\<lparr>alloc_no := Suc (alloc_no s)\<rparr>"
  let ?m1 = "msg_resized ?l ?q ?m"
  have small: "unat ?l < 100000"
    using unsigned_less [of "ssid_last r", where ?'a = nat] by (simp add: unat_ucast_u16)
  have le: "mm_ssid_last_tools ?m \<le> ?l" using beyond by (simp add: word_le_nat_alt unat_ucast_u16)
  note res = msg_item_resized [where s = s, OF p(4) b(1) p(1) le small refl refl]
  let ?m2 = "?m1\<lparr>mm_ptr := Obj (take ?o ?q @ ws @ drop (?o + length ws) ?q)\<rparr>"
  let ?s' = "set_msg_status DIAG_CTRL_MASK_VALID (set_msg_table (tbl[i := ?m2]) ?s1)"
  have fits: "?o + msg_count r \<le> length ?q" "unat (ssid_first_arr ! i) + ?o + msg_count r \<le> unat ?l + 1"
    using res(1,2) b(3) r p(7) unfolding msg_offset_def msg_count_def msg_request_ok_def
    by (simp_all add: unat_ucast_u16)
  have cap: "\<not> ?n > MAX_SSID_PER_RANGE" "?l > mm_ssid_last_tools ?m" "?n \<noteq> MAX_SSID_PER_RANGE"
    using n beyond count by (auto simp: word_less_nat_alt MAX_SSID_PER_RANGE_def unat_ucast_u16)
  have "msg_copy i ?m1 ?f ?n bits tbl ?s1 = Inr (0, ?s')"
    using msg_copy_ok [of ?m1 ?q bits ?n ws ?f ?o i tbl ?s1] ws n b p(7) fits res(2)
      unsigned_less [of "ssid_first r", where ?'a = nat]
    by (simp add: msg_offset_def unat_ucast_u16 msg_resized_def)
  then have "diag_cmd_set_msg_mask r bits s = Inr (0, ?s')"
    using tbl p(1,6) cap wf by (simp add: diag_cmd_set_msg_mask_def Let_def realloc32_ok msg_masks_wf_def msg_resized_def)
  moreover have "?o + length ws \<le> length ?q" unfolding ws(2) by (rule fits(1))
  then have "msg_item_wf i ?m2"
    by (intro msg_item_wf_store [OF res(3) _ length_overwrite]) (simp_all add: msg_resized_def del: length_append)
  then have "msg_masks_wf ?s'"
    by (intro msg_masks_wfI [of _ tbl i ?m2]) (use wf p b in \<open>auto simp: msg_masks_wf_def\<close>)
  moreover have "msg_view s ++ msg_written i ?o ws \<subseteq>\<^sub>m msg_view ?s'"
    by (rule msg_view_written(1) [OF tbl p(3) _ _ _ _ res(4), where s' = ?s' and off = ?o and ws = ws and p = ?q])
      (use fits ws p(7) in \<open>simp_all add: msg_resized_def\<close>)
  moreover have "length (take ?o ?q @ ws @ drop (?o + length ws) ?q) = unat ?l - unat (ssid_first_arr ! i) + 1"
    by (subst length_overwrite) (use fits ws res(1,2) p(7) in \<open>simp_all del: length_append\<close>)
  then have "map_option length (msg_object ?s' i) = Some (unat (ssid_last r) - unat (ssid_first_arr ! i) + 1)"
    using p(3) by (simp add: msg_object_def unat_ucast_u16 del: length_append)
  ultimately show ?thesis by (auto simp: diag_get_msg_mask_status_def)
qed

text \<open>
  Exactly the maximum number of ids, beyond the ids in use: the request is refused, and the
  object of the entry is cut down to the ids in use.
\<close>

lemma set_msg_mask_refused:
  assumes wf: "msg_masks_wf s" and tbl: "mi_ptr (msg_mask s) = Obj tbl" and r: "msg_request_ok r"
    and slot: "msg_slot_of r = Some i"
    and beyond: "unat (mm_ssid_last_tools (tbl ! i)) < unat (ssid_last r)" and count: "msg_count r = 200"
  shows "\<exists>s'. diag_cmd_set_msg_mask r bits s = Inr (1, s') \<and> msg_masks_wf s' \<and> msg_view s' = msg_view s"
proof -
  let ?m = "tbl ! i" and ?f = "ucast (ssid_first r) :: u32" and ?l = "ucast (ssid_last r) :: u32"
  let ?n = "?l - ?f + 1" and ?t = "mm_ssid_last_tools (tbl ! i)"
  let ?k = "unat (?t - mm_ssid_first ?m + 1)"
  obtain p where p: "mm_ptr ?m = Obj p" "i < length tbl"
      "msg_item_wf i ?m" "msg_table_wf tbl" "msg_slot ?f 0 (map mm_ssid_first tbl) = Some i"
      "mm_ssid_first ?m = ssid_first_arr ! i"
    by (rule msg_table_item [OF tbl wf slot])
  note n = msg_asked [OF r] and b = msg_slot_of_Some [OF slot]
  let ?q = "take ?k p @ drop (length p) (fresh_words s ?k)" and ?s1 = "s\<lparr>alloc_no := Suc (alloc_no s)\<rparr>"
  let ?m1 = "msg_resized ?t ?q ?m" and ?s' = "set_msg_table (tbl[i := msg_resized ?t ?q ?m]) ?s1"
  have small: "unat ?t < 100000" using p(3) by (simp add: msg_item_wf_def)
  note res = msg_item_resized [where s = s, OF p(3) b(1) p(1) order_refl small refl refl]
  have n200: "?n = MAX_SSID_PER_RANGE"
    using n(1) count by (simp add: word_unat_eq_iff MAX_SSID_PER_RANGE_def)
  have f: "unat ?f = unat (ssid_first r)" "unat ?f < 65536"
    using unsigned_less [of "ssid_first r", where ?'a = nat] by (simp_all add: unat_ucast_u16)
  have "unat (?f - mm_ssid_first ?m) = unat (ssid_first r) - unat (mm_ssid_first ?m)"
    using unat_sub [OF b(2)] p(6) f by simp
  then have "unat (?f - mm_ssid_first ?m + 200) = unat (ssid_first r) - unat (mm_ssid_first ?m) + 200"
    using f by (simp add: unat_word_ariths)
  moreover have "unat (ssid_first r) - unat (mm_ssid_first ?m) + 200 > ?k"
    using res(1) beyond r b(3) count p(6) unfolding msg_count_def msg_request_ok_def by linarith
  ultimately have "msg_copy i ?m1 ?f MAX_SSID_PER_RANGE bits tbl ?s1 = Inr (1, ?s')"
    by (simp add: msg_copy_def msg_resized_def word_less_nat_alt MAX_SSID_PER_RANGE_def)
  then have "diag_cmd_set_msg_mask r bits s = Inr (1, ?s')"
    using tbl p(1,5) beyond wf n200
    by (simp add: diag_cmd_set_msg_mask_def Let_def realloc32_ok msg_masks_wf_def msg_resized_def
        word_less_nat_alt unat_ucast_u16)
  moreover have "msg_masks_wf ?s'"
    by (rule msg_masks_wfI [of _ tbl i ?m1]) (use wf p b res(3) in \<open>auto simp: msg_masks_wf_def\<close>)
  moreover have "msg_view ?s' = msg_view s"
    using msg_view_change [of s tbl ?s' i ?m1] tbl p(2) res(5) by (auto simp: fun_eq_iff msg_view_def)
  ultimately show ?thesis by blast
qed

section \<open>Reading, and setting all\<close>

text \<open>Reading copies \<open>mm_range\<close> words, so it is in bounds exactly when the object still has them.\<close>

lemma get_msg_mask_ok:
  assumes wf: "msg_masks_wf s" and tbl: "mi_ptr (msg_mask s) = Obj tbl"
    and found: "first_index (\<lambda>m. \<not> (ucast (ssid_first r) < mm_ssid_first m \<or>
                  ucast (ssid_first r) > mm_ssid_last_tools m)) tbl = Some i"
    and p: "mm_ptr (tbl ! i) = Obj p"
  shows "diag_cmd_get_msg_mask (Obj r) out s =
    (if 200 \<le> length p
     then Inr (0, \<lparr>ssid_first = ucast (ssid_first_arr ! i), ssid_last = ucast (ssid_last_arr ! i)\<rparr>,
               Some (take 200 p), s\<lparr>alloc_no := Suc (alloc_no s)\<rparr>)
     else Inl OobRead)"
proof -
  have "i < MSG_MASK_TBL_CNT" "msg_table_wf tbl"
    using first_index_Some [OF found] wf tbl by (auto simp: msg_masks_wf_def msg_table_wf_def)
  then have "msg_item_wf i (tbl ! i)" by (simp add: msg_table_wf_def)
  then show ?thesis
    using wf tbl found p
    by (auto simp: diag_cmd_get_msg_mask_def malloc_ok msg_masks_wf_def msg_item_wf_def Let_def load_def
        MAX_SSID_PER_RANGE_def)
qed

lemma set_all_msg_items_ok:
  "\<forall>m \<in> set ms. \<exists>p. mm_ptr m = Obj p \<and> length p = unat (mm_range_tools m) \<Longrightarrow>
   set_all_msg_items w ms =
     Inr (map (\<lambda>m. m\<lparr>mm_ptr := Obj (replicate (unat (mm_range_tools m)) (memset_word w))\<rparr>) ms)"
proof (induction ms)
  case (Cons m ms)
  then obtain p where "mm_ptr m = Obj p" "length p = unat (mm_range_tools m)" by auto
  with Cons show ?case by (simp add: fill_ok)
qed simp

lemma set_all_msg_mask_ok:
  assumes wf: "msg_masks_wf s"
  shows "\<exists>s'. diag_cmd_set_all_msg_mask w s = Inr s' \<and> msg_masks_wf s' \<and>
    diag_get_msg_mask_status s' = (if w \<noteq> 0 then DIAG_CTRL_MASK_ALL_ENABLED else DIAG_CTRL_MASK_ALL_DISABLED) \<and>
    msg_view s' = map_option (\<lambda>_. memset_word w) \<circ> msg_view s"
proof -
  from wf obtain tbl where tbl: "mi_ptr (msg_mask s) = Obj tbl" "msg_table_wf tbl"
    by (auto simp: msg_masks_wf_def)
  have items: "\<exists>p. mm_ptr (tbl ! i) = Obj p \<and> length p = unat (mm_range_tools (tbl ! i))"
    if "i < length tbl" for i
    using tbl(2) that by (auto simp: msg_table_wf_def msg_item_wf_def)
  let ?tbl' = "map (\<lambda>m. m\<lparr>mm_ptr := Obj (replicate (unat (mm_range_tools m)) (memset_word w))\<rparr>) tbl"
  let ?s' = "set_msg_status (if w \<noteq> 0 then DIAG_CTRL_MASK_ALL_ENABLED else DIAG_CTRL_MASK_ALL_DISABLED)
              (set_msg_table ?tbl' s)"
  have "set_all_msg_items w tbl = Inr ?tbl'"
    by (rule set_all_msg_items_ok) (use items in \<open>auto simp: in_set_conv_nth\<close>)
  then have "diag_cmd_set_all_msg_mask w s = Inr ?s'"
    using tbl(1) by (simp add: diag_cmd_set_all_msg_mask_def)
  moreover have "msg_table_wf ?tbl'" using tbl(2) by (auto simp: msg_table_wf_def msg_item_wf_def)
  then have "msg_masks_wf ?s'" using wf by (auto simp: msg_masks_wf_def)
  moreover have "msg_view ?s' (i, k) = map_option (\<lambda>_. memset_word w) (msg_view s (i, k))" for i k
  proof (cases "i < length tbl")
    case True
    with items [OF True] tbl(1) show ?thesis by (auto simp: msg_view_def msg_entry_def)
  qed (use tbl(1) in \<open>simp add: msg_view_def\<close>)
  ultimately show ?thesis by (auto simp: diag_get_msg_mask_status_def fun_eq_iff)
qed

text \<open>Only the low byte of the argument reaches the masks.\<close>

lemma memset_word_low_byte: "memset_word w = memset_word (w AND 0xff)"
proof -
  have "w AND 0xff = take_bit 8 w" by (simp add: take_bit_eq_mask mask_eq_exp_minus_1)
  then have "ucast (w AND 0xff) = (ucast w :: u8)"
    by (intro bit_word_eqI) (auto simp: bit_simps)
  then show ?thesis by (simp add: memset_word_def)
qed

section \<open>Two ways out of the object\<close>

text \<open>
  A request for one id more than the maximum, from the first id of an entry, is cut to the
  maximum without a reallocation: when the object is smaller, the copy overruns it.
\<close>

lemma set_msg_mask_overrun:
  assumes wf: "msg_masks_wf s" and slot: "msg_slot_of r = Some i"
    and obj: "msg_object s i = Some p" "length p < 200"
    and r: "unat (ssid_first r) = unat (ssid_first_arr ! i)" "unat (ssid_last r) = unat (ssid_first_arr ! i) + 200"
    and bits: "rd32s bits 0 200 = Inr ws" "length ws = 200"
  shows "diag_cmd_set_msg_mask r bits s = Inl OobWrite"
proof -
  from wf obtain tbl where tbl: "mi_ptr (msg_mask s) = Obj tbl" by (auto simp: msg_masks_wf_def)
  let ?m = "tbl ! i" and ?f = "ucast (ssid_first r) :: u32" and ?l = "ucast (ssid_last r) :: u32"
  have p: "mm_ptr ?m = Obj p" "msg_slot ?f 0 (map mm_ssid_first tbl) = Some i"
      "mm_ssid_first ?m = ssid_first_arr ! i"
    using obj tbl by (auto intro: msg_table_item [OF tbl wf slot] simp: msg_object_def split: if_splits pointer.splits)
  have f: "?f = ssid_first_arr ! i" using r(1) by (simp add: word_unat_eq_iff unat_ucast_u16)
  have l: "?l = ?f + 200"
  proof -
    have "unat (?f + 200) = unat ?f + 200"
      using unsigned_less [of "ssid_first r", where ?'a = nat] by (simp add: unat_word_ariths unat_ucast_u16)
    with r show ?thesis by (simp add: word_unat_eq_iff unat_ucast_u16)
  qed
  have asked: "?l - ?f + 1 > MAX_SSID_PER_RANGE" using l by (simp add: MAX_SSID_PER_RANGE_def)
  have "store p 0 ws = Inl OobWrite" using obj(2) bits(2) by (auto simp: store_def)
  then show ?thesis
    using tbl p f l asked bits
    by (simp add: diag_cmd_set_msg_mask_def msg_copy_def Let_def MAX_SSID_PER_RANGE_def)
qed

text \<open>
  Such an object is one request away: a range that ends beyond the ids of the build but less
  than \<open>MAX_SSID_PER_RANGE\<close> ids into the entry cuts the object down to its last id.
\<close>

lemma msg_mask_shrinks:
  assumes wf: "msg_masks_wf s" and tbl: "mi_ptr (msg_mask s) = Obj tbl" and r: "msg_request_ok r"
    and ws: "rd32s bits 0 (msg_count r) = Inr ws" "length ws = msg_count r" and slot: "msg_slot_of r = Some i"
    and beyond: "unat (mm_ssid_last_tools (tbl ! i)) < unat (ssid_last r)"
    and near: "unat (ssid_last r) < unat (ssid_first_arr ! i) + 199"
  obtains s' p where "diag_cmd_set_msg_mask r bits s = Inr (0, s')" "msg_masks_wf s'"
    "msg_object s' i = Some p" "length p = unat (ssid_last r) - unat (ssid_first_arr ! i) + 1" "length p < 200"
proof -
  have "msg_count r < 200"
    using near msg_slot_of_Some [OF slot] unfolding msg_count_def by linarith
  from set_msg_mask_grow [OF wf tbl r ws slot beyond this] obtain s' where
    s': "diag_cmd_set_msg_mask r bits s = Inr (0, s')" "msg_masks_wf s'"
      "map_option length (msg_object s' i) = Some (unat (ssid_last r) - unat (ssid_first_arr ! i) + 1)" by blast
  then obtain p where "msg_object s' i = Some p" "length p = unat (ssid_last r) - unat (ssid_first_arr ! i) + 1"
    by auto
  with s' near msg_slot_of_Some [OF slot] show thesis by (intro that) auto
qed

section \<open>Initialisation\<close>

definition msg_item_init :: "nat \<Rightarrow> msg_mask_t" where
  "msg_item_init i =
     \<lparr>mm_ssid_first = ssid_first_arr ! i, mm_ssid_last = ssid_last_arr ! i, mm_ssid_last_tools = ssid_last_arr ! i,
      mm_range = 200, mm_range_tools = 200, mm_ptr = Obj (replicate 200 0xffffffff)\<rparr>"

lemma msg_range_init:
  assumes "i < MSG_MASK_TBL_CNT"
  shows "ssid_last_arr ! i - ssid_first_arr ! i + 1 \<le> 200"
proof -
  note b = ssid_arrs [OF assms]
  have "unat (ssid_last_arr ! i - ssid_first_arr ! i) = unat (ssid_last_arr ! i) - unat (ssid_first_arr ! i)"
    by (rule unat_sub [OF b(1)])
  with b show ?thesis by (simp add: word_le_nat_alt unat_word_ariths)
qed

lemma create_msg_masks_ok:
  "mem_ok s \<Longrightarrow> i + length ms \<le> MSG_MASK_TBL_CNT \<Longrightarrow>
   create_msg_masks i ms s =
     Inr (0, map msg_item_init [i..<i + length ms], s\<lparr>alloc_no := alloc_no s + length ms\<rparr>)"
proof (induction ms arbitrary: i s)
  case Nil
  then show ?case by simp
next
  case (Cons m ms)
  then have i: "i < MSG_MASK_TBL_CNT" by simp
  have "ssid_last_arr ! i - ssid_first_arr ! i + 1 = 200"
    if "\<not> ssid_last_arr ! i - ssid_first_arr ! i + 1 < 200"
    using that msg_range_init [OF i] by simp
  then have "diag_create_msg_mask_table_entry i m s = Inr (0, msg_item_init i, s\<lparr>alloc_no := Suc (alloc_no s)\<rparr>)"
    using i Cons.prems(1)
    by (auto simp: diag_create_msg_mask_table_entry_def arr_read_def msg_arr_lengths malloc_ok Let_def
        msg_item_init_def MAX_SSID_PER_RANGE_def MSG_MASK_TBL_CNT_def NUM_OF_MASK_RANGES_def)
  then show ?case
    using Cons.IH [of "s\<lparr>alloc_no := Suc (alloc_no s)\<rparr>" "i + 1"] Cons.prems
    by (simp add: upt_conv_Cons del: upt_Suc)
qed

lemma msg_item_init_wf: "i < MSG_MASK_TBL_CNT \<Longrightarrow> msg_item_wf i (msg_item_init i)"
  using ssid_arrs [of i] by (simp add: msg_item_wf_def msg_item_init_def MAX_SSID_PER_RANGE_def)

lemma msg_mask_init_wf:
  assumes "mem_ok s"
  shows "\<exists>s'. diag_msg_mask_init s = Inr (0, s') \<and> msg_masks_wf s' \<and>
    msg_bt_mask s' = msg_bt_mask s \<and> log_mask s' = log_mask s \<and> event_mask s' = event_mask s \<and>
    mask_state.more s' = mask_state.more s"
  using assms
  by (simp add: diag_msg_mask_init_def diag_mask_init_def MSG_MASK_SIZE_def APPS_BUF_SIZE_def malloc_ok
      diag_create_msg_mask_table_def create_msg_masks_ok mem_ok_def msg_masks_wf_def msg_table_wf_def
      msg_item_init_wf)

lemma build_mask_init:
  assumes "mem_ok s"
  shows "\<exists>s'. diag_build_time_mask_init s = Inr (0, s') \<and> mem_ok s' \<and>
    mi_ptr (msg_bt_mask s') = Obj (map msg_item_init [0..<MSG_MASK_TBL_CNT]) \<and>
    msg_mask s' = msg_mask s \<and> log_mask s' = log_mask s \<and> event_mask s' = event_mask s \<and>
    mask_state.more s' = mask_state.more s"
  using assms
  by (simp add: diag_build_time_mask_init_def diag_mask_init_def MSG_MASK_SIZE_def malloc_ok
      diag_create_build_time_mask_def create_msg_masks_ok mem_ok_def)

section \<open>The build time masks\<close>

definition build_masks_wf :: "'z mask_state_scheme \<Rightarrow> bool" where
  "build_masks_wf s \<longleftrightarrow> mem_ok s \<and>
     mi_ptr (msg_bt_mask s) = Obj (map msg_item_init [0..<MSG_MASK_TBL_CNT])"

text \<open>
  A range within the maximum is answered as asked, with every bit set; a longer one is cut to
  200 words, but the range handed back then claims 201 ids.
\<close>

lemma get_build_mask_ok:
  assumes wf: "build_masks_wf s"
    and found: "first_index (\<lambda>b. b = ucast (ssid_first r)) ssid_first_arr = Some i" and r: "msg_request_ok r"
  shows "diag_cmd_get_build_mask r out s =
    Inr (0, r, Some (replicate (msg_count r) 0xffffffff), s\<lparr>alloc_no := Suc (alloc_no s)\<rparr>)"
proof -
  let ?n = "ucast (ssid_last r) - ucast (ssid_first r) + 1 :: u32"
  have i: "i < MSG_MASK_TBL_CNT" using first_index_Some [OF found] by (simp add: msg_arr_lengths)
  have "first_index (\<lambda>m. mm_ssid_first m = ucast (ssid_first r)) (map msg_item_init [0..<MSG_MASK_TBL_CNT]) = Some i"
    using first_index_Some [OF found] i
    by (intro first_index_unique) (auto simp: msg_item_init_def)
  moreover have "unat ?n = msg_count r" "msg_count r \<le> 200" by (rule msg_asked [OF r])+
  moreover from this have "\<not> ?n > 200" by (simp add: word_less_nat_alt)
  ultimately show ?thesis
    using wf i
    by (simp add: diag_cmd_get_build_mask_def build_masks_wf_def malloc_ok Let_def msg_item_init_def min_def)
qed

lemma get_build_mask_truncated:
  assumes wf: "build_masks_wf s"
    and found: "first_index (\<lambda>b. b = ucast (ssid_first r)) ssid_first_arr = Some i"
    and long: "ucast (ssid_last r) - ucast (ssid_first r) + 1 > (200 :: u32)"
  shows "diag_cmd_get_build_mask r out s =
    Inr (0, r\<lparr>ssid_last := ssid_first r + 200\<rparr>, Some (replicate 200 0xffffffff), s\<lparr>alloc_no := Suc (alloc_no s)\<rparr>)"
proof -
  have i: "i < MSG_MASK_TBL_CNT" using first_index_Some [OF found] by (simp add: msg_arr_lengths)
  have "first_index (\<lambda>m. mm_ssid_first m = ucast (ssid_first r)) (map msg_item_init [0..<MSG_MASK_TBL_CNT]) = Some i"
    using first_index_Some [OF found] i
    by (intro first_index_unique) (auto simp: msg_item_init_def)
  then show ?thesis
    using wf i long
    by (simp add: diag_cmd_get_build_mask_def build_masks_wf_def malloc_ok Let_def msg_item_init_def)
qed

section \<open>The contract\<close>

text \<open>
  Setting the word of one id that the build knows: the table behaves as a map from
  pairs of entry and offset to words.
\<close>

definition msg_accepts :: "nat \<times> nat \<Rightarrow> u32 \<Rightarrow> bool" where
  "msg_accepts k w \<longleftrightarrow> fst k < MSG_MASK_TBL_CNT \<and>
     msg_slot (ssid_first_arr ! fst k + of_nat (snd k)) 0 ssid_first_arr = Some (fst k) \<and>
     unat (ssid_first_arr ! fst k) + snd k \<le> unat (ssid_last_arr ! fst k)"

definition msg_update :: "(nat \<times> nat) \<times> u32 \<Rightarrow> 'z mask_state_scheme \<Rightarrow> 'z mask_state_scheme res" where
  "msg_update kw s =
     (let id = ucast (ssid_first_arr ! fst (fst kw) + of_nat (snd (fst kw))) in
      andthen (diag_cmd_set_msg_mask \<lparr>ssid_first = id, ssid_last = id\<rparr> (mem_of (le32 (snd kw))) s)
        (\<lambda>(_, s'). Inr s'))"

lemma narrow_u16:
  assumes "unat (x :: u32) < 65536"
  shows "unat (ucast x :: u16) = unat x" "ucast (ucast x :: u16) = x"
proof -
  have "take_bit 16 (unat x) = unat x" using assms by (simp add: take_bit_nat_eq_self)
  then show u: "unat (ucast x :: u16) = unat x" by (simp only: unsigned_ucast_eq len_num1 len_bit0 len_of_numeral_defs)  simp
  then show "ucast (ucast x :: u16) = x" by (simp add: word_unat_eq_iff unat_ucast_u16)
qed

lemma rd32_le32: "rd32s (mem_of (le32 w)) 0 1 = Inr [w]"
  by (simp add: rd32_def le32_def u32_of_le32)

lemma msg_update_ok:
  assumes wf: "msg_masks_wf s" and acc: "msg_accepts k w"
  shows "\<exists>s'. msg_update (k, w) s = Inr s' \<and> msg_masks_wf s' \<and> msg_view s' = (msg_view s)(k \<mapsto> w)"
proof -
  obtain i off where k: "k = (i, off)" by (cases k)
  let ?id32 = "ssid_first_arr ! i + of_nat off :: u32" and ?id = "ucast (ssid_first_arr ! i + of_nat off :: u32) :: u16"
  let ?r = "\<lparr>ssid_first = ?id, ssid_last = ?id\<rparr>"
  have i: "i < MSG_MASK_TBL_CNT" using acc k by (simp add: msg_accepts_def)
  have b: "unat (ssid_first_arr ! i) + off < 50000"
    using acc k ssid_arrs(3) [OF i] by (simp add: msg_accepts_def)
  then have id32: "unat ?id32 = unat (ssid_first_arr ! i) + off"
    by (simp add: unat_word_ariths unat_of_nat)
  then have id: "unat ?id = unat (ssid_first_arr ! i) + off" "ucast ?id = ?id32"
    using b narrow_u16 [of ?id32] by simp_all
  have r: "msg_request_ok ?r" "msg_count ?r = 1" by (simp_all add: msg_request_ok_def msg_count_def)
  have slot: "msg_slot_of ?r = Some i" using acc k id(2) by (simp add: msg_slot_of_def msg_accepts_def)
  have off: "msg_offset i ?r = off" using id(1) by (simp add: msg_offset_def)
  from wf obtain tbl where tbl: "mi_ptr (msg_mask s) = Obj tbl" "msg_table_wf tbl"
    by (auto simp: msg_masks_wf_def)
  have "ssid_last_arr ! i \<le> mm_ssid_last_tools (tbl ! i)"
    using tbl(2) i by (simp add: msg_table_wf_def msg_item_wf_def)
  then have within: "unat (ssid_last ?r) \<le> unat (mm_ssid_last_tools (tbl ! i))"
    using acc k id(1) by (simp add: msg_accepts_def word_le_nat_alt)
  have "rd32s (mem_of (le32 w)) 0 (msg_count ?r) = Inr [w]" using r(2) rd32_le32 by simp
  from set_msg_mask_within [OF wf tbl(1) r(1) this _ slot within] r(2)
  obtain s' where "diag_cmd_set_msg_mask ?r (mem_of (le32 w)) s = Inr (0, s')" "msg_masks_wf s'"
      "msg_view s' = msg_view s ++ msg_written i off [w]"
    using off by auto
  moreover have "msg_written i off [w] = [k \<mapsto> w]"
    using k by (auto simp: msg_written_def fun_eq_iff)
  ultimately show ?thesis using k by (simp add: msg_update_def Let_def)
qed

interpretation msg_masks: mask_table msg_masks_wf msg_view msg_accepts msg_update
  by unfold_locales (rule msg_update_ok)

end
