(* ===== verification/Event_Masks.thy ===== *)
theory Event_Masks
  imports Masks
begin

text \<open>
  The event mask of \<^verbatim>\<open>masks.c\<close>: one bit string with a highest bit number that grows with
  the updates. The invariant relates the object behind the pointer to the recorded length
  and to the highest bit number; under it no copy leaves the object, and what was set is
  read back.
\<close>

section \<open>Operations\<close>

definition diag_get_event_mask_status :: "'z mask_state_scheme \<Rightarrow> u8" where
  "diag_get_event_mask_status s = mi_status (event_mask s)"

text \<open>The argument \<open>bits_out\<close> is what the caller's pointer holds.\<close>

definition diag_cmd_get_event_mask ::
    "u16 \<Rightarrow> u8 list option \<Rightarrow> 'z mask_state_scheme \<Rightarrow> (int \<times> u8 list option \<times> 'z mask_state_scheme) res" where
  "diag_cmd_get_event_mask num_bits bits_out s =
     (let size = bits_to_bytes16 num_bits in
      if num_bits > event_max_num_bits s then Inr (1, bits_out, s)
      else case malloc size s of
        (None, s) \<Rightarrow> Inr (- ENOMEM, None, s)
      | (Some _, s) \<Rightarrow>
          andthen (deref (mi_ptr (event_mask s))) (\<lambda>p.
          andthen (load p size) (\<lambda>bits. Inr (0, Some bits, s))))"

text \<open>\<^verbatim>\<open>realloc\<close> of a null pointer allocates.\<close>

definition diag_cmd_update_event_mask ::
    "u16 \<Rightarrow> mem \<Rightarrow> 'z mask_state_scheme \<Rightarrow> (int \<times> 'z mask_state_scheme) res" where
  "diag_cmd_update_event_mask num_bits bits_ptr s =
     (let size = bits_to_bytes16 num_bits;
          copy = (\<lambda>s. andthen (rd_bytes bits_ptr 0 size) (\<lambda>bits.
                      andthen (deref (mi_ptr (event_mask s))) (\<lambda>p.
                      andthen (store p 0 bits) (\<lambda>p.
                        Inr (0, s\<lparr>event_mask := (event_mask s)\<lparr>mi_ptr := Obj p, mi_status := DIAG_CTRL_MASK_VALID\<rparr>\<rparr>)))))
      in if num_bits > event_max_num_bits s then
           andthen (case mi_ptr (event_mask s) of Null \<Rightarrow> Inr [] | p \<Rightarrow> deref p) (\<lambda>old.
           case realloc old size s of
             (None, s) \<Rightarrow>
               Inr (- ENOMEM, s\<lparr>event_mask := (event_mask s)\<lparr>mi_status := DIAG_CTRL_MASK_INVALID\<rparr>\<rparr>)
           | (Some p, s) \<Rightarrow>
               copy (s\<lparr>event_mask := (event_mask s)\<lparr>mi_ptr := Obj p, mi_mask_len := int size\<rparr>,
                       event_max_num_bits := num_bits\<rparr>))
         else copy s)"

definition diag_cmd_toggle_events :: "bool \<Rightarrow> 'z mask_state_scheme \<Rightarrow> 'z mask_state_scheme res" where
  "diag_cmd_toggle_events enabled s =
     andthen (deref (mi_ptr (event_mask s))) (\<lambda>p.
     andthen (fill p (if enabled then 0xff else 0) (nat (mi_mask_len (event_mask s)))) (\<lambda>p.
       Inr (s\<lparr>event_mask := (event_mask s)\<lparr>mi_ptr := Obj p,
              mi_status := (if enabled then DIAG_CTRL_MASK_ALL_ENABLED else DIAG_CTRL_MASK_ALL_DISABLED)\<rparr>\<rparr>)))"

section \<open>The invariant\<close>

definition event_masks_wf :: "'z mask_state_scheme \<Rightarrow> bool" where
  "event_masks_wf s \<longleftrightarrow> (\<exists>p. mi_ptr (event_mask s) = Obj p \<and> mi_mask_len (event_mask s) = int (length p) \<and>
     bits_to_bytes16 (event_max_num_bits s) \<le> length p)"

text \<open>The byte of the mask at an index, where the mask has one.\<close>

definition event_view :: "'z mask_state_scheme \<Rightarrow> nat \<Rightarrow> u8 option" where
  "event_view s i =
     (case mi_ptr (event_mask s) of
        Obj p \<Rightarrow> if i < bits_to_bytes16 (event_max_num_bits s) \<and> i < length p then Some (p ! i) else None
      | _ \<Rightarrow> None)"

lemma event_mask_init_wf:
  assumes "mem_ok s"
  shows "\<exists>s'. diag_event_mask_init s = Inr (0, s') \<and> event_masks_wf s' \<and> mem_ok s' \<and>
    msg_mask s' = msg_mask s \<and> msg_bt_mask s' = msg_bt_mask s \<and> log_mask s' = log_mask s \<and>
    mask_state.more s' = mask_state.more s"
  using assms
  by (simp add: diag_event_mask_init_def diag_mask_init_def EVENT_MASK_SIZE_def APPS_BUF_SIZE_def
      malloc_def mem_ok_def event_masks_wf_def bits_to_bytes16_def APPS_EVENT_LAST_ID_def)

section \<open>Setting and reading\<close>

definition event_updated :: "u16 \<Rightarrow> u8 list \<Rightarrow> 'z mask_state_scheme \<Rightarrow> 'z mask_state_scheme \<Rightarrow> bool" where
  "event_updated n bits s s' \<longleftrightarrow> event_masks_wf s' \<and> diag_get_event_mask_status s' = DIAG_CTRL_MASK_VALID \<and>
     event_max_num_bits s' = max n (event_max_num_bits s) \<and> alloc_ok s' = alloc_ok s \<and>
     event_view s' = (\<lambda>i. if i < length bits then Some (bits ! i) else event_view s i)"

lemma update_event_mask_ok:
  assumes wf: "event_masks_wf s" and ok: "mem_ok s"
    and req: "rd_bytes p 0 (bits_to_bytes16 n) = Inr bits"
  shows "\<exists>s'. diag_cmd_update_event_mask n p s = Inr (0, s') \<and> event_updated n bits s s'"
proof -
  from wf obtain q where q: "mi_ptr (event_mask s) = Obj q" "mi_mask_len (event_mask s) = int (length q)"
      "bits_to_bytes16 (event_max_num_bits s) \<le> length q"
    by (auto simp: event_masks_wf_def)
  have len: "length bits = bits_to_bytes16 n" using req by (rule rd_bytes_Inr)
  show ?thesis
  proof (cases "n > event_max_num_bits s")
    case True
    obtain r where r: "realloc q (bits_to_bytes16 n) s = (Some r, s\<lparr>alloc_no := Suc (alloc_no s)\<rparr>)"
      using ok by (auto simp: realloc_def)
    have lr: "length r = length bits" using length_realloc [OF r] len by simp
    have "bits_to_bytes16 (event_max_num_bits s) \<le> length bits"
      using True len bits_to_bytes16_mono [of "event_max_num_bits s" n] by simp
    then show ?thesis
      using True q r req len lr
      by (auto simp: diag_cmd_update_event_mask_def Let_def store_ok event_updated_def event_masks_wf_def
          diag_get_event_mask_status_def event_view_def max_def fun_eq_iff)
  next
    case False
    then have "length bits \<le> bits_to_bytes16 (event_max_num_bits s)"
      using len bits_to_bytes16_mono [of n "event_max_num_bits s"] by simp
    then show ?thesis
      using False q req len
      by (auto simp: diag_cmd_update_event_mask_def store_ok event_updated_def event_masks_wf_def
          diag_get_event_mask_status_def event_view_def max_def nth_append fun_eq_iff)
  qed
qed

lemma get_event_mask_ok:
  assumes wf: "event_masks_wf s" and ok: "mem_ok s" and n: "n \<le> event_max_num_bits s"
  shows "\<exists>bits. diag_cmd_get_event_mask n p0 s = Inr (0, Some bits, s\<lparr>alloc_no := Suc (alloc_no s)\<rparr>) \<and>
    length bits = bits_to_bytes16 n \<and> (\<forall>i < bits_to_bytes16 n. event_view s i = Some (bits ! i))"
proof -
  have "bits_to_bytes16 n \<le> bits_to_bytes16 (event_max_num_bits s)" by (rule bits_to_bytes16_mono [OF n])
  then show ?thesis
    using assms by (auto simp: diag_cmd_get_event_mask_def Let_def malloc_ok event_masks_wf_def event_view_def)
qed

text \<open>Setting a mask and reading it back, at any number of bits.\<close>

lemma event_mask_round_trip:
  assumes "event_masks_wf s" and "mem_ok s" and req: "rd_bytes p 0 (bits_to_bytes16 n) = Inr bits"
  shows "\<exists>s' s''. diag_cmd_update_event_mask n p s = Inr (0, s') \<and>
    diag_cmd_get_event_mask n None s' = Inr (0, Some bits, s'')"
proof -
  from update_event_mask_ok [OF assms] obtain s' where
    s': "diag_cmd_update_event_mask n p s = Inr (0, s')" "event_updated n bits s s'" by blast
  have len: "length bits = bits_to_bytes16 n" using req by (rule rd_bytes_Inr)
  have ok: "mem_ok s'" using s'(2) assms(2) by (simp add: event_updated_def mem_ok_def)
  obtain b where b: "diag_cmd_get_event_mask n None s' = Inr (0, Some b, s'\<lparr>alloc_no := Suc (alloc_no s')\<rparr>)"
      "length b = length bits" "\<forall>i < length bits. event_view s' i = Some (b ! i)"
    using get_event_mask_ok [of s' n None] s'(2) ok len by (auto simp: event_updated_def)
  have "b = bits" using b(2,3) s'(2) by (auto simp: list_eq_iff_nth_eq event_updated_def)
  with b(1) s'(1) show ?thesis by blast
qed

lemma toggle_events_ok:
  assumes "event_masks_wf s"
  shows "\<exists>s'. diag_cmd_toggle_events b s = Inr s' \<and> event_masks_wf s' \<and>
    diag_get_event_mask_status s' = (if b then DIAG_CTRL_MASK_ALL_ENABLED else DIAG_CTRL_MASK_ALL_DISABLED) \<and>
    (\<forall>i < bits_to_bytes16 (event_max_num_bits s). event_view s' i = Some (if b then 0xff else 0))"
  using assms
  by (auto simp: diag_cmd_toggle_events_def fill_ok event_masks_wf_def event_view_def diag_get_event_mask_status_def)

end
