(* ===== verification/Diag_Cntl.thy ===== *)
theory Diag_Cntl
  imports Dm Log_Masks Msg_Masks Event_Masks
begin

text \<open>
  The control channel of a peripheral (\<^verbatim>\<open>diag_cntl.c\<close>): the commands it registers and takes
  back, the feature negotiation, the masks it is sent, the table of diagnostic ids, and the
  splitting of what was read into packets. Packets are read from the buffer they arrived
  in, at the offsets of the packed structures; packets that are sent are given as bytes.
\<close>

section \<open>State\<close>

text \<open>The functions that \<^verbatim>\<open>struct diag_cmd\<close> and \<^verbatim>\<open>struct peripheral\<close> point to.\<close>

datatype cmd_cb =
    HandleLoggingConfiguration
  | HandleExtendedMessageConfiguration
  | HandleEventGetMask
  | HandleEventSetMask
  | HandleEventReportControl
  | HandleDiagVersion
  | HandleDiagVersionNo
  | HandleExtendedBuildId
  | HandleKeepAlive
  | HandleDiagId
  | HandleHdlcDisable

datatype perif_ops = RpmsgOps | QrtrOps

record peripheral =
  p_name :: "u8 list option"
  p_features :: u32
  p_cntl_fd :: int
  p_cntl_open :: bool
  p_data_fd :: int
  p_data_open :: bool
  p_cmd_fd :: int
  p_dci_cmd_fd :: int
  p_flow :: "flow_id option"
  p_diag_id :: int
  p_sockets :: bool
  p_recv_buf :: circ_buf
  p_recv_decoder :: hdlc_decoder
  p_ops :: perif_ops

record diag_cmd =
  dc_first :: u32
  dc_last :: u32
  dc_peripheral :: "perif_id option"
  dc_cb :: "cmd_cb option"

text \<open>An entry of the table of ids; \<open>di_name\<close> has \<open>di_name_len\<close> bytes, the last one zero.\<close>

record diag_id_entry =
  di_info_len :: u8
  di_diag_id :: u8
  di_name_len :: u8
  di_name :: "u8 list"

record cntl_state = dm_state +
  perifs :: "perif_id \<Rightarrow> peripheral pointer"
  next_perif :: perif_id
  peripherals :: "perif_id list"
  diag_cmds :: "diag_cmd list"
  diag_ids :: "diag_id_entry list"
  diag_id_static :: u32

definition set_perif :: "perif_id \<Rightarrow> peripheral \<Rightarrow> 'z cntl_state_scheme \<Rightarrow> 'z cntl_state_scheme" where
  "set_perif p rec s = s\<lparr>perifs := (perifs s)(p := Obj rec)\<rparr>"

section \<open>Constants\<close>

definition FEATURE_MASK_SUPPORT :: u32 where "FEATURE_MASK_SUPPORT = push_bit 0 1"
definition FEATURE_DIAG_MASTER_SETS_COMMON_MASK :: u32 where "FEATURE_DIAG_MASTER_SETS_COMMON_MASK = push_bit 1 1"
definition FEATURE_REQ_RSP_SUPPORT :: u32 where "FEATURE_REQ_RSP_SUPPORT = push_bit 4 1"
definition FEATURE_APPS_HDLC_ENCODE :: u32 where "FEATURE_APPS_HDLC_ENCODE = push_bit 6 1"
definition FEATURE_SOCKETS_ENABLED :: u32 where "FEATURE_SOCKETS_ENABLED = push_bit 13 1"
definition FEATURE_DIAG_ID :: u32 where "FEATURE_DIAG_ID = push_bit 15 1"
definition FEATURE_DIAG_ID_FEATURE_MASK :: u32 where "FEATURE_DIAG_ID_FEATURE_MASK = push_bit 19 1"

lemmas feature_defs = FEATURE_MASK_SUPPORT_def FEATURE_DIAG_MASTER_SETS_COMMON_MASK_def
  FEATURE_REQ_RSP_SUPPORT_def FEATURE_APPS_HDLC_ENCODE_def FEATURE_SOCKETS_ENABLED_def
  FEATURE_DIAG_ID_def FEATURE_DIAG_ID_FEATURE_MASK_def

definition CNTL_CMD_REGISTER :: u32 where "CNTL_CMD_REGISTER = 1"
definition CNTL_CMD_DIAG_MODE :: u32 where "CNTL_CMD_DIAG_MODE = 3"
definition CNTL_CMD_FEATURE_MASK :: u32 where "CNTL_CMD_FEATURE_MASK = 8"
definition CNTL_CMD_LOG_MASK :: u32 where "CNTL_CMD_LOG_MASK = 9"
definition CNTL_CMD_EVENT_MASK :: u32 where "CNTL_CMD_EVENT_MASK = 10"
definition CNTL_CMD_MSG_MASK :: u32 where "CNTL_CMD_MSG_MASK = 11"
definition CNTL_CMD_BUFFERING_TX_MODE :: u32 where "CNTL_CMD_BUFFERING_TX_MODE = 17"
definition CNTL_CMD_DEREGISTER :: u32 where "CNTL_CMD_DEREGISTER = 27"
definition CNTL_CMD_DIAG_ID :: u32 where "CNTL_CMD_DIAG_ID = 33"

definition CMD_SUBSYS_DISPATCH :: u32 where "CMD_SUBSYS_DISPATCH = 75"

text \<open>A structure of which only the first fields were assigned, over the bytes it had before.\<close>

definition overlay :: "u8 list \<Rightarrow> u8 list \<Rightarrow> u8 list" where
  "overlay hdr bytes = hdr @ drop (length hdr) bytes"

section \<open>Registering and deregistering commands\<close>

text \<open>
  The key of a command: its code, subsystem and number. \<open>cmd\<close> and \<open>subsys\<close> are 16-bit fields
  widened to \<^verbatim>\<open>unsigned int\<close>.
\<close>

definition cmd_code :: "u16 \<Rightarrow> u16 \<Rightarrow> u32" where
  "cmd_code cmd subsys = (if cmd = 0xff \<and> subsys \<noteq> 0xff then CMD_SUBSYS_DISPATCH else ucast cmd)"

definition cmd_key :: "u32 \<Rightarrow> u16 \<Rightarrow> u16 \<Rightarrow> u32" where
  "cmd_key cmd subsys n = push_bit 24 cmd OR push_bit 16 (ucast subsys) OR ucast n"

text \<open>The loop over the entries of the packet, from entry \<open>i\<close> with \<open>n\<close> entries to go.\<close>

fun register_ranges ::
    "perif_id \<Rightarrow> mem \<Rightarrow> nat \<Rightarrow> nat \<Rightarrow> 'z cntl_state_scheme \<Rightarrow> (int \<times> 'z cntl_state_scheme) res" where
  "register_ranges p pkt i 0 s = Inr (0, s)"
| "register_ranges p pkt i (Suc n) s =
     andthen (rd16 pkt 12) (\<lambda>cmd.
     andthen (rd16 pkt 14) (\<lambda>subsys.
     andthen (rd16 pkt (20 + 8 * i)) (\<lambda>first.
     andthen (rd16 pkt (20 + 8 * i + 2)) (\<lambda>last.
       let code = cmd_code cmd subsys in
       case malloc 40 s of
         (None, s) \<Rightarrow> Inr (- ENOMEM, s)
       | (Some _, s) \<Rightarrow>
           register_ranges p pkt (i + 1) n
             (s\<lparr>diag_cmds := diag_cmds s @
                [\<lparr>dc_first = cmd_key code subsys first, dc_last = cmd_key code subsys last,
                  dc_peripheral = Some p, dc_cb = None\<rparr>]\<rparr>)))))"

definition diag_cntl_register :: "perif_id \<Rightarrow> mem \<Rightarrow> 'z cntl_state_scheme \<Rightarrow> (int \<times> 'z cntl_state_scheme) res" where
  "diag_cntl_register p pkt s =
     andthen (rd16 pkt 16) (\<lambda>count. register_ranges p pkt 0 (unat count) s)"

definition same_cmd :: "perif_id \<Rightarrow> u32 \<Rightarrow> u32 \<Rightarrow> diag_cmd \<Rightarrow> bool" where
  "same_cmd p lo hi dc \<longleftrightarrow> dc_peripheral dc = Some p \<and> dc_first dc = lo \<and> dc_last dc = hi"

fun deregister_ranges ::
    "perif_id \<Rightarrow> mem \<Rightarrow> nat \<Rightarrow> nat \<Rightarrow> 'z cntl_state_scheme \<Rightarrow> (int \<times> 'z cntl_state_scheme) res" where
  "deregister_ranges p pkt i 0 s = Inr (0, s)"
| "deregister_ranges p pkt i (Suc n) s =
     andthen (rd16 pkt 12) (\<lambda>cmd.
     andthen (rd16 pkt 14) (\<lambda>subsys.
     andthen (rd16 pkt (18 + 4 * i)) (\<lambda>first.
     andthen (rd16 pkt (18 + 4 * i + 2)) (\<lambda>last.
       let code = cmd_code cmd subsys in
       deregister_ranges p pkt (i + 1) n
         (s\<lparr>diag_cmds := filter (\<lambda>dc. \<not> same_cmd p (cmd_key code subsys first) (cmd_key code subsys last) dc)
              (diag_cmds s)\<rparr>)))))"

definition diag_cntl_deregister :: "perif_id \<Rightarrow> mem \<Rightarrow> 'z cntl_state_scheme \<Rightarrow> (int \<times> 'z cntl_state_scheme) res" where
  "diag_cntl_deregister p pkt s =
     andthen (rd16 pkt 16) (\<lambda>count. deregister_ranges p pkt 0 (unat count) s)"

definition diag_cntl_close :: "perif_id \<Rightarrow> 'z cntl_state_scheme \<Rightarrow> 'z cntl_state_scheme" where
  "diag_cntl_close p s = s\<lparr>diag_cmds := filter (\<lambda>dc. dc_peripheral dc \<noteq> Some p) (diag_cmds s)\<rparr>"

section \<open>Sending masks and modes\<close>

definition diag_cntl_send_log_mask :: "perif_id \<Rightarrow> u32 \<Rightarrow> 'z cntl_state_scheme \<Rightarrow> 'z cntl_state_scheme res" where
  "diag_cntl_send_log_mask p equip_id s =
     (let status = diag_get_log_mask_status s in
      andthen (deref (perifs s p)) (\<lambda>perif.
      if p_cntl_fd perif = -1 then Inr s
      else
        andthen (if status = DIAG_CTRL_MASK_VALID
                 then andthen (diag_cmd_get_log_mask equip_id 0 None 0 s) (\<lambda>(_, n, out, size, s).
                        Inr (equip_id, n, out, size, s))
                 else Inr (0, 0, None, 0, s)) (\<lambda>(equip_id, n, out, size, s).
        let (bytes, s) = alloca (19 + unat size) s;
            hdr = le32 CNTL_CMD_LOG_MASK @ le32 (of_nat (19 + unat size - 8)) @
                     [1, status, ucast equip_id] @ le32 n @ le32 size
        in andthen (case out of
                      None \<Rightarrow> Inr (overlay hdr bytes)
                    | Some bits \<Rightarrow> andthen (load bits (unat size)) (\<lambda>bits. store (overlay hdr bytes) 19 bits))
             (\<lambda>pkt. queue_push (PerifCntlq p) pkt s))))"

text \<open>
  The range is passed by reference: reading the mask stores the range of the table entry
  into the caller's variable, which is part of the result.
\<close>

definition diag_cntl_send_msg_mask ::
    "perif_id \<Rightarrow> ssid_range pointer \<Rightarrow> 'z cntl_state_scheme \<Rightarrow> (ssid_range pointer \<times> 'z cntl_state_scheme) res" where
  "diag_cntl_send_msg_mask p rng s =
     (let status = diag_get_msg_mask_status s in
      andthen (deref (perifs s p)) (\<lambda>perif.
      if p_cntl_fd perif = -1 then Inr (rng, s)
      else
        andthen (if status = DIAG_CTRL_MASK_VALID
                 then andthen (diag_cmd_get_msg_mask rng None s) (\<lambda>(_, r, out, s).
                        Inr (Obj r, Obj r, ucast (ssid_last r) - ucast (ssid_first r) + 1, out, s))
                 else if status = DIAG_CTRL_MASK_ALL_DISABLED
                 then Inr (rng, Obj \<lparr>ssid_first = 0, ssid_last = 0\<rparr>, 0, None, s)
                 else if status = DIAG_CTRL_MASK_ALL_ENABLED
                 then andthen (diag_cmd_get_msg_mask rng None s) (\<lambda>(_, r, out, s). Inr (Obj r, Obj r, 1, out, s))
                 else Inr (rng, rng, 0, None, s)) (\<lambda>(rng, used, n :: u32, out, s).
        let size = n * 4; (bytes, s) = alloca (19 + unat size) s
        in andthen (deref used) (\<lambda>r.
           let hdr = le32 CNTL_CMD_MSG_MASK @ le32 (of_nat (19 + unat size - 8)) @
                        [1, status, 0] @ le16 (ssid_first r) @ le16 (ssid_last r) @ le32 n
           in andthen (case out of
                         None \<Rightarrow> Inr (overlay hdr bytes)
                       | Some ws \<Rightarrow> andthen (load (concat (map le32 ws)) (unat size))
                                      (\<lambda>bits. store (overlay hdr bytes) 19 bits))
                (\<lambda>pkt. andthen (queue_push (PerifCntlq p) pkt s) (\<lambda>s. Inr (rng, s)))))))"

definition diag_cntl_send_masks :: "perif_id \<Rightarrow> 'z cntl_state_scheme \<Rightarrow> 'z cntl_state_scheme res" where
  "diag_cntl_send_masks p s =
     fold_res (\<lambda>(first, last) s.
         andthen (diag_cntl_send_msg_mask p (Obj \<lparr>ssid_first = ucast first, ssid_last = ucast last\<rparr>) s)
           (\<lambda>(_, s). Inr s))
       (zip ssid_first_arr ssid_last_arr) s"

definition diag_cntl_send_event_mask :: "perif_id \<Rightarrow> 'z cntl_state_scheme \<Rightarrow> 'z cntl_state_scheme res" where
  "diag_cntl_send_event_mask p s =
     (let status = diag_get_event_mask_status s;
          config = (if status = DIAG_CTRL_MASK_ALL_ENABLED \<or> status = DIAG_CTRL_MASK_VALID then 1 else 0) in
      andthen (deref (perifs s p)) (\<lambda>perif.
      if p_cntl_fd perif = -1 then Inr s
      else
        andthen (if status = DIAG_CTRL_MASK_VALID
                 then andthen (diag_cmd_get_event_mask (event_max_num_bits s) None s) (\<lambda>(ret, out, s').
                        Inr (if ret = 0 then of_nat (bits_to_bytes16 (event_max_num_bits s)) else 0, out, s'))
                 else Inr (0 :: u16, None, s)) (\<lambda>(size, out, s).
        let (bytes, s) = alloca (15 + unat size) s;
            hdr = le32 CNTL_CMD_EVENT_MASK @ le32 (of_nat (15 + unat size - 8)) @
                     [1, status, config] @ le32 (ucast size)
        in andthen (case out of
                      None \<Rightarrow> Inr (overlay hdr bytes)
                    | Some bits \<Rightarrow> andthen (load bits (unat size)) (\<lambda>bits. store (overlay hdr bytes) 15 bits))
             (\<lambda>pkt. queue_push (PerifCntlq p) pkt s))))"

definition bool32 :: "bool \<Rightarrow> u32" where
  "bool32 b = (if b then 1 else 0)"

definition diag_cntl_set_diag_mode :: "perif_id \<Rightarrow> bool \<Rightarrow> 'z cntl_state_scheme \<Rightarrow> 'z cntl_state_scheme res" where
  "diag_cntl_set_diag_mode p real_time s =
     andthen (deref (perifs s p)) (\<lambda>perif.
     let hdr = concat (map le32 [bool32 real_time, bool32 real_time, 0, 0, 0, 0, 0, 0]) in
     if p_diag_id perif \<noteq> 0 then
       queue_push (PerifCntlq p)
         (le32 CNTL_CMD_DIAG_MODE @ le32 37 @ le32 2 @ hdr @ [of_int (p_diag_id perif)]) s
     else queue_push (PerifCntlq p) (le32 CNTL_CMD_DIAG_MODE @ le32 36 @ le32 1 @ hdr) s)"

definition diag_cntl_set_buffering_mode :: "perif_id \<Rightarrow> int \<Rightarrow> 'z cntl_state_scheme \<Rightarrow> 'z cntl_state_scheme res" where
  "diag_cntl_set_buffering_mode p mode s =
     andthen (deref (perifs s p)) (\<lambda>perif.
     if p_diag_id perif \<noteq> 0 then
       queue_push (PerifCntlq p)
         (le32 CNTL_CMD_BUFFERING_TX_MODE @ le32 7 @ le32 2 @ [of_int (p_diag_id perif), 0, of_int mode]) s
     else queue_push (PerifCntlq p) (le32 CNTL_CMD_BUFFERING_TX_MODE @ le32 6 @ le32 1 @ [0, of_int mode]) s)"

definition diag_cntl_send_feature_mask :: "perif_id \<Rightarrow> u32 \<Rightarrow> 'z cntl_state_scheme \<Rightarrow> 'z cntl_state_scheme res" where
  "diag_cntl_send_feature_mask p features s =
     andthen (deref (perifs s p)) (\<lambda>perif.
     if p_cntl_fd perif = -1 then Inr s
     else
       let (bytes, s) = alloca 18 s;
           pkt = overlay (le32 CNTL_CMD_FEATURE_MASK @ le32 10 @ le32 4 @ le32 features) bytes
       in andthen (queue_push (PerifCntlq p) pkt s) (\<lambda>s.
          andthen (diag_cntl_send_masks p s) (\<lambda>s.
          andthen (diag_cntl_set_diag_mode p True s) (\<lambda>s.
            diag_cntl_set_buffering_mode p 0 s))))"

section \<open>Features\<close>

definition local_features :: "peripheral \<Rightarrow> u32" where
  "local_features perif =
     FEATURE_MASK_SUPPORT OR FEATURE_DIAG_MASTER_SETS_COMMON_MASK OR
     (if p_cmd_fd perif \<ge> 0 then FEATURE_REQ_RSP_SUPPORT else 0) OR
     FEATURE_APPS_HDLC_ENCODE OR
     (if p_sockets perif then FEATURE_SOCKETS_ENABLED else 0) OR
     FEATURE_DIAG_ID OR FEATURE_DIAG_ID_FEATURE_MASK"

definition diag_cntl_feature_mask :: "perif_id \<Rightarrow> mem \<Rightarrow> 'z cntl_state_scheme \<Rightarrow> (int \<times> 'z cntl_state_scheme) res" where
  "diag_cntl_feature_mask p pkt s =
     andthen (rd32 pkt 12) (\<lambda>wanted.
     andthen (deref (perifs s p)) (\<lambda>perif.
     let features = wanted AND local_features perif in
     andthen (diag_cntl_send_feature_mask p features (set_perif p (perif\<lparr>p_features := features\<rparr>) s))
       (\<lambda>s. Inr (0, s))))"

section \<open>Diagnostic ids\<close>

text \<open>A string in a buffer: the bytes before the first zero; a fault when there is none.\<close>

definition cstr :: "mem \<Rightarrow> nat \<Rightarrow> u8 list res" where
  "cstr m off =
     (case first_index (\<lambda>i. byte m i = 0) [off..<cap m] of
        None \<Rightarrow> Inl OobRead
      | Some k \<Rightarrow> Inr (map (\<lambda>i. byte m (off + i)) [0..<k]))"

text \<open>
  \<^verbatim>\<open>strncpy\<close> of at most \<open>n - 1\<close> characters, then a zero at \<open>n - 1\<close>. The length is never 0
  where this is used: a name of 255 characters, whose length wraps to 0, is in no entry of
  the table and is not registered.
\<close>

definition strncpy0 :: "u8 list \<Rightarrow> nat \<Rightarrow> u8 list" where
  "strncpy0 name n = take (n - 1) (name @ replicate (n - 1) 0) @ [0]"

definition c_string :: "u8 list \<Rightarrow> u8 list" where
  "c_string bs = takeWhile (\<lambda>b. b \<noteq> 0) bs"

definition DIAG_ID_APPS :: u32 where "DIAG_ID_APPS = 1"

definition register_diag_id ::
    "u8 \<Rightarrow> u8 list option \<Rightarrow> u8 \<Rightarrow> 'z cntl_state_scheme \<Rightarrow> int \<times> 'z cntl_state_scheme" where
  "register_diag_id diag_id name n s =
     (case name of
        None \<Rightarrow> (- EINVAL, s)
      | Some name \<Rightarrow>
          if n = 0 \<or> diag_id = 0 then (- EINVAL, s)
          else case malloc (24 + unat n) s of
            (None, s) \<Rightarrow> (- ENOMEM, s)
          | (Some _, s) \<Rightarrow>
              (0, s\<lparr>diag_ids := diag_ids s @
                 [\<lparr>di_info_len = 2 + n, di_diag_id = diag_id, di_name_len = n,
                   di_name = strncpy0 name (unat n)\<rparr>]\<rparr>))"

definition find_diag_id :: "u8 list \<Rightarrow> 'z cntl_state_scheme \<Rightarrow> u32 option" where
  "find_diag_id name s =
     map_option (\<lambda>i. ucast (di_diag_id (diag_ids s ! i)))
       (first_index (\<lambda>e. c_string (di_name e) = name) (diag_ids s))"

definition diag_id_exists :: "u32 \<Rightarrow> 'z cntl_state_scheme \<Rightarrow> bool" where
  "diag_id_exists diag_id s \<longleftrightarrow> list_ex (\<lambda>e. diag_id = ucast (di_diag_id e)) (diag_ids s)"

text \<open>
  The offset of the name in the packet; version 2 puts a feature mask before it when the
  peripheral has negotiated that. \<open>len\<close> is what was read, not the length of the packet.
\<close>

definition diag_id_name_at :: "peripheral \<Rightarrow> mem \<Rightarrow> nat \<Rightarrow> u32 \<Rightarrow> (nat option) res" where
  "diag_id_name_at perif pkt len version =
     (if p_features perif AND FEATURE_DIAG_ID_FEATURE_MASK \<noteq> 0 \<and> version \<ge> 2 then
        if len < 28 then Inr None
        else andthen (rd32 pkt 16) (\<lambda>feature_len. Inr (Some (20 + unat feature_len)))
      else if len < 16 then Inr None
      else Inr (Some 16))"

definition diag_id_response :: "u32 \<Rightarrow> u8 list \<Rightarrow> nat \<Rightarrow> u8 list" where
  "diag_id_response diag_id name n =
     le32 CNTL_CMD_DIAG_ID @ le32 (of_nat (8 + n)) @ le32 1 @ le32 diag_id @ strncpy0 name n"

definition diag_cntl_process_diag_id ::
    "perif_id \<Rightarrow> mem \<Rightarrow> nat \<Rightarrow> 'z cntl_state_scheme \<Rightarrow> (int \<times> 'z cntl_state_scheme) res" where
  "diag_cntl_process_diag_id p pkt len s =
     andthen (rd32 pkt 8) (\<lambda>version.
     andthen (deref (perifs s p)) (\<lambda>perif.
     andthen (diag_id_name_at perif pkt len version) (\<lambda>at.
     case at of
       None \<Rightarrow> Inr (- EINVAL, s)
     | Some at \<Rightarrow>
         andthen (cstr pkt at) (\<lambda>name.
         let n = of_nat (length name + 1) :: u8;
             answer = (\<lambda>diag_id s.
               andthen (queue_push (PerifCntlq p) (diag_id_response diag_id name (unat n))
                         (s\<lparr>diag_id_static := diag_id\<rparr>)) (\<lambda>s. Inr (0, s)))
         in case find_diag_id name s of
              Some diag_id \<Rightarrow> answer diag_id s
            | None \<Rightarrow>
                andthen (if version \<ge> 3 then andthen (rd32 pkt 12) (\<lambda>diag_id. Inr (diag_id, s))
                         else Inr (diag_id_static s + 1, s\<lparr>diag_id_static := diag_id_static s + 1\<rparr>))
                  (\<lambda>(diag_id, s).
                if diag_id_exists diag_id s then Inr (- EINVAL, s)
                else case register_diag_id (ucast diag_id) (Some name) n s of
                       (ret, s) \<Rightarrow> if ret \<noteq> 0 then Inr (- EINVAL, s) else answer diag_id s)))))"

section \<open>Receiving\<close>

text \<open>
  \<open>n\<close> bytes were read into the buffer \<open>rb\<close>. A packet is handled when its header and the length in it
  lie in those bytes; its handler sees the rest of the buffer.
\<close>

definition diag_cntl_handle ::
    "perif_id \<Rightarrow> u32 \<Rightarrow> mem \<Rightarrow> nat \<Rightarrow> 'z cntl_state_scheme \<Rightarrow> (int \<times> 'z cntl_state_scheme) res" where
  "diag_cntl_handle p cmd pkt n s =
     (if cmd = CNTL_CMD_REGISTER then diag_cntl_register p pkt s
      else if cmd = CNTL_CMD_FEATURE_MASK then diag_cntl_feature_mask p pkt s
      else if cmd = CNTL_CMD_DIAG_ID then diag_cntl_process_diag_id p pkt n s
      else if cmd = CNTL_CMD_DEREGISTER then diag_cntl_deregister p pkt s
      else Inr (0, s))"

function diag_cntl_recv_from ::
    "perif_id \<Rightarrow> mem \<Rightarrow> nat \<Rightarrow> nat \<Rightarrow> 'z cntl_state_scheme \<Rightarrow> (int \<times> 'z cntl_state_scheme) res" where
  "diag_cntl_recv_from p rb n offset s =
     (if offset + 8 > n then Inr (0, s)
      else
        andthen (rd32 rb offset) (\<lambda>cmd.
        andthen (rd32 rb (offset + 4)) (\<lambda>len.
        if offset + 8 + unat len > n then Inr (0, s)
        else
          andthen (diag_cntl_handle p cmd (mem_drop offset rb) n s) (\<lambda>(_, s).
            diag_cntl_recv_from p rb n (offset + 8 + unat len) s))))"
  by pat_completeness auto
termination
  by (relation "measure (\<lambda>(_, _, n, offset, _). n - offset)") auto

declare diag_cntl_recv_from.simps [simp del]

definition diag_cntl_recv :: "perif_id \<Rightarrow> mem \<Rightarrow> nat \<Rightarrow> 'z cntl_state_scheme \<Rightarrow> (int \<times> 'z cntl_state_scheme) res" where
  "diag_cntl_recv p rb n s = diag_cntl_recv_from p rb n 0 s"

section \<open>Registration: what a packet does to the list of commands\<close>

definition pk16 :: "mem \<Rightarrow> nat \<Rightarrow> u16" where
  "pk16 m o1 = u16_of (byte m o1) (byte m (o1 + 1))"

lemma rd16_ok: "o1 + 1 < cap m \<Longrightarrow> rd16 m o1 = Inr (pk16 m o1)"
  by (simp add: rd16_def pk16_def)

text \<open>The command of entry \<open>i\<close>, for entries of \<open>stride\<close> bytes from offset \<open>base\<close>.\<close>

definition pkt_cmd :: "perif_id \<Rightarrow> mem \<Rightarrow> nat \<Rightarrow> nat \<Rightarrow> nat \<Rightarrow> diag_cmd" where
  "pkt_cmd p pkt base stride i =
     (let code = cmd_code (pk16 pkt 12) (pk16 pkt 14) in
      \<lparr>dc_first = cmd_key code (pk16 pkt 14) (pk16 pkt (base + stride * i)),
       dc_last = cmd_key code (pk16 pkt 14) (pk16 pkt (base + stride * i + 2)),
       dc_peripheral = Some p, dc_cb = None\<rparr>)"

lemma register_ranges_ok:
  "mem_ok s \<Longrightarrow> 20 + 8 * (i + n) \<le> cap pkt \<Longrightarrow>
   register_ranges p pkt i n s =
     Inr (0, s\<lparr>alloc_no := alloc_no s + n, diag_cmds := diag_cmds s @ map (pkt_cmd p pkt 20 8) [i..<i + n]\<rparr>)"
proof (induction n arbitrary: i s)
  case 0
  then show ?case by simp
next
  case (Suc n)
  let ?s = "s\<lparr>alloc_no := Suc (alloc_no s), diag_cmds := diag_cmds s @ [pkt_cmd p pkt 20 8 i]\<rparr>"
  have "mem_ok ?s" using Suc.prems(1) by (simp add: mem_ok_def)
  from Suc.IH [OF this, of "i + 1"] Suc.prems(2) have
    "register_ranges p pkt (i + 1) n ?s = Inr (0, s\<lparr>alloc_no := alloc_no s + Suc n,
       diag_cmds := diag_cmds s @ map (pkt_cmd p pkt 20 8) [i..<i + Suc n]\<rparr>)"
    by (simp add: upt_conv_Cons del: upt_Suc)
  moreover have "register_ranges p pkt i (Suc n) s = register_ranges p pkt (i + 1) n ?s"
    using Suc.prems by (simp add: rd16_ok malloc_ok pkt_cmd_def Let_def)
  ultimately show ?case by simp
qed

lemma register_ok:
  assumes "mem_ok s" and "20 + 8 * unat (pk16 pkt 16) \<le> cap pkt"
  shows "diag_cntl_register p pkt s =
    Inr (0, s\<lparr>alloc_no := alloc_no s + unat (pk16 pkt 16),
              diag_cmds := diag_cmds s @ map (pkt_cmd p pkt 20 8) [0..<unat (pk16 pkt 16)]\<rparr>)"
  using register_ranges_ok [OF assms(1), of 0 "unat (pk16 pkt 16)" pkt p] assms(2)
  by (simp add: diag_cntl_register_def rd16_ok)

text \<open>Nothing ties the number of entries to the packet: with too many, the buffer is overrun.\<close>

lemma register_ranges_overrun:
  "mem_ok s \<Longrightarrow> 20 + 8 * i \<le> cap pkt \<Longrightarrow> cap pkt < 20 + 8 * (i + n) - 4 \<Longrightarrow> 0 < n \<Longrightarrow>
   register_ranges p pkt i n s = Inl OobRead"
proof (induction n arbitrary: i s)
  case 0
  then show ?case by simp
next
  case (Suc n)
  have rd: "rd16 pkt 12 = Inr (pk16 pkt 12)" "rd16 pkt 14 = Inr (pk16 pkt 14)"
    using Suc.prems(2) by (simp_all add: rd16_ok)
  show ?case
  proof (cases "20 + 8 * i + 3 < cap pkt")
    case True
    let ?s = "s\<lparr>alloc_no := Suc (alloc_no s), diag_cmds := diag_cmds s @ [pkt_cmd p pkt 20 8 i]\<rparr>"
    have step: "register_ranges p pkt i (Suc n) s = register_ranges p pkt (i + 1) n ?s"
      using True Suc.prems(1) rd by (simp add: rd16_ok malloc_ok pkt_cmd_def Let_def)
    have ok: "mem_ok ?s" using Suc.prems(1) by (simp add: mem_ok_def)
    show ?thesis
    proof (cases "20 + 8 * (i + 1) \<le> cap pkt")
      case True
      with Suc.IH [OF ok, of "i + 1"] Suc.prems(3) step show ?thesis by (cases n) auto
    next
      case False
      then obtain k where n: "n = Suc k" using Suc.prems(3) \<open>20 + 8 * i + 3 < cap pkt\<close> by (cases n) auto
      have "rd16 pkt (20 + 8 * (i + 1)) = Inl OobRead" using False by (simp add: rd16_def)
      then show ?thesis using step n rd by simp
    qed
  next
    case False
    then have "rd16 pkt (20 + 8 * i + 2) = Inl OobRead" by (simp add: rd16_def)
    then show ?thesis using rd by (cases "rd16 pkt (20 + 8 * i)") (auto simp: rd16_def split: if_splits)
  qed
qed

text \<open>Deregistering removes the peripheral's commands with the keys of the packet.\<close>

definition pkt_keys :: "mem \<Rightarrow> nat \<Rightarrow> nat \<Rightarrow> nat list \<Rightarrow> (u32 \<times> u32) set" where
  "pkt_keys pkt base stride is =
     (\<lambda>i. (dc_first (pkt_cmd 0 pkt base stride i), dc_last (pkt_cmd 0 pkt base stride i))) ` set is"

definition without_keys :: "perif_id \<Rightarrow> (u32 \<times> u32) set \<Rightarrow> diag_cmd list \<Rightarrow> diag_cmd list" where
  "without_keys p K cmds = filter (\<lambda>dc. \<not> (dc_peripheral dc = Some p \<and> (dc_first dc, dc_last dc) \<in> K)) cmds"

lemma deregister_ranges_ok:
  "18 + 4 * (i + n) \<le> cap pkt \<Longrightarrow>
   deregister_ranges p pkt i n s =
     Inr (0, s\<lparr>diag_cmds := without_keys p (pkt_keys pkt 18 4 [i..<i + n]) (diag_cmds s)\<rparr>)"
proof (induction n arbitrary: i s)
  case 0
  then show ?case by (simp add: without_keys_def pkt_keys_def)
next
  case (Suc n)
  let ?c = "pkt_cmd 0 pkt 18 4 i"
  let ?s = "s\<lparr>diag_cmds := filter (\<lambda>dc. \<not> same_cmd p (dc_first ?c) (dc_last ?c) dc) (diag_cmds s)\<rparr>"
  have "deregister_ranges p pkt i (Suc n) s = deregister_ranges p pkt (i + 1) n ?s"
    using Suc.prems by (simp add: rd16_ok pkt_cmd_def Let_def)
  moreover have "pkt_keys pkt 18 4 [i..<i + Suc n] =
      insert (dc_first ?c, dc_last ?c) (pkt_keys pkt 18 4 [i + 1..<i + 1 + n])"
    by (simp add: pkt_keys_def upt_conv_Cons del: upt_Suc)
  then have "without_keys p (pkt_keys pkt 18 4 [i + 1..<i + 1 + n]) (diag_cmds ?s) =
      without_keys p (pkt_keys pkt 18 4 [i..<i + Suc n]) (diag_cmds s)"
    by (auto simp: without_keys_def same_cmd_def intro!: filter_cong)
  ultimately show ?case using Suc.IH [of "i + 1" ?s] Suc.prems by simp
qed

lemma deregister_ok:
  assumes "18 + 4 * unat (pk16 pkt 16) \<le> cap pkt"
  shows "diag_cntl_deregister p pkt s =
    Inr (0, s\<lparr>diag_cmds := without_keys p (pkt_keys pkt 18 4 [0..<unat (pk16 pkt 16)]) (diag_cmds s)\<rparr>)"
  using deregister_ranges_ok [of 0 "unat (pk16 pkt 16)" pkt p s] assms
  by (simp add: diag_cntl_deregister_def rd16_ok)

text \<open>
  Taking back what was registered: a deregistration with the same keys as a registration
  removes the new commands, and every older one of the peripheral with one of these keys.
\<close>

lemma without_keys_fresh:
  "\<forall>dc \<in> set cmds. dc_peripheral dc = Some p \<longrightarrow> (dc_first dc, dc_last dc) \<notin> K \<Longrightarrow> without_keys p K cmds = cmds"
  by (auto simp: without_keys_def intro: filter_True)

lemma without_keys_new:
  "\<forall>dc \<in> set new. dc_peripheral dc = Some p \<and> (dc_first dc, dc_last dc) \<in> K \<Longrightarrow>
   without_keys p K (cmds @ new) = without_keys p K cmds"
  by (simp add: without_keys_def)

lemma register_deregister:
  assumes ok: "mem_ok s" and reg: "20 + 8 * unat (pk16 r 16) \<le> cap r" and dereg: "18 + 4 * unat (pk16 d 16) \<le> cap d"
    and same: "pkt_keys d 18 4 [0..<unat (pk16 d 16)] = pkt_keys r 20 8 [0..<unat (pk16 r 16)]"
  shows "\<exists>s1 s2. diag_cntl_register p r s = Inr (0, s1) \<and> diag_cntl_deregister p d s1 = Inr (0, s2) \<and>
    diag_cmds s2 = without_keys p (pkt_keys r 20 8 [0..<unat (pk16 r 16)]) (diag_cmds s)"
proof -
  let ?n = "unat (pk16 r 16)" and ?K = "pkt_keys r 20 8 [0..<unat (pk16 r 16)]"
  let ?s1 = "s\<lparr>alloc_no := alloc_no s + ?n, diag_cmds := diag_cmds s @ map (pkt_cmd p r 20 8) [0..<?n]\<rparr>"
  have "without_keys p ?K (diag_cmds s @ map (pkt_cmd p r 20 8) [0..<?n]) = without_keys p ?K (diag_cmds s)"
    by (rule without_keys_new) (auto simp: pkt_keys_def pkt_cmd_def Let_def)
  then show ?thesis
    using register_ok [OF ok reg, of p] deregister_ok [OF dereg, of p ?s1] same by simp
qed

section \<open>Splitting the input into packets\<close>

definition cntl_pkt :: "u32 \<Rightarrow> u8 list \<Rightarrow> u8 list" where
  "cntl_pkt cmd body = le32 cmd @ le32 (of_nat (length body)) @ body"

lemma length_cntl_pkt [simp]: "length (cntl_pkt cmd body) = 8 + length body"
  by (simp add: cntl_pkt_def)

text \<open>Where each packet starts, with its command.\<close>

fun pkt_starts :: "nat \<Rightarrow> (u32 \<times> u8 list) list \<Rightarrow> (nat \<times> u32) list" where
  "pkt_starts off [] = []"
| "pkt_starts off ((cmd, body) # ps) = (off, cmd) # pkt_starts (off + 8 + length body) ps"

definition handle_at :: "perif_id \<Rightarrow> mem \<Rightarrow> nat \<Rightarrow> nat \<times> u32 \<Rightarrow> 'z cntl_state_scheme \<Rightarrow> 'z cntl_state_scheme res" where
  "handle_at p rb n = (\<lambda>(off, cmd) s. andthen (diag_cntl_handle p cmd (mem_drop off rb) n s) (\<lambda>(_, s). Inr s))"

text \<open>What may follow the last complete packet: less than a header, or a header and less than it says.\<close>

definition incomplete :: "u8 list \<Rightarrow> bool" where
  "incomplete rest \<longleftrightarrow>
     length rest < 8 \<or> length rest < 8 + unat (u32_of (rest ! 4) (rest ! 5) (rest ! 6) (rest ! 7))"

lemma rd32_at:
  assumes "\<forall>i < 4. byte m (off + i) = le32 w ! i" and "off + 3 < cap m"
  shows "rd32 m off = Inr w"
proof -
  have "byte m off = ucast w" "byte m (off + 1) = ucast (drop_bit 8 w)"
    "byte m (off + 2) = ucast (drop_bit 16 w)" "byte m (off + 3) = ucast (drop_bit 24 w)"
    using assms(1) [rule_format, of 0] assms(1) [rule_format, of 1] assms(1) [rule_format, of 2]
      assms(1) [rule_format, of 3]
    by (simp_all add: le32_def eval_nat_numeral)
  then show ?thesis using assms(2) by (simp add: rd32_def u32_of_le32)
qed

lemma diag_cntl_recv_from_packets:
  fixes s :: "'z cntl_state_scheme"
  shows "drop off xs = concat (map (\<lambda>(c, b). cntl_pkt c b) ps) @ rest \<Longrightarrow> off \<le> length xs \<Longrightarrow> incomplete rest \<Longrightarrow>
   length xs < 2 ^ 32 \<Longrightarrow> length xs \<le> cp \<Longrightarrow>
   diag_cntl_recv_from p (mem_msg xs cp stale) (length xs) off s =
     andthen (fold_res (handle_at p (mem_msg xs cp stale) (length xs)) (pkt_starts off ps) s) (\<lambda>s. Inr (0, s))"
proof (induction ps arbitrary: off s)
  case Nil
  then have rest: "drop off xs = rest" by simp
  then have len: "length xs = off + length rest" using Nil.prems(2) by auto
  have nth: "byte (mem_msg xs cp stale) (off + i) = rest ! i" if "i < length rest" for i
    using that len Nil.prems(2) nth_drop [of off xs i] unfolding rest by simp
  show ?case
  proof (cases "length rest < 8")
    case True
    then show ?thesis by (subst diag_cntl_recv_from.simps) (simp add: len)
  next
    case False
    then have "\<exists>c. rd32 (mem_msg xs cp stale) off = Inr c"
      "rd32 (mem_msg xs cp stale) (off + 4) = Inr (u32_of (rest ! 4) (rest ! 5) (rest ! 6) (rest ! 7))"
      using nth [of 4] nth [of 5] nth [of 6] nth [of 7] Nil.prems(5) len by (simp_all add: rd32_def add_ac)
    with False Nil.prems(3) show ?thesis
      by (subst diag_cntl_recv_from.simps) (auto simp: incomplete_def len)
  qed
next
  case (Cons pk ps)
  obtain c b where pk: "pk = (c, b)" by (cases pk)
  let ?m = "mem_msg xs cp stale" and ?off = "off + 8 + length b"
  have tl: "drop off xs = le32 c @ le32 (of_nat (length b)) @ b @ concat (map (\<lambda>(c, b). cntl_pkt c b) ps) @ rest"
    using Cons.prems(1) pk by (simp add: cntl_pkt_def)
  have len: "length xs = off + (8 + length b + length (concat (map (\<lambda>(c, b). cntl_pkt c b) ps) @ rest))"
    using arg_cong [OF tl, of length] Cons.prems(2) by simp
  have nth: "byte ?m (off + i) = (le32 c @ le32 (of_nat (length b))) ! i" if "i < 8" for i
  proof -
    have "byte ?m (off + i) = drop off xs ! i" using that len by simp
    also have "\<dots> = (le32 c @ le32 (of_nat (length b))) ! i"
      using that by (subst tl) (auto simp: nth_append)
    finally show ?thesis .
  qed
  have cmd: "rd32 ?m off = Inr c"
    by (rule rd32_at) (use nth len Cons.prems(5) in \<open>auto simp: nth_append\<close>)
  have "byte ?m (off + 4 + i) = le32 (of_nat (length b)) ! i" if "i < 4" for i
    using nth [of "4 + i"] that by (simp add: nth_append add.assoc)
  then have size: "rd32 ?m (off + 4) = Inr (of_nat (length b))"
    by (intro rd32_at) (use len Cons.prems(5) in auto)
  have b: "unat (of_nat (length b) :: u32) = length b"
    using len Cons.prems(4) by (simp add: unat_of_nat take_bit_nat_eq_self)
  have "drop ?off xs = concat (map (\<lambda>(c, b). cntl_pkt c b) ps) @ rest"
    using arg_cong [OF tl, of "drop (8 + length b)"] by (simp add: add.commute add.left_commute)
  from Cons.IH [OF this] Cons.prems len have rest: "\<And>s :: 'z cntl_state_scheme. diag_cntl_recv_from p ?m (length xs) ?off s =
      andthen (fold_res (handle_at p ?m (length xs)) (pkt_starts ?off ps) s) (\<lambda>s. Inr (0, s))" by simp
  show ?case
    using len cmd size b rest pk
    by (subst diag_cntl_recv_from.simps) (cases "diag_cntl_handle p c (mem_drop off ?m) (length xs) s",
        auto simp: handle_at_def)
qed

lemma le32_u32_of: "le32 (u32_of a b c d) = [a, b, c, d]"
proof -
  have high: "\<not> bit (x :: u8) (k + n)" if "8 \<le> k" for x k n
    using bit_imp_le_length [of x "k + n"] that by auto
  show ?thesis
    unfolding le32_def u32_of_def by (auto intro!: bit_word_eqI simp: bit_simps high)
qed

text \<open>Whatever was read is a number of complete packets and an incomplete rest.\<close>

lemma packets_and_rest: "\<exists>ps rest. xs = concat (map (\<lambda>(c, b). cntl_pkt c b) ps) @ rest \<and> incomplete rest"
proof (induction xs rule: length_induct)
  case (1 xs)
  let ?len = "u32_of (xs ! 4) (xs ! 5) (xs ! 6) (xs ! 7)" and ?cmd = "u32_of (xs ! 0) (xs ! 1) (xs ! 2) (xs ! 3)"
  show ?case
  proof (cases "incomplete xs")
    case True
    then show ?thesis by (intro exI [of _ "[]"] exI [of _ xs]) simp
  next
    case False
    let ?b = "take (unat ?len) (drop 8 xs)" and ?t = "drop (8 + unat ?len) xs"
    from False have len: "8 + unat ?len \<le> length xs" by (auto simp: incomplete_def)
    have "length ?t < length xs" using len by simp
    with "1.IH" obtain ps rest where ps: "?t = concat (map (\<lambda>(c, b). cntl_pkt c b) ps) @ rest" "incomplete rest" by blast
    have "length ?b = unat ?len" using len by simp
    moreover have "[xs ! 0, xs ! 1, xs ! 2, xs ! 3, xs ! 4, xs ! 5, xs ! 6, xs ! 7] = take 8 xs"
      using len by (intro nth_equalityI) (auto simp: less_Suc_eq numeral_eq_Suc)
    ultimately have "cntl_pkt ?cmd ?b = take 8 xs @ ?b"
      by (simp add: cntl_pkt_def le32_u32_of del: length_take)
    then have "cntl_pkt ?cmd ?b = take (8 + unat ?len) xs" by (simp add: take_add)
    then have "xs = cntl_pkt ?cmd ?b @ ?t" by simp
    with ps show ?thesis by (intro exI [of _ "(?cmd, ?b) # ps"] exI [of _ rest]) simp
  qed
qed

text \<open>
  What was read is handled packet by packet, in order; an incomplete rest is dropped.
\<close>

lemma diag_cntl_recv_packets:
  assumes "xs = concat (map (\<lambda>(c, b). cntl_pkt c b) ps) @ rest" and "incomplete rest"
    and "length xs < 2 ^ 32" and "length xs \<le> cp"
  shows "diag_cntl_recv p (mem_msg xs cp stale) (length xs) s =
    andthen (fold_res (handle_at p (mem_msg xs cp stale) (length xs)) (pkt_starts 0 ps) s) (\<lambda>s. Inr (0, s))"
  unfolding diag_cntl_recv_def
  by (rule diag_cntl_recv_from_packets) (use assms in auto)

section \<open>What a peripheral is sent\<close>

lemma mask_frame [simp]:
  "log_mask (pushed q bs f s) = log_mask s" "msg_mask (pushed q bs f s) = msg_mask s"
  "event_mask (pushed q bs f s) = event_mask s" "event_max_num_bits (pushed q bs f s) = event_max_num_bits s"
  "msg_bt_mask (pushed q bs f s) = msg_bt_mask s"
  "log_mask (bump k s) = log_mask s" "msg_mask (bump k s) = msg_mask s"
  "event_mask (bump k s) = event_mask s" "event_max_num_bits (bump k s) = event_max_num_bits s"
  "msg_bt_mask (bump k s) = msg_bt_mask s"
  by (auto simp: pushed_def enqueue_def bump_def watch_flow_inc_def split: option.splits)

lemma perif_frame [simp]:
  "perifs (pushed q bs f s) = perifs s" "perifs (bump k s) = perifs s"
  "peripherals (pushed q bs f s) = peripherals s" "peripherals (bump k s) = peripherals s"
  "diag_cmds (pushed q bs f s) = diag_cmds s" "diag_cmds (bump k s) = diag_cmds s"
  "diag_ids (pushed q bs f s) = diag_ids s" "diag_ids (bump k s) = diag_ids s"
  "diag_id_static (pushed q bs f s) = diag_id_static s" "diag_id_static (bump k s) = diag_id_static s"
  "cntl_state.more (pushed q bs f s) = cntl_state.more s" "cntl_state.more (bump k s) = cntl_state.more s"
  by (auto simp: pushed_def enqueue_def bump_def watch_flow_inc_def split: option.splits)

lemma log_view_cong: "log_mask s = log_mask t \<Longrightarrow> log_view s = log_view t"
  by (simp add: log_view_def fun_eq_iff)

lemma log_masks_wf_cong: "log_mask s = log_mask t \<Longrightarrow> log_masks_wf s = log_masks_wf t"
  by (simp add: log_masks_wf_def)

lemma queue_push_ok: "mem_ok s \<Longrightarrow> queue_push q bs s = Inr (pushed q bs None (bump 1 s))"
  by (simp add: queue_push_def queue_push_flow_ok)

lemma alloca_bump: "alloca n s = (fresh_bytes s n, bump 1 s)"
  by (simp add: alloca_def bump_def)

lemma bump_bump [simp]: "bump j (bump k s) = bump (k + j) s"
  by (simp add: bump_def add.assoc)

lemma store_overlay:
  "length bytes = length hdr + length bits \<Longrightarrow> store (overlay hdr bytes) (length hdr) bits = Inr (hdr @ bits)"
  by (simp add: overlay_def store_ok)

text \<open>The log mask packet: the mask in force for the equipment id, or a bare status.\<close>

definition log_mask_packet :: "'z cntl_state_scheme \<Rightarrow> u32 \<Rightarrow> u8 list" where
  "log_mask_packet s e =
     (let status = diag_get_log_mask_status s;
          (id, n, bits) = (if status = DIAG_CTRL_MASK_VALID
            then (ucast e, case if unat e < MAX_EQUIP_ID then log_view s (unat e) else None of
                             Some v \<Rightarrow> v | None \<Rightarrow> (0, []))
            else (0, 0, []))
      in le32 CNTL_CMD_LOG_MASK @ le32 (of_nat (11 + length bits)) @ [1, status, id] @ le32 n @
         le32 (of_nat (length bits)) @ bits)"

definition send_cost :: "'z cntl_state_scheme \<Rightarrow> u8 \<Rightarrow> bool \<Rightarrow> nat" where
  "send_cost s status found = (if status = DIAG_CTRL_MASK_VALID \<and> found then 3 else 2)"

lemma get_log_mask_unknown:
  assumes "log_masks_wf s" and "\<not> unat e < MAX_EQUIP_ID"
  shows "diag_cmd_get_log_mask e n p z s = Inr (1, n, p, z, s)"
proof -
  from assms(1) obtain tbl where tbl: "mi_ptr (log_mask s) = Obj tbl" "log_table_wf tbl"
    by (auto simp: log_masks_wf_def)
  have "ucast (lm_equip_id m) \<noteq> e" if "m \<in> set tbl" for m
  proof -
    from that tbl(2) obtain i where i: "i < MAX_EQUIP_ID" "lm_equip_id m = of_nat i"
      by (auto simp: in_set_conv_nth log_table_wf_def log_item_wf_def)
    then have "unat (ucast (lm_equip_id m) :: u32) = i"
      by (simp add: unsigned_ucast_eq take_bit_nat_eq_self unat_of_nat MAX_EQUIP_ID_def)
    with i(1) assms(2) show ?thesis by auto
  qed
  then have "first_index (\<lambda>m. ucast (lm_equip_id m) = e) tbl = None" by (simp add: first_index_None)
  with tbl show ?thesis by (simp add: diag_cmd_get_log_mask_def)
qed

lemma send_log_mask_ok:
  assumes wf: "log_masks_wf s" and ok: "mem_ok s" and perif: "perifs s p = Obj perif" and fd: "p_cntl_fd perif \<noteq> -1"
  shows "diag_cntl_send_log_mask p e s =
    Inr (pushed (PerifCntlq p) (log_mask_packet s e) None
      (bump (send_cost s (diag_get_log_mask_status s) (unat e < MAX_EQUIP_ID)) s))"
proof (cases "diag_get_log_mask_status s = DIAG_CTRL_MASK_VALID \<and> unat e < MAX_EQUIP_ID")
  case True
  from get_log_mask_ok [OF wf ok, of e 0 None 0] True obtain n bits where
    get: "log_view s (unat e) = Some (n, bits)"
      "diag_cmd_get_log_mask e 0 None 0 s = Inr (0, n, Some bits, bits_to_bytes32 n, bump 1 s)"
      "length bits = unat (bits_to_bytes32 n)"
    by (auto simp: bump_def)
  have size: "bits_to_bytes32 n = of_nat (length bits)" "unat (of_nat (length bits) :: u32) = length bits"
    unfolding get(3) by simp_all
  have "store (overlay hdr (fresh_bytes t (19 + length bits))) 19 bits = Inr (hdr @ bits)"
    if "length hdr = 19" for hdr and t :: "'a cntl_state_scheme"
    using store_overlay [of "fresh_bytes t (19 + length bits)" hdr bits] that by simp
  then show ?thesis
    using True perif fd get(1,2) ok
    by (simp add: diag_cntl_send_log_mask_def alloca_bump queue_push_ok log_mask_packet_def send_cost_def size
        numeral_3_eq_3)
next
  case False
  have "overlay hdr (fresh_bytes t 19) = hdr" if "length hdr = 19" for hdr and t :: "'a cntl_state_scheme"
    using that by (simp add: overlay_def)
  then show ?thesis
    using False perif fd ok get_log_mask_unknown [OF wf, of e 0 None 0]
    by (auto simp: diag_cntl_send_log_mask_def alloca_bump queue_push_ok log_mask_packet_def send_cost_def Let_def
        numeral_2_eq_2)
qed

lemma send_log_mask_skip:
  "perifs s p = Obj perif \<Longrightarrow> p_cntl_fd perif = -1 \<Longrightarrow> diag_cntl_send_log_mask p e s = Inr s"
  by (simp add: diag_cntl_send_log_mask_def)

text \<open>The event mask packet, under the invariant of the event mask.\<close>

definition event_bits :: "'z mask_state_scheme \<Rightarrow> u8 list" where
  "event_bits s = map (\<lambda>i. the (event_view s i)) [0..<bits_to_bytes16 (event_max_num_bits s)]"

definition event_mask_packet :: "'z mask_state_scheme \<Rightarrow> u8 list" where
  "event_mask_packet s =
     (let status = diag_get_event_mask_status s;
          config = (if status = DIAG_CTRL_MASK_ALL_ENABLED \<or> status = DIAG_CTRL_MASK_VALID then 1 else 0);
          bits = (if status = DIAG_CTRL_MASK_VALID then event_bits s else [])
      in le32 CNTL_CMD_EVENT_MASK @ le32 (of_nat (7 + length bits)) @ [1, status, config] @
         le32 (of_nat (length bits)) @ bits)"

lemma bits_to_bytes16_bound: "bits_to_bytes16 n < 8193"
proof -
  have "unat n < 2 ^ LENGTH(16)" by (rule unsigned_less)
  then show ?thesis by (simp add: bits_to_bytes16_def)
qed

lemma send_event_mask_ok:
  assumes wf: "event_masks_wf s" and ok: "mem_ok s" and perif: "perifs s p = Obj perif" and fd: "p_cntl_fd perif \<noteq> -1"
  shows "diag_cntl_send_event_mask p s =
    Inr (pushed (PerifCntlq p) (event_mask_packet s) None
      (bump (send_cost s (diag_get_event_mask_status s) True) s))"
proof (cases "diag_get_event_mask_status s = DIAG_CTRL_MASK_VALID")
  case True
  let ?k = "bits_to_bytes16 (event_max_num_bits s)"
  from get_event_mask_ok [OF wf ok order_refl, of None] obtain bits where
    get: "diag_cmd_get_event_mask (event_max_num_bits s) None s = Inr (0, Some bits, bump 1 s)"
      "length bits = ?k" "\<forall>i < ?k. event_view s i = Some (bits ! i)"
    by (auto simp: bump_def)
  have bits: "event_bits s = bits" using get(2,3) by (simp add: event_bits_def list_eq_iff_nth_eq)
  have size: "unat (of_nat (length bits) :: u16) = length bits"
    "ucast (of_nat (length bits) :: u16) = (of_nat (length bits) :: u32)"
    using bits_to_bytes16_bound [of "event_max_num_bits s"] get(2)
    by (simp_all add: unat_of_nat take_bit_nat_eq_self unsigned_of_nat)
  have "store (overlay hdr (fresh_bytes t (15 + length bits))) 15 bits = Inr (hdr @ bits)"
    if "length hdr = 15" for hdr and t :: "'a cntl_state_scheme"
    using store_overlay [of "fresh_bytes t (15 + length bits)" hdr bits] that by simp
  then show ?thesis
    using True perif fd get(1) ok
    by (simp add: diag_cntl_send_event_mask_def alloca_bump queue_push_ok event_mask_packet_def send_cost_def
        size bits numeral_3_eq_3 flip: get(2))
next
  case False
  have "overlay hdr (fresh_bytes t 15) = hdr" if "length hdr = 15" for hdr and t :: "'a cntl_state_scheme"
    using that by (simp add: overlay_def)
  then show ?thesis
    using False perif fd ok
    by (auto simp: diag_cntl_send_event_mask_def alloca_bump queue_push_ok event_mask_packet_def send_cost_def Let_def
        numeral_2_eq_2)
qed

text \<open>
  The message mask packet for a range that was found, when the object still has all words
  of the build: the words of the entry from its first id to its last one of the build.
\<close>

definition msg_mask_packet :: "u8 \<Rightarrow> ssid_range \<Rightarrow> u32 list \<Rightarrow> u8 list" where
  "msg_mask_packet status r ws =
     le32 CNTL_CMD_MSG_MASK @ le32 (of_nat (11 + 4 * length ws)) @ [1, status, 0] @
     le16 (ssid_first r) @ le16 (ssid_last r) @ le32 (of_nat (length ws)) @ concat (map le32 ws)"

lemma send_msg_mask_found:
  assumes ok: "mem_ok s" and perif: "perifs s p = Obj perif" and fd: "p_cntl_fd perif \<noteq> -1"
    and st: "diag_get_msg_mask_status s = DIAG_CTRL_MASK_VALID"
    and get: "diag_cmd_get_msg_mask rng None s = Inr (0, r, Some ws, bump 1 s)"
    and r: "msg_request_ok r" and ws: "msg_count r \<le> length ws"
  shows "diag_cntl_send_msg_mask p rng s =
    Inr (Obj r, pushed (PerifCntlq p) (msg_mask_packet DIAG_CTRL_MASK_VALID r (take (msg_count r) ws)) None (bump 3 s))"
proof -
  let ?n = "ucast (ssid_last r) - ucast (ssid_first r) + 1 :: u32" and ?c = "msg_count r"
  let ?bits = "concat (map le32 (take ?c ws))"
  have n: "unat ?n = ?c" "?c \<le> 200" using msg_asked [OF r] by simp_all
  have n': "?n = of_nat ?c" unfolding n(1) [symmetric] by simp
  have size: "unat (of_nat ?c * 4 :: u32) = 4 * ?c" "unat (of_nat ?c :: u32) = ?c"
    using n(2) by (simp_all add: unat_word_ariths unat_of_nat take_bit_nat_eq_self)
  have bits: "take (4 * ?c) (concat (map le32 ws)) = ?bits"
  proof -
    have "concat (map le32 ws) = ?bits @ concat (map le32 (drop ?c ws))"
      by (metis append_take_drop_id concat_append map_append)
    moreover have "length ?bits = 4 * ?c" using ws by (simp add: min_def)
    ultimately show ?thesis by simp
  qed
  have "store (overlay hdr (fresh_bytes t (19 + 4 * ?c))) 19 ?bits = Inr (hdr @ ?bits)"
    if "length hdr = 19" for hdr and t :: "'a cntl_state_scheme"
    using store_overlay [of "fresh_bytes t (19 + 4 * ?c)" hdr ?bits] that ws by (simp add: min_def)
  then show ?thesis
    using perif fd st get ok ws bits
    by (simp add: diag_cntl_send_msg_mask_def alloca_bump queue_push_ok msg_mask_packet_def n' size min_def
        numeral_3_eq_3 mult.commute)
qed

text \<open>
  When all masks are enabled, the range is not optional: without one, the packet is built
  from a null pointer.
\<close>

lemma send_msg_mask_no_range:
  assumes "perifs s p = Obj perif" and "p_cntl_fd perif \<noteq> -1" and "msg_masks_wf s"
    and "diag_get_msg_mask_status s = DIAG_CTRL_MASK_ALL_ENABLED"
  shows "diag_cntl_send_msg_mask p Null s = Inl NullDeref"
proof -
  from assms(3) obtain tbl where "mi_ptr (msg_mask s) = Obj tbl" by (auto simp: msg_masks_wf_def)
  then have "diag_cmd_get_msg_mask Null None s = Inl NullDeref" by (simp add: diag_cmd_get_msg_mask_def)
  with assms show ?thesis by (simp add: diag_cntl_send_msg_mask_def mask_status_defs)
qed

section \<open>The table of ids\<close>

text \<open>A name that can be stored: no zero in it, and short enough for its length to fit a byte.\<close>

definition name_ok :: "u8 list \<Rightarrow> bool" where
  "name_ok name \<longleftrightarrow> 0 \<notin> set name \<and> length name < 255"

definition diag_id_entry_for :: "u8 \<Rightarrow> u8 list \<Rightarrow> diag_id_entry" where
  "diag_id_entry_for d name =
     \<lparr>di_info_len = 2 + of_nat (length name + 1), di_diag_id = d, di_name_len = of_nat (length name + 1),
      di_name = name @ [0]\<rparr>"

definition diag_ids_wf :: "'z cntl_state_scheme \<Rightarrow> bool" where
  "diag_ids_wf s \<longleftrightarrow> distinct (map di_diag_id (diag_ids s)) \<and> 0 \<notin> di_diag_id ` set (diag_ids s) \<and>
     distinct (map (c_string \<circ> di_name) (diag_ids s))"

lemma c_string_zero: "0 \<notin> set name \<Longrightarrow> c_string (name @ [0]) = name"
  by (induction name) (auto simp: c_string_def)

lemma name_len:
  assumes "name_ok name"
  shows "unat (of_nat (length name + 1) :: u8) = length name + 1" "(of_nat (length name + 1) :: u8) \<noteq> 0"
    "strncpy0 name (length name + 1) = name @ [0]"
proof -
  show u: "unat (of_nat (length name + 1) :: u8) = length name + 1"
    using assms by (simp add: name_ok_def unat_of_nat take_bit_nat_eq_self del: of_nat_Suc of_nat_add)
  show "(of_nat (length name + 1) :: u8) \<noteq> 0" using u by (metis add_gr_0 less_numeral_extra(1,3) unat_0)
  show "strncpy0 name (length name + 1) = name @ [0]" by (simp add: strncpy0_def)
qed

lemma register_diag_id_ok:
  assumes "mem_ok s" and "name_ok name" and "d \<noteq> 0"
  shows "register_diag_id d (Some name) (of_nat (length name + 1)) s =
    (0, s\<lparr>alloc_no := Suc (alloc_no s), diag_ids := diag_ids s @ [diag_id_entry_for d name]\<rparr>)"
  using assms name_len [OF assms(2)]
  by (simp add: register_diag_id_def malloc_ok diag_id_entry_for_def del: of_nat_Suc of_nat_add)

lemma find_diag_id_append:
  "find_diag_id name (s\<lparr>diag_ids := es\<rparr>) = map_option (\<lambda>i. ucast (di_diag_id (es ! i)))
     (first_index (\<lambda>e. c_string (di_name e) = name) es)"
  by (simp add: find_diag_id_def)

lemma find_diag_id_None:
  "find_diag_id name s = None \<longleftrightarrow> name \<notin> set (map (c_string \<circ> di_name) (diag_ids s))"
  by (auto simp: find_diag_id_def first_index_None)

lemma diag_id_exists_iff: "diag_id_exists l s \<longleftrightarrow> l \<in> (\<lambda>e. ucast (di_diag_id e)) ` set (diag_ids s)"
  by (auto simp: diag_id_exists_def list_ex_iff)

lemma first_index_append_None:
  "first_index P xs = None \<Longrightarrow> first_index P (xs @ [x]) = (if P x then Some (length xs) else None)"
  by (induction xs) (auto split: if_splits)

lemma narrow_u8:
  assumes "(x :: u32) < 256"
  shows "ucast (ucast x :: u8) = x"
proof (rule bit_word_eqI)
  fix n
  have "take_bit 8 x = x" 
    using assms by (simp add: word_unat_eq_iff unsigned_take_bit_eq take_bit_nat_eq_self word_less_nat_alt)
  then have "bit x n \<Longrightarrow> n < 8" by (metis bit_take_bit_iff)
  then show "bit (ucast (ucast x :: u8) :: u32) n = bit x n" by (auto simp: bit_simps)
qed

text \<open>What a request does: the id of a known name is given again, a new name gets a new entry.\<close>

lemma process_diag_id_known:
  assumes ok: "mem_ok s" and perif: "perifs s p = Obj perif" and v: "rd32 pkt 8 = Inr version"
    and at: "diag_id_name_at perif pkt len version = Inr (Some at)" and name: "cstr pkt at = Inr name"
    and found: "find_diag_id name s = Some d"
  shows "diag_cntl_process_diag_id p pkt len s =
    Inr (0, pushed (PerifCntlq p) (diag_id_response d name (unat (of_nat (length name + 1) :: u8))) None
      (bump 1 (s\<lparr>diag_id_static := d\<rparr>)))"
proof -
  have "mem_ok (s\<lparr>diag_id_static := d\<rparr>)" using ok by (simp add: mem_ok_def)
  then show ?thesis
    using assms by (simp add: diag_cntl_process_diag_id_def queue_push_ok Let_def del: of_nat_Suc of_nat_add)
qed

text \<open>Versions below 3 number the names from a counter; the counter is the last id given.\<close>

lemma process_diag_id_new:
  assumes ok: "mem_ok s" and perif: "perifs s p = Obj perif" and v: "rd32 pkt 8 = Inr version" "version < 3"
    and at: "diag_id_name_at perif pkt len version = Inr (Some at)"
    and name: "cstr pkt at = Inr name" "name_ok name" and unknown: "find_diag_id name s = None"
    and id: "l = diag_id_static s + 1" "0 < l" "l < 256" "\<not> diag_id_exists l s"
  shows "diag_cntl_process_diag_id p pkt len s =
    Inr (0, pushed (PerifCntlq p) (diag_id_response l name (length name + 1)) None
      (bump 2 (s\<lparr>diag_id_static := l, diag_ids := diag_ids s @ [diag_id_entry_for (ucast l) name]\<rparr>)))"
proof -
  let ?s = "s\<lparr>diag_id_static := l\<rparr>"
  have ok': "mem_ok ?s" using ok by (simp add: mem_ok_def)
  have "ucast l \<noteq> (0 :: u8)" using narrow_u8 [OF id(3)] id(2) by (metis ucast_0 word_neq_0_conv)
  note reg = register_diag_id_ok [OF ok' name(2) this]
  have new: "\<not> diag_id_exists l ?s" using id(4) by (simp add: diag_id_exists_def)
  let ?ids = "diag_ids s @ [diag_id_entry_for (ucast l) name]"
  let ?t = "s\<lparr>alloc_no := Suc (alloc_no s), diag_ids := ?ids, diag_id_static := l\<rparr>"
  have "?s\<lparr>alloc_no := Suc (alloc_no ?s), diag_ids := diag_ids ?s @ [diag_id_entry_for (ucast l) name]\<rparr> =
      s\<lparr>alloc_no := Suc (alloc_no s), diag_id_static := l, diag_ids := ?ids\<rparr>"
    by simp
  note reg = reg [unfolded this]
  have "diag_cntl_process_diag_id p pkt len s =
      andthen (queue_push (PerifCntlq p) (diag_id_response l name (length name + 1)) ?t) (\<lambda>s. Inr (0, s))"
    unfolding diag_cntl_process_diag_id_def v(1) andthen_Inr perif deref_simps at option.case name(1) Let_def unknown
    using v(2) [folded not_le] new reg name_len(1) [OF name(2)]
    by (simp add: id(1) [symmetric] del: of_nat_Suc of_nat_add)
  moreover have "mem_ok ?t" using ok by (simp add: mem_ok_def)
  ultimately show ?thesis
    by (simp add: queue_push_ok bump_def pushed_def enqueue_def watch_flow_inc_def)
qed

text \<open>A peripheral of version 3 brings the id with the name.\<close>

lemma process_diag_id_brought:
  assumes ok: "mem_ok s" and perif: "perifs s p = Obj perif" and v: "rd32 pkt 8 = Inr version" "3 \<le> version"
    and at: "diag_id_name_at perif pkt len version = Inr (Some at)"
    and name: "cstr pkt at = Inr name" "name_ok name" and unknown: "find_diag_id name s = None"
    and id: "rd32 pkt 12 = Inr l" "0 < l" "l < 256" "\<not> diag_id_exists l s"
  shows "diag_cntl_process_diag_id p pkt len s =
    Inr (0, pushed (PerifCntlq p) (diag_id_response l name (length name + 1)) None
      (bump 2 (s\<lparr>diag_id_static := l, diag_ids := diag_ids s @ [diag_id_entry_for (ucast l) name]\<rparr>)))"
proof -
  have "ucast l \<noteq> (0 :: u8)" using narrow_u8 [OF id(3)] id(2) by (metis ucast_0 word_neq_0_conv)
  note reg = register_diag_id_ok [OF ok name(2) this]
  let ?t = "s\<lparr>alloc_no := Suc (alloc_no s), diag_ids := diag_ids s @ [diag_id_entry_for (ucast l) name], diag_id_static := l\<rparr>"
  have "diag_cntl_process_diag_id p pkt len s =
      andthen (queue_push (PerifCntlq p) (diag_id_response l name (length name + 1)) ?t) (\<lambda>s. Inr (0, s))"
    unfolding diag_cntl_process_diag_id_def v(1) andthen_Inr perif deref_simps at option.case name(1) Let_def unknown
    using v(2) id(1,4) reg name_len(1) [OF name(2)]
    by (simp del: of_nat_Suc of_nat_add)
  moreover have "mem_ok ?t" using ok by (simp add: mem_ok_def)
  ultimately show ?thesis
    by (simp add: queue_push_ok bump_def pushed_def enqueue_def watch_flow_inc_def)
qed

text \<open>An id that is in the table already is refused; the counter has moved on to it.\<close>

lemma process_diag_id_taken:
  assumes "perifs s p = Obj perif" and "rd32 pkt 8 = Inr version"
    and "diag_id_name_at perif pkt len version = Inr (Some at)"
    and "cstr pkt at = Inr name" and "find_diag_id name s = None"
    and "if version < 3 then l = diag_id_static s + 1 else rd32 pkt 12 = Inr l" and "diag_id_exists l s"
  shows "diag_cntl_process_diag_id p pkt len s = Inr (- EINVAL, if version < 3 then s\<lparr>diag_id_static := l\<rparr> else s)"
proof -
  have taken: "diag_id_exists l (s\<lparr>diag_id_static := k\<rparr>)" for k using assms(7) by (simp add: diag_id_exists_def)
  note unf = diag_cntl_process_diag_id_def assms(1-5) andthen_Inr deref_simps option.case Let_def
  show ?thesis
  proof (cases "version < 3")
    case True
    then have "\<not> 3 \<le> version" by (simp add: not_le)
    with True assms(6) taken show ?thesis unfolding unf by simp
  next
    case False
    then have "3 \<le> version" "rd32 pkt 12 = Inr l" using assms(6) by (simp_all add: not_less)
    with False assms(7) show ?thesis unfolding unf by simp
  qed
qed

lemma diag_ids_wf_append:
  assumes "diag_ids_wf s" and "name_ok name" and "find_diag_id name s = None"
    and "0 < l" "l < 256" "\<not> diag_id_exists l s"
  shows "diag_ids_wf (s\<lparr>diag_ids := diag_ids s @ [diag_id_entry_for (ucast l) name]\<rparr>)"
proof -
  have "ucast l \<noteq> (0 :: u8)" using narrow_u8 [OF assms(5)] assms(4) by (metis ucast_0 word_neq_0_conv)
  moreover have "ucast l \<notin> di_diag_id ` set (diag_ids s)"
    using assms(6) narrow_u8 [OF assms(5)] by (auto simp: diag_id_exists_iff)
  ultimately show ?thesis
    using assms(1,2,3) by (auto simp: diag_ids_wf_def diag_id_entry_for_def find_diag_id_None c_string_zero name_ok_def)
qed

text \<open>
  The count of a registration packet is not compared with the packet: a count that
  reaches past the buffer is read out of bounds.
\<close>

lemma register_count_unchecked:
  assumes "mem_ok s" and "20 \<le> cap pkt" and "cap pkt + 4 < 20 + 8 * unat (pk16 pkt 16)"
  shows "diag_cntl_register p pkt s = Inl OobRead"
proof -
  have "0 < unat (pk16 pkt 16)" using assms(2,3) by (cases "unat (pk16 pkt 16)") auto
  with register_ranges_overrun [OF assms(1), of 0 pkt "unat (pk16 pkt 16)" p] assms(2,3)
  show ?thesis by (simp add: diag_cntl_register_def rd16_ok)
qed

end
