(* ===== verification/Peripherals.thy ===== *)
theory Peripherals
  imports Diag_Cntl
begin

text \<open>
  The peripherals of the router (\<^verbatim>\<open>peripheral.c\<close>) with the operations of their two kinds
  (\<^verbatim>\<open>perif_rpmsg_send\<close>, \<^verbatim>\<open>perif_rpmsg_close\<close>, \<^verbatim>\<open>qrtr_perif_send\<close>, \<^verbatim>\<open>qrtr_perif_close\<close>). A change of
  a mask is announced on the control channel of every peripheral that has one; closing a
  peripheral removes every reference the router holds to it.
\<close>

section \<open>Operations\<close>

definition has_feature :: "peripheral \<Rightarrow> u32 \<Rightarrow> bool" where
  "has_feature perif f \<longleftrightarrow> p_features perif AND f \<noteq> 0"

definition perif_rpmsg_send :: "perif_id \<Rightarrow> u8 list \<Rightarrow> 'z cntl_state_scheme \<Rightarrow> (int \<times> 'z cntl_state_scheme) res" where
  "perif_rpmsg_send p msg s =
     andthen (deref (perifs s p)) (\<lambda>perif.
     let q = (if has_feature perif FEATURE_REQ_RSP_SUPPORT then PerifCmdq p else PerifDataq p) in
     andthen (if has_feature perif FEATURE_APPS_HDLC_ENCODE then queue_push q msg s else hdlc_enqueue q msg s)
       (\<lambda>s. Inr (0, s)))"

definition qrtr_perif_send :: "perif_id \<Rightarrow> u8 list \<Rightarrow> 'z cntl_state_scheme \<Rightarrow> (int \<times> 'z cntl_state_scheme) res" where
  "qrtr_perif_send p msg s =
     andthen (deref (perifs s p)) (\<lambda>perif.
     andthen (if has_feature perif FEATURE_APPS_HDLC_ENCODE then queue_push (PerifCmdq p) msg s
              else hdlc_enqueue (PerifCmdq p) msg s)
       (\<lambda>s. Inr (0, s)))"

text \<open>
  The object is released; its name is. The flow context and the messages on its queues are
  not released.
\<close>

definition perif_rpmsg_close :: "perif_id \<Rightarrow> 'z cntl_state_scheme \<Rightarrow> 'z cntl_state_scheme res" where
  "perif_rpmsg_close p s =
     andthen (deref (perifs s p)) (\<lambda>perif.
     let s = diag_cntl_close p s;
         s = watch_remove_fd (p_data_fd perif) s;
         s = watch_remove_fd (p_cntl_fd perif) s;
         s = watch_remove_fd (p_cmd_fd perif) s
     in Inr (s\<lparr>peripherals := remove1 p (peripherals s), perifs := (perifs s)(p := Freed)\<rparr>))"

definition qrtr_perif_close :: "perif_id \<Rightarrow> 'z cntl_state_scheme \<Rightarrow> 'z cntl_state_scheme res" where
  "qrtr_perif_close p s = Inr s"

definition peripheral_send ::
    "perif_id option \<Rightarrow> u8 list \<Rightarrow> 'z cntl_state_scheme \<Rightarrow> (int \<times> 'z cntl_state_scheme) res" where
  "peripheral_send p msg s =
     (case p of
        None \<Rightarrow> Inl NullDeref
      | Some p \<Rightarrow>
          andthen (deref (perifs s p)) (\<lambda>perif.
            case p_ops perif of
              RpmsgOps \<Rightarrow> perif_rpmsg_send p msg s
            | QrtrOps \<Rightarrow> qrtr_perif_send p msg s))"

definition peripheral_close :: "perif_id \<Rightarrow> 'z cntl_state_scheme \<Rightarrow> 'z cntl_state_scheme res" where
  "peripheral_close p s =
     andthen (deref (perifs s p)) (\<lambda>perif.
       case p_ops perif of
         RpmsgOps \<Rightarrow> perif_rpmsg_close p s
       | QrtrOps \<Rightarrow> qrtr_perif_close p s)"

definition peripheral_broadcast_event_mask :: "'z cntl_state_scheme \<Rightarrow> 'z cntl_state_scheme res" where
  "peripheral_broadcast_event_mask s = fold_res diag_cntl_send_event_mask (peripherals s) s"

definition peripheral_broadcast_log_mask :: "u32 \<Rightarrow> 'z cntl_state_scheme \<Rightarrow> 'z cntl_state_scheme res" where
  "peripheral_broadcast_log_mask equip_id s =
     fold_res (\<lambda>p s. diag_cntl_send_log_mask p equip_id s) (peripherals s) s"

text \<open>The range is one variable for all peripherals; each call may store into it.\<close>

definition peripheral_broadcast_msg_mask ::
    "ssid_range pointer \<Rightarrow> 'z cntl_state_scheme \<Rightarrow> (ssid_range pointer \<times> 'z cntl_state_scheme) res" where
  "peripheral_broadcast_msg_mask rng s =
     fold_res (\<lambda>p (rng, s). diag_cntl_send_msg_mask p rng s) (peripherals s) (rng, s)"

section \<open>Announcing masks\<close>

text \<open>Every peripheral on the list is an object.\<close>

definition perifs_wf :: "'z cntl_state_scheme \<Rightarrow> bool" where
  "perifs_wf s \<longleftrightarrow> distinct (peripherals s) \<and> (\<forall>p \<in> set (peripherals s). \<exists>perif. perifs s p = Obj perif)"

text \<open>
  The messages a broadcast adds to a queue: \<open>packet\<close> for the control queues of the
  peripherals in \<open>ps\<close> that have a control channel.
\<close>

definition announced :: "'z cntl_state_scheme \<Rightarrow> u8 list \<Rightarrow> perif_id list \<Rightarrow> queue_id \<Rightarrow> mbuf list" where
  "announced s packet ps q =
     (case q of
        PerifCntlq p \<Rightarrow>
          if p \<in> set ps \<and> (case perifs s p of Obj perif \<Rightarrow> p_cntl_fd perif \<noteq> -1 | _ \<Rightarrow> False)
          then [mbuf_for packet None] else []
      | _ \<Rightarrow> [])"

text \<open>
  Two states that differ at most in their queues and in the number of allocations, as far as
  the handlers are concerned.
\<close>

definition only_queues :: "'z cntl_state_scheme \<Rightarrow> 'z cntl_state_scheme \<Rightarrow> bool" where
  "only_queues s s' \<longleftrightarrow>
     clients s' = clients s \<and> perifs s' = perifs s \<and> peripherals s' = peripherals s \<and>
     diag_cmds s' = diag_cmds s \<and> diag_ids s' = diag_ids s \<and> log_mask s' = log_mask s \<and>
     msg_mask s' = msg_mask s \<and> msg_bt_mask s' = msg_bt_mask s \<and> event_mask s' = event_mask s \<and>
     event_max_num_bits s' = event_max_num_bits s \<and> mem_ok s' = mem_ok s \<and>
     cntl_state.more s' = cntl_state.more s"

lemma only_queues_refl [simp]: "only_queues s s"
  by (simp add: only_queues_def)

lemma only_queues_trans: "only_queues s t \<Longrightarrow> only_queues t u \<Longrightarrow> only_queues s u"
  by (simp add: only_queues_def)

lemma only_queues_pushed: "only_queues s (pushed q bs f (bump k s))"
  by (simp add: only_queues_def)

text \<open>
  A loop over the peripherals whose step pushes one packet on the control queue, where
  there is a channel. Both broadcasts of a mask without a range are instances.
\<close>

locale announcement =
  fixes inv :: "'z cntl_state_scheme \<Rightarrow> bool"
    and packet :: "'z cntl_state_scheme \<Rightarrow> u8 list"
    and cost :: "'z cntl_state_scheme \<Rightarrow> nat"
    and send :: "perif_id \<Rightarrow> 'z cntl_state_scheme \<Rightarrow> 'z cntl_state_scheme res"
  assumes send_channel: "inv s \<Longrightarrow> perifs s p = Obj perif \<Longrightarrow> p_cntl_fd perif \<noteq> -1 \<Longrightarrow>
      send p s = Inr (pushed (PerifCntlq p) (packet s) None (bump (cost s) s))"
    and send_no_channel: "perifs s p = Obj perif \<Longrightarrow> p_cntl_fd perif = -1 \<Longrightarrow> send p s = Inr s"
    and inv_pushed: "inv s \<Longrightarrow> inv (pushed q bs None (bump k s))"
    and packet_pushed: "packet (pushed q bs None (bump k s)) = packet s"
begin

lemma broadcast:
  "inv s \<Longrightarrow> distinct ps \<Longrightarrow> \<forall>p \<in> set ps. \<exists>perif. perifs s p = Obj perif \<Longrightarrow>
   \<exists>s'. fold_res send ps s = Inr s' \<and> inv s' \<and> packet s' = packet s \<and> only_queues s s' \<and>
     (\<forall>q. queues s' q = queues s q @ announced s (packet s) ps q)"
proof (induction ps arbitrary: s)
  case Nil
  then show ?case by (auto simp: announced_def split: queue_id.splits)
next
  case (Cons p ps)
  then obtain perif where perif: "perifs s p = Obj perif" by auto
  show ?case
  proof (cases "p_cntl_fd perif = -1")
    case True
    have "\<exists>s'. fold_res send ps s = Inr s' \<and> inv s' \<and> packet s' = packet s \<and> only_queues s s' \<and>
        (\<forall>q. queues s' q = queues s q @ announced s (packet s) ps q)"
      using Cons by simp
    moreover have "announced s (packet s) (p # ps) = announced s (packet s) ps"
      using True perif by (auto simp: announced_def fun_eq_iff split: queue_id.splits)
    ultimately show ?thesis using send_no_channel [OF perif True] by simp
  next
    case False
    let ?s = "pushed (PerifCntlq p) (packet s) None (bump (cost s) s)"
    have s: "inv ?s" "packet ?s = packet s" using inv_pushed packet_pushed Cons.prems(1) by blast+
    have "\<forall>p \<in> set ps. \<exists>perif. perifs ?s p = Obj perif" using Cons.prems(3) by simp
    then obtain s' where s': "fold_res send ps ?s = Inr s'" "inv s'" "packet s' = packet s" "only_queues ?s s'"
        "\<forall>q. queues s' q = queues ?s q @ announced ?s (packet s) ps q"
      using Cons.IH [OF s(1)] Cons.prems(2) s(2) by auto
    have "announced ?s (packet s) ps = announced s (packet s) ps"
      by (auto simp: announced_def fun_eq_iff split: queue_id.splits)
    then have "queues s' q = queues s q @ announced s (packet s) (p # ps) q" for q
      using s'(5) perif False Cons.prems(2) by (auto simp: announced_def split: queue_id.splits)
    moreover have "only_queues s s'"
      by (rule only_queues_trans [OF only_queues_pushed s'(4)])
    ultimately show ?thesis using s'(1-3) send_channel [OF Cons.prems(1) perif False] by simp
  qed
qed

end

interpretation log_announcement: announcement
  "\<lambda>s. log_masks_wf s \<and> mem_ok s" "\<lambda>s. log_mask_packet s e"
  "\<lambda>s. send_cost s (diag_get_log_mask_status s) (unat e < MAX_EQUIP_ID)"
  "\<lambda>p s. diag_cntl_send_log_mask p e s" for e
proof (unfold_locales, goal_cases)
  case (1 s p perif)
  then show ?case by (simp add: send_log_mask_ok)
next
  case (2 s p perif)
  then show ?case by (rule send_log_mask_skip)
next
  case (3 s q bs k)
  then show ?case by (simp add: log_masks_wf_cong [of "pushed q bs None (bump k s)" s])
next
  case (4 q bs k s)
  have "log_view (pushed q bs None (bump k s)) = log_view s" by (rule log_view_cong) simp
  then show ?case by (simp add: log_mask_packet_def diag_get_log_mask_status_def cong: if_cong)
qed

interpretation event_announcement: announcement
  "\<lambda>s. event_masks_wf s \<and> mem_ok s" event_mask_packet
  "\<lambda>s. send_cost s (diag_get_event_mask_status s) True" diag_cntl_send_event_mask
proof (unfold_locales, goal_cases)
  case (1 s p perif)
  then show ?case by (simp add: send_event_mask_ok)
next
  case (2 s p perif)
  then show ?case by (simp add: diag_cntl_send_event_mask_def)
next
  case (3 s q bs k)
  then show ?case by (simp add: event_masks_wf_def)
next
  case (4 q bs k s)
  have "event_bits (pushed q bs None (bump k s)) = event_bits s"
    by (simp add: event_bits_def event_view_def cong: pointer.case_cong)
  then show ?case by (simp add: event_mask_packet_def diag_get_event_mask_status_def cong: if_cong)
qed

lemma broadcast_log_mask_ok:
  assumes "log_masks_wf s" and "mem_ok s" and "perifs_wf s"
  shows "\<exists>s'. peripheral_broadcast_log_mask e s = Inr s' \<and> log_masks_wf s' \<and> only_queues s s' \<and>
    (\<forall>q. queues s' q = queues s q @ announced s (log_mask_packet s e) (peripherals s) q)"
  using log_announcement.broadcast [of s "peripherals s" e] assms
  by (auto simp: peripheral_broadcast_log_mask_def perifs_wf_def)

lemma broadcast_event_mask_ok:
  assumes "event_masks_wf s" and "mem_ok s" and "perifs_wf s"
  shows "\<exists>s'. peripheral_broadcast_event_mask s = Inr s' \<and> event_masks_wf s' \<and> only_queues s s' \<and>
    (\<forall>q. queues s' q = queues s q @ announced s (event_mask_packet s) (peripherals s) q)"
  using event_announcement.broadcast [of s "peripherals s"] assms
  by (auto simp: peripheral_broadcast_event_mask_def perifs_wf_def)

section \<open>Sending and closing\<close>

text \<open>What reaches a peripheral, and on which of its queues.\<close>

definition perif_encode :: "peripheral \<Rightarrow> u8 list \<Rightarrow> u8 list" where
  "perif_encode perif msg =
     (if has_feature perif FEATURE_APPS_HDLC_ENCODE then msg else hdlc_encode_bytes msg)"

definition perif_queue :: "perif_id \<Rightarrow> peripheral \<Rightarrow> queue_id" where
  "perif_queue p perif =
     (if p_ops perif = RpmsgOps \<and> \<not> has_feature perif FEATURE_REQ_RSP_SUPPORT then PerifDataq p else PerifCmdq p)"

lemma peripheral_send_ok:
  assumes "mem_ok s" and "perifs s p = Obj perif"
  shows "peripheral_send (Some p) msg s =
    Inr (0, pushed (perif_queue p perif) (perif_encode perif msg) None
      (bump (if has_feature perif FEATURE_APPS_HDLC_ENCODE then 1 else 2) s))"
  using assms
  by (auto simp: peripheral_send_def perif_rpmsg_send_def qrtr_perif_send_def queue_push_ok hdlc_enqueue_def
      hdlc_enqueue_flow_ok perif_queue_def perif_encode_def Let_def split: perif_ops.splits)

text \<open>No command, no watch and no list refers to a peripheral after it is closed.\<close>

lemma rpmsg_close_ok:
  assumes perif: "perifs s p = Obj perif" and ops: "p_ops perif = RpmsgOps" and wf: "perifs_wf s"
  shows "\<exists>s'. peripheral_close p s = Inr s' \<and> perifs_wf s' \<and> perifs s' = (perifs s)(p := Freed) \<and>
    peripherals s' = filter (\<lambda>x. x \<noteq> p) (peripherals s) \<and>
    diag_cmds s' = filter (\<lambda>dc. dc_peripheral dc \<noteq> Some p) (diag_cmds s) \<and>
    (\<forall>w \<in> set (read_watches s') \<union> set (aio_watches s').
       w_fd w \<notin> {p_data_fd perif, p_cntl_fd perif, p_cmd_fd perif}) \<and>
    queues s' = queues s \<and> clients s' = clients s"
proof -
  have "remove1 p (peripherals s) = filter (\<lambda>x. x \<noteq> p) (peripherals s)"
    using wf by (simp add: perifs_wf_def distinct_remove1_removeAll removeAll_filter_not_eq eq_commute)
  then show ?thesis
    using assms
    by (auto simp: peripheral_close_def perif_rpmsg_close_def diag_cntl_close_def watch_remove_fd_def Let_def
        perifs_wf_def)
qed

end
