(* ===== verification/Common_Cmds.thy ===== *)
theory Common_Cmds
  imports Peripherals
begin

text \<open>
  The commands of a client that the router answers itself (\<^verbatim>\<open>common_cmds.c\<close>): they read and
  change the masks, announce the change to the peripherals and send a response. A request is
  the buffer it was read into and its length; fields are read at the offsets of the packed
  structures, before the length is checked where the code does so. Responses that are
  allocated without being cleared keep indeterminate bytes where no field is assigned.
\<close>

section \<open>Log masks\<close>

definition LOG_DISABLE :: u32 where "LOG_DISABLE = 0"
definition GET_LOG_RANGE :: u32 where "GET_LOG_RANGE = 1"
definition SET_LOG_MASK :: u32 where "SET_LOG_MASK = 3"
definition GET_LOG_MASK :: u32 where "GET_LOG_MASK = 4"

lemmas log_op_defs = LOG_DISABLE_def GET_LOG_RANGE_def SET_LOG_MASK_def GET_LOG_MASK_def

definition respond ::
    "client_id option \<Rightarrow> u8 list \<Rightarrow> 'z dm_state_scheme \<Rightarrow> (int \<times> 'z dm_state_scheme) res" where
  "respond client resp s = andthen (dm_send client resp s) (\<lambda>(_, s). Inr (0, s))"

definition log_disable ::
    "client_id option \<Rightarrow> mem \<Rightarrow> nat \<Rightarrow> 'z cntl_state_scheme \<Rightarrow> (int \<times> 'z cntl_state_scheme) res" where
  "log_disable client req len s =
     (if len \<noteq> 8 then Inr (- EMSGSIZE, s)
      else
        andthen (rd_bytes req 0 8) (\<lambda>header.
        andthen (diag_cmd_disable_log s) (\<lambda>s.
        andthen (peripheral_broadcast_log_mask 0 s) (\<lambda>s.
          respond client (header @ le32 0) s))))"

definition log_get_range ::
    "client_id option \<Rightarrow> mem \<Rightarrow> nat \<Rightarrow> 'z cntl_state_scheme \<Rightarrow> (int \<times> 'z cntl_state_scheme) res" where
  "log_get_range client req len s =
     (if len \<noteq> 8 then Inr (- EMSGSIZE, s)
      else
        andthen (rd_bytes req 0 8) (\<lambda>header.
        andthen (diag_cmd_get_log_range MAX_EQUIP_ID s) (\<lambda>ranges.
          respond client (header @ le32 0 @ concat (map le32 ranges)) s)))"

text \<open>
  The response has room for the mask structure twice. The size of the copy into it is the
  mask size that \<open>diag_cmd_set_log_mask\<close> leaves, and the item count in the request has been
  replaced by then.
\<close>

definition log_set_mask ::
    "client_id option \<Rightarrow> mem \<Rightarrow> nat \<Rightarrow> 'z cntl_state_scheme \<Rightarrow> (int \<times> 'z cntl_state_scheme) res" where
  "log_set_mask client req len s =
     andthen (rd32 req 12) (\<lambda>asked.
     let mask_size = 8 + bits_to_bytes32 asked in
     if 8 + unat mask_size \<noteq> len then Inr (- EMSGSIZE, s)
     else case malloc (unat (20 + mask_size)) s of
       (None, s) \<Rightarrow> Inr (- ENOMEM, s)
     | (Some resp, s) \<Rightarrow>
         andthen (rd_bytes req 0 8) (\<lambda>header.
         andthen (store resp 0 header) (\<lambda>resp.
         andthen (rd32 req 8) (\<lambda>equip_id.
         andthen (diag_cmd_set_log_mask (ucast equip_id) asked (mem_drop 16 req) mask_size s)
           (\<lambda>(_, num_items, mask_size, s).
         andthen (rd_bytes (req\<lparr>byte := (\<lambda>i. if 12 \<le> i \<and> i < 16 then le32 num_items ! (i - 12) else byte req i)\<rparr>)
                   8 (unat mask_size)) (\<lambda>structure.
         andthen (store resp 12 structure) (\<lambda>resp.
         andthen (store resp 8 (le32 0)) (\<lambda>resp.
         andthen (rd32 (mem_of resp) 12) (\<lambda>equip_id.
         andthen (peripheral_broadcast_log_mask equip_id s) (\<lambda>s.
           respond client resp s))))))))))"

definition log_get_mask ::
    "client_id option \<Rightarrow> mem \<Rightarrow> nat \<Rightarrow> 'z cntl_state_scheme \<Rightarrow> (int \<times> 'z cntl_state_scheme) res" where
  "log_get_mask client req len s =
     (if len \<noteq> 12 then Inr (- EMSGSIZE, s)
      else
        andthen (rd32 req 8) (\<lambda>equip_id.
        andthen (diag_cmd_get_log_mask equip_id 0 None 0 s) (\<lambda>(ret, num_items, bits, mask_size, s).
        case malloc (if ret = 0 then unat (20 + mask_size) else 20) s of
          (None, s) \<Rightarrow> Inr (- ENOMEM, s)
        | (Some resp, s) \<Rightarrow>
            andthen (rd_bytes req 0 8) (\<lambda>header.
            andthen (store resp 0 (header @ le32 (if ret = 0 then 0 else 1) @ le32 equip_id @ le32 num_items)) (\<lambda>resp.
            andthen (case bits of
                       Some bits \<Rightarrow> if ret = 0 then store resp 20 (take (unat mask_size) bits) else Inr resp
                     | None \<Rightarrow> Inr resp) (\<lambda>resp.
            andthen (peripheral_broadcast_log_mask equip_id s) (\<lambda>s.
              respond client resp s)))))))"

definition handle_logging_configuration ::
    "client_id option \<Rightarrow> mem \<Rightarrow> nat \<Rightarrow> 'z cntl_state_scheme \<Rightarrow> (int \<times> 'z cntl_state_scheme) res" where
  "handle_logging_configuration client req len s =
     andthen (rd32 req 4) (\<lambda>operation.
     if operation = LOG_DISABLE then log_disable client req len s
     else if operation = GET_LOG_RANGE then log_get_range client req len s
     else if operation = SET_LOG_MASK then log_set_mask client req len s
     else if operation = GET_LOG_MASK then log_get_mask client req len s
     else Inr (- EINVAL, s))"

section \<open>Message masks\<close>

definition GET_SSID_RANGE :: u8 where "GET_SSID_RANGE = 1"
definition GET_BUILD_MASK :: u8 where "GET_BUILD_MASK = 2"
definition GET_MSG_MASK :: u8 where "GET_MSG_MASK = 3"
definition SET_MSG_MASK :: u8 where "SET_MSG_MASK = 4"
definition SET_ALL_MSG_MASK :: u8 where "SET_ALL_MSG_MASK = 5"
definition EXTENDED_MESSAGE_CONFIGURATION :: u8 where "EXTENDED_MESSAGE_CONFIGURATION = 0x7d"

lemmas msg_op_defs = GET_SSID_RANGE_def GET_BUILD_MASK_def GET_MSG_MASK_def SET_MSG_MASK_def SET_ALL_MSG_MASK_def

definition rd_range :: "mem \<Rightarrow> nat \<Rightarrow> ssid_range res" where
  "rd_range m i =
     andthen (rd16 m i) (\<lambda>first. andthen (rd16 m (i + 2)) (\<lambda>last.
       Inr \<lparr>ssid_first = first, ssid_last = last\<rparr>))"

definition range_bytes :: "ssid_range \<Rightarrow> u8 list" where
  "range_bytes r = le16 (ssid_first r) @ le16 (ssid_last r)"

text \<open>The byte at offset 3 of the response is never assigned.\<close>

definition msg_get_ssid_range ::
    "client_id option \<Rightarrow> mem \<Rightarrow> nat \<Rightarrow> 'z cntl_state_scheme \<Rightarrow> (int \<times> 'z cntl_state_scheme) res" where
  "msg_get_ssid_range client req len s =
     (if len \<noteq> 2 then Inr (- EMSGSIZE, s)
      else
        andthen (diag_cmd_get_ssid_range s) (\<lambda>(count, ranges, s).
        case malloc (unat (8 + count * 4)) s of
          (None, s) \<Rightarrow> Inr (- ENOMEM, s)
        | (Some resp, s) \<Rightarrow>
            andthen (rd_bytes req 0 2) (\<lambda>header.
            andthen (store resp 0 (header @ [1])) (\<lambda>resp.
            andthen (store resp 4 (le32 count)) (\<lambda>resp.
            andthen (case ranges of Some rs \<Rightarrow> store resp 8 (concat (map range_bytes rs)) | None \<Rightarrow> Inr resp)
              (\<lambda>resp. respond client resp s))))))"

text \<open>
  The words copied into the response are counted from the range that
  \<open>diag_cmd_get_build_mask\<close> hands back.
\<close>

definition msg_get_build_mask ::
    "client_id option \<Rightarrow> mem \<Rightarrow> nat \<Rightarrow> 'z cntl_state_scheme \<Rightarrow> (int \<times> 'z cntl_state_scheme) res" where
  "msg_get_build_mask client req len s =
     (if len \<noteq> 6 then Inr (- EMSGSIZE, s)
      else
        andthen (rd_range req 2) (\<lambda>rng.
        andthen (diag_cmd_get_build_mask rng None s) (\<lambda>(ret, rng, masks, s).
        if ret = 0 then
          let size = MSG_RANGE_TO_SIZE rng; (_, s) = alloca (unat (8 + size)) s in
          andthen (case masks of None \<Rightarrow> Inl NullDeref
                   | Some ws \<Rightarrow> load (concat (map le32 ws)) (unat size)) (\<lambda>bits.
            respond client ([EXTENDED_MESSAGE_CONFIGURATION, GET_BUILD_MASK] @ range_bytes rng @ [1, 0] @ bits) s)
        else
          let (_, s) = alloca 8 s in
          respond client ([EXTENDED_MESSAGE_CONFIGURATION, GET_BUILD_MASK] @ replicate 6 0) s)))"

definition msg_get_mask ::
    "client_id option \<Rightarrow> mem \<Rightarrow> nat \<Rightarrow> 'z cntl_state_scheme \<Rightarrow> (int \<times> 'z cntl_state_scheme) res" where
  "msg_get_mask client req len s =
     (if len \<noteq> 6 then Inr (- EMSGSIZE, s)
      else
        andthen (rd_range req 2) (\<lambda>rng.
        andthen (diag_cmd_get_msg_mask (Obj rng) None s) (\<lambda>(ret, rng, masks, s).
        andthen (rd_bytes req 0 2) (\<lambda>header.
        if ret = 0 then
          let size = MSG_RANGE_TO_SIZE rng; (_, s) = alloca (unat (4 + size)) s in
          andthen (case masks of None \<Rightarrow> Inl NullDeref
                   | Some ws \<Rightarrow> load (concat (map le32 ws)) (unat size)) (\<lambda>bits.
            respond client (header @ [1, 0] @ bits) s)
        else
          let (_, s) = alloca 4 s in respond client (header @ [0, 0]) s))))"

text \<open>
  The announcement is given a pointer to the range in the response, and stores into it.
\<close>

definition msg_set_mask ::
    "client_id option \<Rightarrow> mem \<Rightarrow> nat \<Rightarrow> 'z cntl_state_scheme \<Rightarrow> (int \<times> 'z cntl_state_scheme) res" where
  "msg_set_mask client req len s =
     andthen (rd_range req 2) (\<lambda>rng.
     let masks_size = MSG_RANGE_TO_SIZE rng in
     if 8 + unat masks_size \<noteq> len then Inr (- EMSGSIZE, s)
     else
       andthen (diag_cmd_set_msg_mask rng (mem_drop 8 req) s) (\<lambda>(ret, s).
       case malloc (if ret = 0 then unat (8 + masks_size) else 8) s of
         (None, s) \<Rightarrow> Inr (- ENOMEM, s)
       | (Some resp, s) \<Rightarrow>
           andthen (rd_bytes req 0 2) (\<lambda>header.
           andthen (rd8 req 6) (\<lambda>rsvd.
           if ret = 0 then
             andthen (rd_bytes req 8 (unat masks_size)) (\<lambda>masks.
             andthen (store resp 0 (header @ range_bytes rng @ [1, rsvd] @ masks)) (\<lambda>resp.
             andthen (peripheral_broadcast_msg_mask (Obj rng) s) (\<lambda>(rng_ptr, s).
             andthen (deref rng_ptr) (\<lambda>rng.
             andthen (store resp 2 (range_bytes rng)) (\<lambda>resp.
               respond client resp s)))))
           else respond client (header @ range_bytes rng @ [0, rsvd]) s))))"

definition msg_set_all ::
    "client_id option \<Rightarrow> mem \<Rightarrow> nat \<Rightarrow> 'z cntl_state_scheme \<Rightarrow> (int \<times> 'z cntl_state_scheme) res" where
  "msg_set_all client req len s =
     (if len \<noteq> 7 then Inr (- EMSGSIZE, s)
      else
        andthen (rd32 req 3) (\<lambda>w.
        andthen (diag_cmd_set_all_msg_mask w s) (\<lambda>s.
        andthen (rd_bytes req 0 2) (\<lambda>header.
        andthen (rd8 req 2) (\<lambda>rsvd.
        andthen (peripheral_broadcast_msg_mask Null s) (\<lambda>(_, s).
          respond client (header @ [1, rsvd] @ le32 w) s))))))"

definition handle_extended_message_configuration ::
    "client_id option \<Rightarrow> mem \<Rightarrow> nat \<Rightarrow> 'z cntl_state_scheme \<Rightarrow> (int \<times> 'z cntl_state_scheme) res" where
  "handle_extended_message_configuration client req len s =
     andthen (rd8 req 1) (\<lambda>operation.
     if operation = GET_SSID_RANGE then msg_get_ssid_range client req len s
     else if operation = GET_BUILD_MASK then msg_get_build_mask client req len s
     else if operation = GET_MSG_MASK then msg_get_mask client req len s
     else if operation = SET_MSG_MASK then msg_set_mask client req len s
     else if operation = SET_ALL_MSG_MASK then msg_set_all client req len s
     else Inr (- EINVAL, s))"

section \<open>Event masks\<close>

definition handle_event_get_mask ::
    "client_id option \<Rightarrow> mem \<Rightarrow> nat \<Rightarrow> 'z cntl_state_scheme \<Rightarrow> (int \<times> 'z cntl_state_scheme) res" where
  "handle_event_get_mask client req len s =
     (if len \<noteq> 4 then Inr (- EMSGSIZE, s)
      else
        let num_bits = event_max_num_bits s; size = bits_to_bytes16 num_bits in
        andthen (diag_cmd_get_event_mask num_bits None s) (\<lambda>(ret, bits, s).
        case malloc (if ret = 0 then 6 + size else 6) s of
          (None, s) \<Rightarrow> Inr (- ENOMEM, s)
        | (Some resp, s) \<Rightarrow>
            andthen (rd8 req 0) (\<lambda>cmd.
            andthen (rd_bytes req 2 2) (\<lambda>reserved.
            if ret = 0 then
              andthen (store resp 0 ([cmd, 0] @ reserved @ le16 num_bits)) (\<lambda>resp.
              andthen (case bits of Some bits \<Rightarrow> store resp 6 (take size bits) | None \<Rightarrow> Inr resp) (\<lambda>resp.
                respond client resp s))
            else respond client ([cmd, 1] @ reserved @ le16 0) s))))"

definition handle_event_set_mask ::
    "client_id option \<Rightarrow> mem \<Rightarrow> nat \<Rightarrow> 'z cntl_state_scheme \<Rightarrow> (int \<times> 'z cntl_state_scheme) res" where
  "handle_event_set_mask client req len s =
     andthen (rd16 req 4) (\<lambda>num_bits.
     let size = bits_to_bytes16 num_bits in
     if 6 + size \<noteq> len then Inr (- EMSGSIZE, s)
     else
       andthen (diag_cmd_update_event_mask num_bits (mem_drop 6 req) s) (\<lambda>(ret, s).
       case malloc (if ret = 0 then 6 + size else 6) s of
         (None, s) \<Rightarrow> Inr (- ENOMEM, s)
       | (Some _, s) \<Rightarrow>
           andthen (rd8 req 0) (\<lambda>cmd.
           andthen (rd_bytes req 2 2) (\<lambda>reserved.
           if ret = 0 then
             andthen (rd_bytes req 6 size) (\<lambda>bits.
             andthen (peripheral_broadcast_event_mask s) (\<lambda>s.
               respond client ([cmd, 0] @ reserved @ le16 num_bits @ bits) s))
           else respond client ([cmd, 1] @ reserved @ le16 0) s))))"

definition EVENT_REPORT_CONTROL :: u8 where "EVENT_REPORT_CONTROL = 0x60"

definition handle_event_report_control ::
    "client_id option \<Rightarrow> mem \<Rightarrow> nat \<Rightarrow> 'z cntl_state_scheme \<Rightarrow> (int \<times> 'z cntl_state_scheme) res" where
  "handle_event_report_control client req len s =
     (if len \<noteq> 2 then Inr (- EMSGSIZE, s)
      else
        andthen (rd8 req 1) (\<lambda>switch.
        andthen (diag_cmd_toggle_events (switch \<noteq> 0) s) (\<lambda>s.
        andthen (peripheral_broadcast_event_mask s) (\<lambda>s.
          respond client ([EVENT_REPORT_CONTROL] @ le16 0) s))))"

section \<open>What the handlers do\<close>

text \<open>The invariant under which requests are handled, and the reply a client gets.\<close>

definition masks_ready :: "'z cntl_state_scheme \<Rightarrow> bool" where
  "masks_ready s \<longleftrightarrow> dm_wf s \<and> perifs_wf s \<and> log_masks_wf s \<and> msg_masks_wf s \<and> event_masks_wf s \<and>
     build_masks_wf s"

definition replied :: "'z cntl_state_scheme \<Rightarrow> client_id \<Rightarrow> u8 list \<Rightarrow> queue_id \<Rightarrow> mbuf list" where
  "replied s c resp q =
     (if q = ClientOutq c \<and> cl_enabled (clients s ! c)
      then [mbuf_for (client_encode (clients s ! c) resp) None] else [])"

lemma only_queues_views:
  assumes "only_queues s s'"
  shows "event_view s' = event_view s" "log_view s' = log_view s" "msg_view s' = msg_view s"
proof -
  have eq: "event_mask s' = event_mask s" "event_max_num_bits s' = event_max_num_bits s"
    "log_mask s' = log_mask s" "msg_mask s' = msg_mask s"
    using assms unfolding only_queues_def by simp_all
  show "event_view s' = event_view s" unfolding event_view_def eq ..
  show "log_view s' = log_view s" unfolding log_view_def eq ..
  show "msg_view s' = msg_view s" unfolding msg_view_def eq ..
qed

lemma only_queues_ready:
  assumes "only_queues s s'"
  shows "masks_ready s' = masks_ready s"
proof -
  have eq: "clients s' = clients s" "perifs s' = perifs s" "peripherals s' = peripherals s"
    "event_mask s' = event_mask s" "event_max_num_bits s' = event_max_num_bits s"
    "log_mask s' = log_mask s" "msg_mask s' = msg_mask s" "msg_bt_mask s' = msg_bt_mask s" "mem_ok s' = mem_ok s"
    using assms unfolding only_queues_def by simp_all
  show ?thesis
    unfolding masks_ready_def dm_wf_def perifs_wf_def log_masks_wf_def msg_masks_wf_def event_masks_wf_def
      build_masks_wf_def eq ..
qed

lemma only_queues_packet:
  assumes "only_queues s s'"
  shows "event_mask_packet s' = event_mask_packet s"
proof -
  have eq: "event_mask s' = event_mask s" "event_max_num_bits s' = event_max_num_bits s"
    using assms unfolding only_queues_def by simp_all
  show ?thesis
    unfolding event_mask_packet_def event_bits_def event_view_def diag_get_event_mask_status_def eq ..
qed

lemma event_view_alloc: "event_view (s\<lparr>alloc_no := k\<rparr>) = event_view s"
proof -
  have eq: "event_mask (s\<lparr>alloc_no := k\<rparr>) = event_mask s"
    "event_max_num_bits (s\<lparr>alloc_no := k\<rparr>) = event_max_num_bits s" by simp_all
  show ?thesis unfolding event_view_def eq ..
qed

lemma announced_frame: "perifs s' = perifs s \<Longrightarrow> announced s' = announced s"
  unfolding announced_def by simp

lemma replied_frame: "clients s' = clients s \<Longrightarrow> replied s' = replied s"
  unfolding replied_def fun_eq_iff by simp

lemma respond_ok:
  fixes s :: "'z cntl_state_scheme"
  assumes "dm_wf s" and "c < length (clients s)"
  shows "\<exists>s'. respond (Some c) resp s = Inr (0, s') \<and> only_queues s s' \<and>
    (\<forall>q. queues s' q = queues s q @ replied s c resp q)"
  using dm_send_flow_ok [OF assms, of resp None]
  by (auto simp: respond_def dm_send_def replied_def intro: only_queues_pushed)

text \<open>Changing the event mask leaves everything else as it is.\<close>

lemma update_event_mask_frame:
  fixes s :: "'z cntl_state_scheme"
  assumes "diag_cmd_update_event_mask n p s = Inr (r, s')"
  shows "clients s' = clients s \<and> perifs s' = perifs s \<and> peripherals s' = peripherals s \<and> queues s' = queues s \<and>
    log_mask s' = log_mask s \<and> msg_mask s' = msg_mask s \<and> msg_bt_mask s' = msg_bt_mask s \<and>
    alloc_ok s' = alloc_ok s \<and> cntl_state.more s' = cntl_state.more s"
proof (cases "n > event_max_num_bits s")
  case True
  show ?thesis
  proof (cases "alloc_ok s (alloc_no s)")
    case ok: True
    show ?thesis using assms True ok
      by (cases "mi_ptr (event_mask s)") (auto simp: diag_cmd_update_event_mask_def realloc_def andthen_eq_Inr Let_def)
  next
    case False
    show ?thesis using assms True False
      by (cases "mi_ptr (event_mask s)") (auto simp: diag_cmd_update_event_mask_def realloc_def andthen_eq_Inr Let_def)
  qed
next
  case False
  then show ?thesis using assms by (auto simp: diag_cmd_update_event_mask_def andthen_eq_Inr)
qed

lemma toggle_events_frame:
  fixes s :: "'z cntl_state_scheme"
  assumes "diag_cmd_toggle_events b s = Inr s'"
  shows "clients s' = clients s" "perifs s' = perifs s" "peripherals s' = peripherals s" "queues s' = queues s"
    "log_mask s' = log_mask s" "msg_mask s' = msg_mask s" "msg_bt_mask s' = msg_bt_mask s"
    "alloc_ok s' = alloc_ok s" "event_max_num_bits s' = event_max_num_bits s"
  using assms by (auto simp: diag_cmd_toggle_events_def andthen_eq_Inr)

lemma ready_event:
  assumes "masks_ready s" and "event_masks_wf s'" and "clients s' = clients s" "perifs s' = perifs s"
    "peripherals s' = peripherals s" "log_mask s' = log_mask s" "msg_mask s' = msg_mask s"
    "msg_bt_mask s' = msg_bt_mask s" "alloc_ok s' = alloc_ok s"
  shows "masks_ready s'"
  using assms
  by (simp add: masks_ready_def dm_wf_def perifs_wf_def log_masks_wf_def msg_masks_wf_def build_masks_wf_def mem_ok_def)

text \<open>
  Announcing the event mask and answering: the common end of the two requests that change
  it.
\<close>

lemma announce_and_respond:
  fixes s :: "'z cntl_state_scheme"
  assumes "masks_ready s" and c: "c < length (clients s)"
  shows "\<exists>s'. andthen (peripheral_broadcast_event_mask s) (\<lambda>s. respond (Some c) resp s) = Inr (0, s') \<and>
    only_queues s s' \<and>
    (\<forall>q. queues s' q = queues s q @ announced s (event_mask_packet s) (peripherals s) q @ replied s c resp q)"
proof -
  have "event_masks_wf s" "mem_ok s" "perifs_wf s" "dm_wf s"
    using assms(1) by (simp_all add: masks_ready_def dm_wf_def)
  then obtain s1 where s1: "peripheral_broadcast_event_mask s = Inr s1" "only_queues s s1"
      "\<forall>q. queues s1 q = queues s q @ announced s (event_mask_packet s) (peripherals s) q"
    using broadcast_event_mask_ok [of s] by blast
  have "dm_wf s1" "c < length (clients s1)"
    using s1(2) \<open>dm_wf s\<close> c by (simp_all add: only_queues_def dm_wf_def)
  then obtain s2 where s2: "respond (Some c) resp s1 = Inr (0, s2)" "only_queues s1 s2"
      "\<forall>q. queues s2 q = queues s1 q @ replied s1 c resp q"
    using respond_ok [of s1 c resp] by blast
  then show ?thesis
    using s1 only_queues_trans [OF s1(2) s2(2)] replied_frame [of s1 s] s1(2)
    by (auto simp: only_queues_def)
qed

text \<open>
  Setting the event mask: the bits are stored, every peripheral with a control channel is
  told, and the client gets its request back with a success code.
\<close>

lemma handle_event_set_mask_ok:
  fixes s :: "'z cntl_state_scheme"
  assumes ready: "masks_ready s" and c: "c < length (clients s)"
    and n: "pk16 req 4 = n" "len = 6 + bits_to_bytes16 n" "len \<le> cap req"
    and bits: "rd_bytes req 6 (bits_to_bytes16 n) = Inr bits"
  shows "\<exists>s'. handle_event_set_mask (Some c) req len s = Inr (0, s') \<and> masks_ready s' \<and>
    clients s' = clients s \<and> cntl_state.more s' = cntl_state.more s \<and>
    event_max_num_bits s' = max n (event_max_num_bits s) \<and>
    event_view s' = (\<lambda>i. if i < length bits then Some (bits ! i) else event_view s i) \<and>
    (\<forall>q. queues s' q = queues s q @ announced s (event_mask_packet s') (peripherals s) q @
       replied s c ([byte req 0, 0, byte req 2, byte req 3] @ le16 n @ bits) q)"
proof -
  let ?k = "bits_to_bytes16 n" and ?resp = "[byte req 0, 0, byte req 2, byte req 3] @ le16 n @ bits"
  have wf: "event_masks_wf s" "mem_ok s" using ready by (simp_all add: masks_ready_def dm_wf_def)
  have "rd_bytes (mem_drop 6 req) 0 ?k = Inr bits"
    using bits n(2,3) by (simp add: rd_bytes_ok)
  from update_event_mask_ok [OF wf this] obtain s1 where
    s1: "diag_cmd_update_event_mask n (mem_drop 6 req) s = Inr (0, s1)" "event_updated n bits s s1" by blast
  have frame: "clients s1 = clients s" "perifs s1 = perifs s" "peripherals s1 = peripherals s" "queues s1 = queues s"
    "log_mask s1 = log_mask s" "msg_mask s1 = msg_mask s" "msg_bt_mask s1 = msg_bt_mask s"
    "alloc_ok s1 = alloc_ok s" "cntl_state.more s1 = cntl_state.more s"
    using update_event_mask_frame [OF s1(1)] by simp_all
  let ?s1 = "s1\<lparr>alloc_no := Suc (alloc_no s1)\<rparr>"
  have "event_masks_wf s1" using s1(2) by (simp add: event_updated_def)
  then have "event_masks_wf ?s1" by (simp add: event_masks_wf_def)
  then have ready1: "masks_ready ?s1" using ready_event [OF ready, of ?s1] frame by simp
  have c1: "c < length (clients ?s1)" using c frame by simp
  from announce_and_respond [OF ready1 c1, of ?resp] obtain s2 where
    s2: "andthen (peripheral_broadcast_event_mask ?s1) (\<lambda>s. respond (Some c) ?resp s) = Inr (0, s2)"
      "only_queues ?s1 s2"
      "\<forall>q. queues s2 q = queues ?s1 q @ announced ?s1 (event_mask_packet ?s1) (peripherals ?s1) q @ replied ?s1 c ?resp q"
    by blast
  have hdr: "rd8 req 0 = Inr (byte req 0)" "rd_bytes req 2 2 = Inr [byte req 2, byte req 3]" "rd16 req 4 = Inr n"
    using n by (simp_all add: rd8_ok rd_bytes_ok rd16_ok upt_rec numeral_2_eq_2 numeral_3_eq_3)
  have "malloc (6 + ?k) s1 = (Some (fresh_bytes s1 (6 + ?k)), ?s1)"
    using wf(2) frame by (intro malloc_ok) (simp add: mem_ok_def)
  then have "handle_event_set_mask (Some c) req len s = Inr (0, s2)"
    using hdr n(2) s1(1) bits s2(1) by (simp add: handle_event_set_mask_def Let_def)
  moreover have "masks_ready s2" using only_queues_ready [OF s2(2)] ready1 by simp
  moreover have "clients s2 = clients s" "cntl_state.more s2 = cntl_state.more s"
    using s2(2) frame by (simp_all add: only_queues_def)
  moreover have "event_max_num_bits s2 = max n (event_max_num_bits s)"
    using s2(2) s1(2) by (simp add: only_queues_def event_updated_def)
  moreover have "event_view s2 = (\<lambda>i. if i < length bits then Some (bits ! i) else event_view s i)"
    using only_queues_views(1) [OF s2(2)] s1(2) by (simp add: event_updated_def event_view_alloc)
  moreover have "event_mask_packet s2 = event_mask_packet ?s1"
    by (rule only_queues_packet [OF s2(2)])
  then have "queues s2 q = queues s q @ announced s (event_mask_packet s2) (peripherals s) q @ replied s c ?resp q" for q
    using s2(3) frame announced_frame [of ?s1 s] replied_frame [of ?s1 s] by simp
  ultimately show ?thesis by blast
qed

text \<open>Reading the event mask: the bits in force, up to the highest bit number.\<close>

lemma handle_event_get_mask_ok:
  fixes s :: "'z cntl_state_scheme"
  assumes ready: "masks_ready s" and c: "c < length (clients s)" and cap: "4 \<le> cap req"
  shows "\<exists>s'. handle_event_get_mask (Some c) req 4 s = Inr (0, s') \<and> only_queues s s' \<and>
    (\<forall>q. queues s' q = queues s q @
       replied s c ([byte req 0, 0, byte req 2, byte req 3] @ le16 (event_max_num_bits s) @ event_bits s) q)"
proof -
  let ?n = "event_max_num_bits s" and ?k = "bits_to_bytes16 (event_max_num_bits s)"
  let ?hdr = "[byte req 0, 0, byte req 2, byte req 3] @ le16 ?n" and ?s1 = "bump 1 s" and ?s2 = "bump 2 s"
  have wf: "event_masks_wf s" "mem_ok s" using ready by (simp_all add: masks_ready_def dm_wf_def)
  from get_event_mask_ok [OF wf order_refl, of None] obtain bits where
    get: "diag_cmd_get_event_mask ?n None s = Inr (0, Some bits, ?s1)" "length bits = ?k"
      "\<forall>i < ?k. event_view s i = Some (bits ! i)"
    by (auto simp: bump_def)
  have bits: "bits = event_bits s" using get(2,3) by (simp add: event_bits_def list_eq_iff_nth_eq)
  have mal: "malloc (6 + ?k) ?s1 = (Some (fresh_bytes ?s1 (6 + ?k)), ?s2)"
    using wf(2) by (simp add: malloc_def bump_def)
  have rds: "rd8 req 0 = Inr (byte req 0)" "rd_bytes req 2 2 = Inr [byte req 2, byte req 3]"
    using cap by (simp_all add: rd8_ok rd_bytes_ok upt_rec numeral_2_eq_2 numeral_3_eq_3)
  have st: "store (fresh_bytes ?s1 (6 + ?k)) 0 ?hdr = Inr (?hdr @ drop 6 (fresh_bytes ?s1 (6 + ?k)))"
    by (simp add: store_ok)
  have st2: "store (?hdr @ drop 6 (fresh_bytes ?s1 (6 + ?k))) 6 bits = Inr (?hdr @ bits)"
    using get(2) by (simp add: store_ok)
  have "dm_wf ?s2" "c < length (clients ?s2)" using ready c by (simp_all add: masks_ready_def)
  from respond_ok [OF this, of "?hdr @ bits"] obtain s' where
    s': "respond (Some c) (?hdr @ bits) ?s2 = Inr (0, s')" "only_queues ?s2 s'"
      "\<forall>q. queues s' q = queues ?s2 q @ replied ?s2 c (?hdr @ bits) q" by blast
  have "handle_event_get_mask (Some c) req 4 s = Inr (0, s')"
    using get(1,2) mal rds st st2 s'(1) by (simp add: handle_event_get_mask_def Let_def)
  moreover have "only_queues s s'"
    by (rule only_queues_trans [OF _ s'(2)]) (simp add: only_queues_def)
  ultimately show ?thesis
    using s'(3) bits replied_frame [of ?s2 s] by auto
qed

text \<open>The event report switch: all events on or off.\<close>

lemma handle_event_report_control_ok:
  fixes s :: "'z cntl_state_scheme"
  assumes ready: "masks_ready s" and c: "c < length (clients s)" and req: "2 \<le> cap req"
  shows "\<exists>s'. handle_event_report_control (Some c) req 2 s = Inr (0, s') \<and> masks_ready s' \<and>
    (\<forall>i < bits_to_bytes16 (event_max_num_bits s). event_view s' i = Some (if byte req 1 \<noteq> 0 then 0xff else 0)) \<and>
    (\<forall>q. queues s' q = queues s q @ announced s (event_mask_packet s') (peripherals s) q @
       replied s c [0x60, 0, 0] q)"
proof -
  let ?on = "byte req 1 \<noteq> 0" and ?resp = "[EVENT_REPORT_CONTROL] @ le16 0"
  have "event_masks_wf s" using ready by (simp add: masks_ready_def)
  from toggle_events_ok [OF this, of ?on] obtain s1 where s1: "diag_cmd_toggle_events ?on s = Inr s1"
      "event_masks_wf s1"
      "\<forall>i < bits_to_bytes16 (event_max_num_bits s). event_view s1 i = Some (if ?on then 0xff else 0)" by blast
  note frame = toggle_events_frame [OF s1(1)]
  have ready1: "masks_ready s1" using ready_event [OF ready s1(2)] frame by simp
  have "c < length (clients s1)" using c frame by simp
  from announce_and_respond [OF ready1 this, of ?resp] obtain s2 where
    s2: "andthen (peripheral_broadcast_event_mask s1) (\<lambda>s. respond (Some c) ?resp s) = Inr (0, s2)" "only_queues s1 s2"
      "\<forall>q. queues s2 q = queues s1 q @ announced s1 (event_mask_packet s1) (peripherals s1) q @ replied s1 c ?resp q"
    by blast
  have "handle_event_report_control (Some c) req 2 s = Inr (0, s2)"
    using req s1(1) s2(1) by (simp add: handle_event_report_control_def rd8_ok)
  moreover have "masks_ready s2" using only_queues_ready [OF s2(2)] ready1 by simp
  moreover have "\<forall>i < bits_to_bytes16 (event_max_num_bits s). event_view s2 i = Some (if ?on then 0xff else 0)"
    using s1(3) only_queues_views(1) [OF s2(2)] by simp
  moreover have "event_mask_packet s2 = event_mask_packet s1"
    by (rule only_queues_packet [OF s2(2)])
  moreover have "?resp = [0x60, 0, 0]" by (simp add: EVENT_REPORT_CONTROL_def le16_def)
  ultimately show ?thesis
    using s2(3) frame announced_frame [of s1 s] replied_frame [of s1 s] by auto
qed

section \<open>Requests that leave their objects\<close>

text \<open>
  An item count within 7 of the largest word wraps in \<open>BITS_TO_BYTES\<close>: the request counts as
  having no mask, the stored mask as having 512 bytes, and the response as having 28.
\<close>

lemma bits_to_bytes32_wraps:
  assumes "unat n \<ge> 2 ^ 32 - 7"
  shows "bits_to_bytes32 n = 0"
proof -
  have "unat n < 2 ^ LENGTH(32)" by (rule unsigned_less)
  then have "unat (n + 7) = unat n + 7 - 2 ^ 32"
    using assms by (simp add: unat_word_ariths mod_if)
  then have "unat (n + 7) < 8" using \<open>unat n < 2 ^ LENGTH(32)\<close> by simp
  then have "unat (n + 7) div 8 = 0" by (rule div_less)
  then show ?thesis by (simp add: bits_to_bytes32_def word_unat_eq_iff unat_div)
qed

lemma log_set_mask_overrun:
  fixes s :: "'z cntl_state_scheme"
  assumes ready: "masks_ready s" and e: "rd32 req 8 = Inr e" "ucast e = (e8 :: u8)" "unat e8 < MAX_EQUIP_ID"
    and n: "rd32 req 12 = Inr n" "unat n \<ge> 2 ^ 32 - 7" and cap: "528 \<le> cap req"
  shows "log_set_mask client req 16 s = Inl OobWrite"
proof -
  have b0: "bits_to_bytes32 n = 0" by (rule bits_to_bytes32_wraps [OF n(2)])
  have wf: "log_masks_wf s" "mem_ok s" using ready by (simp_all add: masks_ready_def dm_wf_def)
  have capped: "log_capped n = 4095"
    using n(2) by (simp add: log_capped_def MAX_ITEMS_ALLOWED_def word_less_nat_alt)
  have b512: "bits_to_bytes32 (4095 :: u32) = 512" by (simp add: bits_to_bytes32_def)
  let ?s = "s\<lparr>alloc_no := Suc (alloc_no s)\<rparr>"
  have wf': "log_masks_wf ?s" using wf(1) by (simp add: log_masks_wf_def)
  have "\<exists>bits. rd_bytes (mem_drop 16 req) 0 (unat (bits_to_bytes32 (log_capped n))) = Inr bits"
    using cap capped b512 by (simp add: rd_bytes_ok)
  then obtain bits where "rd_bytes (mem_drop 16 req) 0 (unat (bits_to_bytes32 (log_capped n))) = Inr bits" by blast
  from set_log_mask_ok [OF wf' e(3) this, of 8] obtain s1 where
    set: "diag_cmd_set_log_mask e8 n (mem_drop 16 req) 8 ?s = Inr (0, 4095, 512, s1)"
    unfolding capped b512 by auto
  have hdr: "rd_bytes req 0 8 = Inr (map (byte req) [0..<8])" using cap by (simp add: rd_bytes_ok)
  have st: "store (fresh_bytes s 28) 0 (map (byte req) [0..<8]) = Inr (map (byte req) [0..<8] @ drop 8 (fresh_bytes s 28))"
    by (simp add: store_ok del: upt_rec_numeral)
  show ?thesis
    using n(1) e(1,2) wf(2) set hdr st cap
    by (simp add: log_set_mask_def Let_def b0 malloc_ok rd_bytes_ok store_def del: upt_rec_numeral)
qed

text \<open>
  A range of more ids than the maximum is answered with one id too many: the copy into the
  response reads past the end of the mask.
\<close>

lemma msg_get_build_mask_overrun:
  fixes s :: "'z cntl_state_scheme"
  assumes ready: "masks_ready s" and r: "rd_range req 2 = Inr r"
    and found: "first_index (\<lambda>b. b = ucast (ssid_first r)) ssid_first_arr = Some i"
    and long: "ucast (ssid_last r) - ucast (ssid_first r) + 1 > (200 :: u32)" and small: "unat (ssid_first r) + 200 < 65536"
  shows "msg_get_build_mask client req 6 s = Inl OobRead"
proof -
  have wf: "build_masks_wf s" using ready by (simp add: masks_ready_def)
  let ?r = "r\<lparr>ssid_last := ssid_first r + 200\<rparr>"
  note get = get_build_mask_truncated [OF wf found long, of None]
  have "unat (ssid_first r + 200) = unat (ssid_first r) + 200"
    using small by (simp add: unat_word_ariths)
  then have "(ucast (ssid_first r + 200) :: u32) = ucast (ssid_first r) + 200"
    using small by (simp add: word_unat_eq_iff unat_word_ariths unat_ucast_u16)
  then have size: "MSG_RANGE_TO_SIZE ?r = 804" by (simp add: MSG_RANGE_TO_SIZE_def)
  have "load (concat (map le32 (replicate 200 0xffffffff))) 804 = Inl OobRead"
    by (simp only: load_def length_concat_le32 length_replicate) simp
  then show ?thesis
    using r get size by (simp add: msg_get_build_mask_def Let_def alloca_def)
qed

text \<open>
  Enabling all message masks announces them without a range, which the first peripheral
  with a control channel does not survive.
\<close>

lemma broadcast_no_range:
  fixes s :: "'z cntl_state_scheme"
  assumes "msg_masks_wf s" and "diag_get_msg_mask_status s = DIAG_CTRL_MASK_ALL_ENABLED"
    and "\<forall>p \<in> set ps. \<exists>perif. perifs s p = Obj perif"
    and "\<exists>p \<in> set ps. \<exists>perif. perifs s p = Obj perif \<and> p_cntl_fd perif \<noteq> -1"
  shows "fold_res (\<lambda>p (rng, s). diag_cntl_send_msg_mask p rng s) ps (Null, s) = Inl NullDeref"
  using assms(3,4)
proof (induction ps)
  case (Cons q ps)
  from Cons.prems(1) obtain perif where q: "perifs s q = Obj perif" by auto
  show ?case
  proof (cases "p_cntl_fd perif = -1")
    case True
    with q have "diag_cntl_send_msg_mask q Null s = Inr (Null, s)" by (simp add: diag_cntl_send_msg_mask_def Let_def)
    moreover have "fold_res (\<lambda>p (rng, s). diag_cntl_send_msg_mask p rng s) ps (Null, s) = Inl NullDeref"
      using Cons q True by auto
    ultimately show ?thesis by simp
  next
    case False
    with q assms(1,2) show ?thesis by (simp add: send_msg_mask_no_range)
  qed
qed simp

lemma msg_set_all_null:
  fixes s :: "'z cntl_state_scheme"
  assumes ready: "masks_ready s" and req: "rd32 req 3 = Inr w" "7 \<le> cap req" and w: "w \<noteq> 0"
    and p: "p \<in> set (peripherals s)" "perifs s p = Obj perif" "p_cntl_fd perif \<noteq> -1"
  shows "msg_set_all client req 7 s = Inl NullDeref"
proof -
  have wf: "msg_masks_wf s" "perifs_wf s" using ready by (simp_all add: masks_ready_def)
  from set_all_msg_mask_ok [OF wf(1), of w] obtain s1 where s1: "diag_cmd_set_all_msg_mask w s = Inr s1"
      "msg_masks_wf s1" "diag_get_msg_mask_status s1 = DIAG_CTRL_MASK_ALL_ENABLED"
    using w by auto
  have frame: "perifs s1 = perifs s" "peripherals s1 = peripherals s"
    using s1(1) by (auto simp: diag_cmd_set_all_msg_mask_def andthen_eq_Inr set_msg_status_def set_msg_table_def)
  have "peripheral_broadcast_msg_mask Null s1 = Inl NullDeref"
    unfolding peripheral_broadcast_msg_mask_def
    by (rule broadcast_no_range) (use s1(2,3) frame p wf(2) in \<open>auto simp: perifs_wf_def\<close>)
  then show ?thesis
    using req s1(1) by (simp add: msg_set_all_def rd_bytes_ok rd8_ok)
qed

section \<open>Setting a log mask\<close>

lemma set_log_mask_frame:
  fixes s :: "'z cntl_state_scheme"
  assumes "diag_cmd_set_log_mask e n p z s = Inr (r, n', z', s')" and "log_masks_wf s" and "unat e < MAX_EQUIP_ID"
  shows "clients s' = clients s \<and> perifs s' = perifs s \<and> peripherals s' = peripherals s \<and> queues s' = queues s \<and>
    event_mask s' = event_mask s \<and> event_max_num_bits s' = event_max_num_bits s \<and> msg_mask s' = msg_mask s \<and>
    msg_bt_mask s' = msg_bt_mask s \<and> alloc_ok s' = alloc_ok s"
proof -
  from assms(2) obtain tbl where tbl: "mi_ptr (log_mask s) = Obj tbl" "log_table_wf tbl"
    by (auto simp: log_masks_wf_def)
  obtain q where q: "lm_ptr (tbl ! unat e) = Obj q" "length q = 512" "lm_range_tools (tbl ! unat e) = 512"
    using tbl(2) assms(3) by (auto simp: log_table_wf_def log_item_wf_def)
  have "\<not> bits_to_bytes32 (log_capped n) > 512"
    using log_size_le [OF log_capped_le, of n] by (simp add: word_less_nat_alt)
  then show ?thesis
    using assms(1,3) tbl q
    by (auto simp: diag_cmd_set_log_mask_def log_index Let_def andthen_eq_Inr fill_ok set_log_status_def set_log_table_def
        simp flip: log_capped_def)
qed

lemma announce_log_and_respond:
  fixes s :: "'z cntl_state_scheme"
  assumes "masks_ready s" and c: "c < length (clients s)"
  shows "\<exists>s'. andthen (peripheral_broadcast_log_mask e s) (\<lambda>s. respond (Some c) resp s) = Inr (0, s') \<and>
    only_queues s s' \<and>
    (\<forall>q. queues s' q = queues s q @ announced s (log_mask_packet s e) (peripherals s) q @ replied s c resp q)"
proof -
  have "log_masks_wf s" "mem_ok s" "perifs_wf s" "dm_wf s"
    using assms(1) by (simp_all add: masks_ready_def dm_wf_def)
  then obtain s1 where s1: "peripheral_broadcast_log_mask e s = Inr s1" "only_queues s s1"
      "\<forall>q. queues s1 q = queues s q @ announced s (log_mask_packet s e) (peripherals s) q"
    using broadcast_log_mask_ok [of s e] by blast
  have "dm_wf s1" "c < length (clients s1)"
    using s1(2) \<open>dm_wf s\<close> c by (simp_all add: only_queues_def dm_wf_def)
  then obtain s2 where s2: "respond (Some c) resp s1 = Inr (0, s2)" "only_queues s1 s2"
      "\<forall>q. queues s2 q = queues s1 q @ replied s1 c resp q"
    using respond_ok [of s1 c resp] by blast
  then show ?thesis
    using s1 only_queues_trans [OF s1(2) s2(2)] replied_frame [of s1 s] s1(2)
    by (auto simp: only_queues_def)
qed

lemma ready_log:
  assumes "masks_ready s" and "log_masks_wf s'" and "clients s' = clients s" "perifs s' = perifs s"
    "peripherals s' = peripherals s" "event_mask s' = event_mask s" "event_max_num_bits s' = event_max_num_bits s"
    "msg_mask s' = msg_mask s" "msg_bt_mask s' = msg_bt_mask s" "alloc_ok s' = alloc_ok s"
  shows "masks_ready s'"
  using assms
  by (simp add: masks_ready_def dm_wf_def perifs_wf_def event_masks_wf_def msg_masks_wf_def build_masks_wf_def mem_ok_def)

text \<open>
  Reading a request whose item count has been replaced by itself reads the request.
\<close>

lemma rd32_bytes:
  assumes "rd32 m i = Inr w"
  shows "byte m i = le32 w ! 0" "byte m (i + 1) = le32 w ! 1" "byte m (i + 2) = le32 w ! 2" "byte m (i + 3) = le32 w ! 3"
proof -
  have w: "w = u32_of (byte m i) (byte m (i + 1)) (byte m (i + 2)) (byte m (i + 3))"
    using assms by (auto simp: rd32_def split: if_splits)
  show "byte m i = le32 w ! 0" "byte m (i + 1) = le32 w ! 1" "byte m (i + 2) = le32 w ! 2" "byte m (i + 3) = le32 w ! 3"
    unfolding w by (simp_all add: le32_u32_of)
qed

text \<open>
  Setting a log mask of a known equipment id: the mask is stored and announced. The
  response echoes the header and the first \<open>size\<close> bytes of the mask structure, so that the last
  8 bytes of the mask are missing, and is followed by 16 indeterminate bytes.
\<close>

definition log_response :: "'z heap_scheme \<Rightarrow> mem \<Rightarrow> nat \<Rightarrow> u8 list" where
  "log_response s req k =
     map (byte req) [0..<8] @ le32 0 @ map (\<lambda>i. byte req (8 + i)) [0..<k] @ drop (12 + k) (fresh_bytes s (28 + k))"

text \<open>The three copies into the response, in the order of the code.\<close>

lemma log_response_stores:
  assumes "length fresh = 28 + k" and "length hdr = 8" and "length st = k"
  shows "andthen (store fresh 0 hdr) (\<lambda>r. andthen (store r 12 st) (\<lambda>r. store r 8 (le32 0))) =
    Inr (hdr @ le32 0 @ st @ drop (12 + k) fresh)"
proof -
  have "store fresh 0 hdr = Inr (hdr @ drop 8 fresh)" using assms by (simp add: store_ok)
  moreover have "store (hdr @ drop 8 fresh) 12 st = Inr (hdr @ take 4 (drop 8 fresh) @ st @ drop (12 + k) fresh)"
    using assms by (simp add: store_ok)
  moreover have "store (hdr @ take 4 (drop 8 fresh) @ st @ drop (12 + k) fresh) 8 (le32 0) =
      Inr (hdr @ le32 0 @ st @ drop (12 + k) fresh)"
    using assms by (simp add: store_ok)
  ultimately show ?thesis by simp
qed

lemma andthen_chain:
  "andthen a (\<lambda>x. andthen (b x) c) = Inr y \<Longrightarrow>
   andthen a (\<lambda>x. andthen (b x) (\<lambda>z. andthen (c z) f)) = f y"
  by (auto simp: andthen_eq_Inr)

lemma same_word:
  assumes "rd32 req 12 = Inr n"
  shows "req\<lparr>byte := (\<lambda>i. if 12 \<le> i \<and> i < 16 then le32 n ! (i - 12) else byte req i)\<rparr> = req"
proof -
  have "(if 12 \<le> i \<and> i < 16 then le32 n ! (i - 12) else byte req i) = byte req i" for i
  proof (cases "12 \<le> i \<and> i < 16")
    case True
    then have "i = 12 \<or> i = 13 \<or> i = 14 \<or> i = 15" by arith
    then show ?thesis using rd32_bytes [OF assms] by auto
  qed auto
  then show ?thesis by simp
qed

lemma log_set_mask_ok:
  fixes s :: "'z cntl_state_scheme"
  assumes ready: "masks_ready s" and c: "c < length (clients s)"
    and e: "rd32 req 8 = Inr e" "unat e < MAX_EQUIP_ID"
    and n: "rd32 req 12 = Inr n" "n \<le> MAX_ITEMS_ALLOWED" and size: "k = unat (bits_to_bytes32 n)" "4 \<le> k"
    and len: "len = 16 + k" "len \<le> cap req"
  shows "\<exists>s'. log_set_mask (Some c) req len s = Inr (0, s') \<and> masks_ready s' \<and>
    log_view s' = (log_view s)(unat e \<mapsto> (n, map (\<lambda>i. byte req (16 + i)) [0..<k])) \<and>
    (\<forall>q. queues s' q = queues s q @ announced s (log_mask_packet s' e) (peripherals s) q @
       replied s c (log_response s req k) q)"
proof -
  let ?e = "ucast e :: u8" and ?s0 = "s\<lparr>alloc_no := Suc (alloc_no s)\<rparr>"
  let ?bits = "map (\<lambda>i. byte req (16 + i)) [0..<k]" and ?fresh = "fresh_bytes s (28 + k)"
  have wf: "log_masks_wf s" "mem_ok s" using ready by (simp_all add: masks_ready_def dm_wf_def)
  have wf0: "log_masks_wf ?s0" using wf(1) by (simp add: log_masks_wf_def)
  have capped: "log_capped n = n" using n(2) by (auto simp: log_capped_def)
  have k512: "k \<le> 512" using log_size_le [OF n(2)] size(1) by simp
  have e8: "unat ?e = unat e" using e(2) by (simp add: unsigned_ucast_eq take_bit_nat_eq_self MAX_EQUIP_ID_def)
  have rd: "rd_bytes (mem_drop 16 req) 0 (unat (bits_to_bytes32 (log_capped n))) = Inr ?bits"
    using len capped size(1) by (simp add: rd_bytes_ok)
  from set_log_mask_ok [OF wf0 _ rd, where e = ?e and sz = "8 + bits_to_bytes32 n"] e8 e(2) capped obtain s1 where
    s1: "diag_cmd_set_log_mask ?e n (mem_drop 16 req) (8 + bits_to_bytes32 n) ?s0 = Inr (0, n, bits_to_bytes32 n, s1)"
      "log_masks_wf s1" "log_view s1 = (log_view ?s0)(unat e \<mapsto> (n, ?bits))" by auto
  have frame: "clients s1 = clients s" "perifs s1 = perifs s" "peripherals s1 = peripherals s" "queues s1 = queues s"
    "event_mask s1 = event_mask s" "event_max_num_bits s1 = event_max_num_bits s" "msg_mask s1 = msg_mask s"
    "msg_bt_mask s1 = msg_bt_mask s" "alloc_ok s1 = alloc_ok s"
    using set_log_mask_frame [OF s1(1) wf0] e8 e(2) by simp_all
  have ready1: "masks_ready s1" using ready_log [OF ready s1(2)] frame by simp
  have c1: "c < length (clients s1)" using c frame by simp
  let ?resp = "log_response s req k"
  from announce_log_and_respond [OF ready1 c1, of e ?resp] obtain s2 where
    s2: "andthen (peripheral_broadcast_log_mask e s1) (\<lambda>s. respond (Some c) ?resp s) = Inr (0, s2)" "only_queues s1 s2"
      "\<forall>q. queues s2 q = queues s1 q @ announced s1 (log_mask_packet s1 e) (peripherals s1) q @ replied s1 c ?resp q"
    by blast
  let ?hdr = "map (byte req) [0..<8]" and ?st = "map (\<lambda>i. byte req (8 + i)) [0..<k]"
  have "andthen (store ?fresh 0 ?hdr) (\<lambda>r. andthen (store r 12 ?st) (\<lambda>r. store r 8 (le32 0))) = Inr ?resp"
    unfolding log_response_def by (rule log_response_stores) simp_all
  then have chain: "andthen (store ?fresh 0 ?hdr) (\<lambda>r. andthen (store r 12 ?st) (\<lambda>r.
      andthen (store r 8 (le32 0)) f)) = f ?resp" for f :: "u8 list \<Rightarrow> (int \<times> 'z cntl_state_scheme) res"
    by (rule andthen_chain)
  have echo: "rd32 (mem_of ?resp) 12 = Inr e"
  proof (rule rd32_at)
    have "byte (mem_of ?resp) (12 + i) = byte req (8 + i)" if "i < 4" for i
      using that size(2) by (simp add: log_response_def nth_append del: upt_Suc)
    moreover have "byte req (8 + i) = le32 e ! i" if "i < 4" for i
      using that rd32_bytes [OF e(1)] by (auto simp: less_Suc_eq numeral_eq_Suc)
    ultimately show "\<forall>i < 4. byte (mem_of ?resp) (12 + i) = le32 e ! i" by simp
  qed (simp add: log_response_def)
  have szs: "unat (28 + bits_to_bytes32 n) = 28 + k" "8 + unat (8 + bits_to_bytes32 n) = len"
    using k512 size(1) len(1) by (simp_all add: unat_word_ariths)
  have rds: "rd_bytes req 0 8 = Inr ?hdr" "rd_bytes req 8 k = Inr ?st"
    using len by (simp_all add: rd_bytes_ok del: upt_Suc)
  have mal: "malloc (28 + k) s = (Some ?fresh, ?s0)" using wf(2) by (simp add: malloc_ok)
  have "log_set_mask (Some c) req len s = Inr (0, s2)"
    using chain echo s2(1)
    by (simp add: log_set_mask_def Let_def n(1) e(1) szs mal rds s1(1) same_word [OF n(1)]
        size(1) [symmetric] del: upt_Suc upt_rec_numeral)
  moreover have "masks_ready s2" using only_queues_ready [OF s2(2)] ready1 by simp
  moreover have "log_view s2 = (log_view s)(unat e \<mapsto> (n, ?bits))"
    using only_queues_views(2) [OF s2(2)] s1(3) log_view_cong [of ?s0 s] by simp
  moreover have "log_mask_packet s2 e = log_mask_packet s1 e"
    using only_queues_views(2) [OF s2(2)] s2(2)
    by (simp add: log_mask_packet_def diag_get_log_mask_status_def only_queues_def cong: if_cong)
  ultimately show ?thesis
    using s2(3) frame announced_frame [of s1 s] replied_frame [of s1 s] by auto
qed

end
