(* ===== verification/App_Cmds.thy ===== *)
theory App_Cmds
  imports Common_Cmds
begin

text \<open>
  The commands that the router answers when no peripheral has registered them
  (\<^verbatim>\<open>app_cmds.c\<close>).
\<close>

section \<open>Handlers\<close>

definition handle_diag_version ::
    "client_id option \<Rightarrow> mem \<Rightarrow> nat \<Rightarrow> 'z cntl_state_scheme \<Rightarrow> (int \<times> 'z cntl_state_scheme) res" where
  "handle_diag_version client req len s = dm_send client [28, 2] s"

definition handle_diag_version_no ::
    "client_id option \<Rightarrow> mem \<Rightarrow> nat \<Rightarrow> 'z cntl_state_scheme \<Rightarrow> (int \<times> 'z cntl_state_scheme) res" where
  "handle_diag_version_no client req len s = dm_send client (replicate 55 0) s"

text \<open>The strings \<^verbatim>\<open>"OE"\<close> and \<^verbatim>\<open>"DB410C"\<close>, each with its final zero.\<close>

definition software_revision :: "u8 list" where
  "software_revision = [0x4f, 0x45, 0]"

definition model_string :: "u8 list" where
  "model_string = [0x44, 0x42, 0x34, 0x31, 0x30, 0x43, 0]"

definition handle_extended_build_id ::
    "client_id option \<Rightarrow> mem \<Rightarrow> nat \<Rightarrow> 'z cntl_state_scheme \<Rightarrow> (int \<times> 'z cntl_state_scheme) res" where
  "handle_extended_build_id client req len s =
     (if len \<noteq> 1 then Inr (- EMSGSIZE, s)
      else
        let (_, s) = alloca (12 + length software_revision + length model_string) s in
        dm_send client ([124, 2] @ le16 0 @ le32 2 @ le32 0 @ software_revision @ model_string) s)"

definition handle_keep_alive ::
    "client_id option \<Rightarrow> mem \<Rightarrow> nat \<Rightarrow> 'z cntl_state_scheme \<Rightarrow> (int \<times> 'z cntl_state_scheme) res" where
  "handle_keep_alive client req len s = dm_send client ([75, 50, 3] @ replicate 13 0) s"

text \<open>
  The entries are copied one after another into a cleared buffer of 16384 bytes; the test
  before each copy is on the bytes already there, not on those to come.
\<close>

definition DIAG_MAX_RSP_SIZE :: nat where "DIAG_MAX_RSP_SIZE = 16384"

definition diag_id_info :: "diag_id_entry \<Rightarrow> u8 list" where
  "diag_id_info e = take (unat (di_info_len e)) ([di_diag_id e, di_name_len e] @ di_name e)"

fun copy_diag_ids :: "diag_id_entry list \<Rightarrow> nat \<Rightarrow> nat \<Rightarrow> u8 list \<Rightarrow> (nat \<times> nat \<times> u8 list) res" where
  "copy_diag_ids [] n resp_len resp = Inr (n, resp_len, resp)"
| "copy_diag_ids (e # es) n resp_len resp =
     (if resp_len \<ge> DIAG_MAX_RSP_SIZE then Inr (n, resp_len, resp)
      else
        andthen (store resp resp_len (diag_id_info e)) (\<lambda>resp.
          copy_diag_ids es (n + 1) (resp_len + unat (di_info_len e)) resp))"

definition handle_diag_id ::
    "client_id option \<Rightarrow> mem \<Rightarrow> nat \<Rightarrow> 'z cntl_state_scheme \<Rightarrow> (int \<times> 'z cntl_state_scheme) res" where
  "handle_diag_id client req len s =
     (if len < 5 then Inr (- EMSGSIZE, s)
      else
        andthen (rd_bytes req 0 5) (\<lambda>header.
        andthen (copy_diag_ids (diag_ids s) 0 6 (header @ replicate (DIAG_MAX_RSP_SIZE - 5) 0))
          (\<lambda>(n, resp_len, resp).
          dm_send client (take resp_len (resp[5 := of_nat n])) s)))"

definition handle_hdlc_disable_cmd ::
    "client_id option \<Rightarrow> mem \<Rightarrow> nat \<Rightarrow> 'z cntl_state_scheme \<Rightarrow> (int \<times> 'z cntl_state_scheme) res" where
  "handle_hdlc_disable_cmd client req len s =
     (if len < 4 then Inr (- EMSGSIZE, s)
      else
        andthen (rd_bytes req 0 4) (\<lambda>header.
        andthen (dm_send client (header @ [1, 0]) s) (\<lambda>(ret, s).
          Inr (ret, set_encode_type DIAG_ENCODE_NHDLC s))))"

section \<open>The table of ids\<close>

definition entry_wf :: "diag_id_entry \<Rightarrow> bool" where
  "entry_wf e \<longleftrightarrow> unat (di_info_len e) = length (di_name e) + 2"

definition ids_payload :: "diag_id_entry list \<Rightarrow> u8 list" where
  "ids_payload es = concat (map diag_id_info es)"

lemma length_diag_id_info: "entry_wf e \<Longrightarrow> length (diag_id_info e) = unat (di_info_len e)"
  by (simp add: entry_wf_def diag_id_info_def)

text \<open>As long as the entries fit the buffer, all of them are in the response.\<close>

lemma copy_diag_ids_ok:
  "\<forall>e \<in> set es. entry_wf e \<Longrightarrow> length resp = DIAG_MAX_RSP_SIZE \<Longrightarrow>
   k + length (ids_payload es) \<le> DIAG_MAX_RSP_SIZE \<Longrightarrow>
   copy_diag_ids es n k resp =
     Inr (n + length es, k + length (ids_payload es),
          take k resp @ ids_payload es @ drop (k + length (ids_payload es)) resp)"
proof (induction es arbitrary: n k resp)
  case Nil
  then show ?case by (simp add: ids_payload_def)
next
  case (Cons e es)
  let ?i = "diag_id_info e" and ?r = "take k resp @ diag_id_info e @ drop (k + length (diag_id_info e)) resp"
  have i: "length ?i = unat (di_info_len e)" "2 \<le> length ?i"
    using Cons.prems(1) by (simp_all add: length_diag_id_info entry_wf_def)
  have sz: "k + (length ?i + length (ids_payload es)) \<le> DIAG_MAX_RSP_SIZE"
    using Cons.prems(3) by (simp add: ids_payload_def)
  have st: "store resp k ?i = Inr ?r" using sz Cons.prems(2) by (simp add: store_ok)
  have "length ?r = DIAG_MAX_RSP_SIZE" using sz Cons.prems(2) by simp
  from Cons.IH [OF _ this, of "k + length ?i" "n + 1"] Cons.prems(1) sz have
    "copy_diag_ids es (n + 1) (k + length ?i) ?r =
       Inr (n + 1 + length es, k + length ?i + length (ids_payload es),
            take (k + length ?i) ?r @ ids_payload es @ drop (k + length ?i + length (ids_payload es)) ?r)"
    by (simp add: add.assoc)
  moreover have "take (k + length ?i) ?r = take k resp @ ?i" using sz Cons.prems(2) by simp
  moreover have "drop (k + length ?i + length (ids_payload es)) ?r = drop (k + length ?i + length (ids_payload es)) resp"
    using sz Cons.prems(2) by (simp add: ac_simps)
  moreover have "\<not> k \<ge> DIAG_MAX_RSP_SIZE" using sz i(2) by simp
  ultimately show ?case
    using st i(1) by (simp add: ids_payload_def add.assoc)
qed

text \<open>When they do not fit, the copy overruns the buffer.\<close>

lemma copy_diag_ids_overrun:
  "\<forall>e \<in> set es. entry_wf e \<Longrightarrow> length resp = DIAG_MAX_RSP_SIZE \<Longrightarrow> k \<le> DIAG_MAX_RSP_SIZE \<Longrightarrow>
   DIAG_MAX_RSP_SIZE < k + length (ids_payload es) \<Longrightarrow>
   (\<forall>j \<le> length es. k + length (ids_payload (take j es)) \<noteq> DIAG_MAX_RSP_SIZE) \<Longrightarrow>
   copy_diag_ids es n k resp = Inl OobWrite"
proof (induction es arbitrary: n k resp)
  case Nil
  then show ?case by (simp add: ids_payload_def)
next
  case (Cons e es)
  let ?i = "diag_id_info e" and ?r = "take k resp @ diag_id_info e @ drop (k + length (diag_id_info e)) resp"
  have i: "length ?i = unat (di_info_len e)" "2 \<le> length ?i"
    using Cons.prems(1) by (simp_all add: length_diag_id_info entry_wf_def)
  have k: "k < DIAG_MAX_RSP_SIZE"
    using Cons.prems(3) Cons.prems(5) [rule_format, of 0] by (simp add: ids_payload_def)
  show ?case
  proof (cases "k + length ?i \<le> DIAG_MAX_RSP_SIZE")
    case True
    have st: "store resp k ?i = Inr ?r" using True Cons.prems(2) by (simp add: store_ok)
    have lr: "length ?r = DIAG_MAX_RSP_SIZE" using True Cons.prems(2) by simp
    have "k + length ?i + length (ids_payload (take j es)) \<noteq> DIAG_MAX_RSP_SIZE" if "j \<le> length es" for j
      using Cons.prems(5) [rule_format, of "Suc j"] that by (simp add: ids_payload_def add.assoc)
    then have "copy_diag_ids es (n + 1) (k + length ?i) ?r = Inl OobWrite"
      using Cons.IH [OF _ lr True] Cons.prems(1,4) by (simp add: ids_payload_def add.assoc)
    then show ?thesis using st k i(1) by simp
  next
    case False
    then have "store resp k ?i = Inl OobWrite" using i(2) Cons.prems(2) by (auto simp: store_def)
    then show ?thesis using k by simp
  qed
qed

end
