(* ===== verification/Router.thy ===== *)
theory Router
  imports App_Cmds
begin

text \<open>
  The dispatcher (\<^verbatim>\<open>router.c\<close>) and the registration of the commands the router answers
  (\<^verbatim>\<open>register_common_cmds\<close>, \<^verbatim>\<open>register_app_cmds\<close>). A command goes to the first matching common
  command, else to every peripheral that registered it, else to the first matching
  fallback, else an error is sent back.
\<close>

record router_state = cntl_state +
  common_cmds :: "diag_cmd list"
  fallback_cmds :: "diag_cmd list"

section \<open>Registration\<close>

definition register_common_cmd :: "u32 \<Rightarrow> cmd_cb \<Rightarrow> 'z router_state_scheme \<Rightarrow> 'z router_state_scheme res" where
  "register_common_cmd cmd cb s =
     (let key = 0xffff0000 OR cmd in
      andthen (calloc_or_exit 40 s) (\<lambda>s.
        Inr (s\<lparr>common_cmds := common_cmds s @
          [\<lparr>dc_first = key, dc_last = key, dc_peripheral = None, dc_cb = Some cb\<rparr>]\<rparr>)))"

definition register_fallback_cmd :: "u32 \<Rightarrow> cmd_cb \<Rightarrow> 'z router_state_scheme \<Rightarrow> 'z router_state_scheme res" where
  "register_fallback_cmd cmd cb s =
     (let key = 0xffff0000 OR cmd in
      andthen (calloc_or_exit 40 s) (\<lambda>s.
        Inr (s\<lparr>fallback_cmds := fallback_cmds s @
          [\<lparr>dc_first = key, dc_last = key, dc_peripheral = None, dc_cb = Some cb\<rparr>]\<rparr>)))"

definition register_fallback_subsys_cmd ::
    "u32 \<Rightarrow> u32 \<Rightarrow> cmd_cb \<Rightarrow> 'z router_state_scheme \<Rightarrow> 'z router_state_scheme res" where
  "register_fallback_subsys_cmd subsys cmd cb s =
     (let key = push_bit 24 75 OR push_bit 16 (subsys AND 0xff) OR cmd in
      andthen (calloc_or_exit 40 s) (\<lambda>s.
        Inr (s\<lparr>fallback_cmds := fallback_cmds s @
          [\<lparr>dc_first = key, dc_last = key, dc_peripheral = None, dc_cb = Some cb\<rparr>]\<rparr>)))"

definition register_common_cmds :: "'z router_state_scheme \<Rightarrow> 'z router_state_scheme res" where
  "register_common_cmds s =
     andthen (register_common_cmd 0x73 HandleLoggingConfiguration s) (\<lambda>s.
     andthen (register_common_cmd 0x7d HandleExtendedMessageConfiguration s) (\<lambda>s.
     andthen (register_common_cmd 0x81 HandleEventGetMask s) (\<lambda>s.
     andthen (register_common_cmd 0x82 HandleEventSetMask s) (\<lambda>s.
       register_common_cmd 0x60 HandleEventReportControl s))))"

definition register_app_cmds :: "'z router_state_scheme \<Rightarrow> 'z router_state_scheme res" where
  "register_app_cmds s =
     andthen (register_fallback_cmd 28 HandleDiagVersion s) (\<lambda>s.
     andthen (register_fallback_cmd 0 HandleDiagVersionNo s) (\<lambda>s.
     andthen (register_fallback_cmd 124 HandleExtendedBuildId s) (\<lambda>s.
     andthen (register_fallback_subsys_cmd 50 3 HandleKeepAlive s) (\<lambda>s.
     andthen (register_fallback_subsys_cmd 18 0x222 HandleDiagId s) (\<lambda>s.
       register_fallback_subsys_cmd 18 0x218 HandleHdlcDisable s)))))"

section \<open>Dispatch\<close>

definition run_cb ::
    "cmd_cb \<Rightarrow> client_id option \<Rightarrow> mem \<Rightarrow> nat \<Rightarrow> 'z cntl_state_scheme \<Rightarrow> (int \<times> 'z cntl_state_scheme) res" where
  "run_cb cb = (case cb of
     HandleLoggingConfiguration \<Rightarrow> handle_logging_configuration
   | HandleExtendedMessageConfiguration \<Rightarrow> handle_extended_message_configuration
   | HandleEventGetMask \<Rightarrow> handle_event_get_mask
   | HandleEventSetMask \<Rightarrow> handle_event_set_mask
   | HandleEventReportControl \<Rightarrow> handle_event_report_control
   | HandleDiagVersion \<Rightarrow> handle_diag_version
   | HandleDiagVersionNo \<Rightarrow> handle_diag_version_no
   | HandleExtendedBuildId \<Rightarrow> handle_extended_build_id
   | HandleKeepAlive \<Rightarrow> handle_keep_alive
   | HandleDiagId \<Rightarrow> handle_diag_id
   | HandleHdlcDisable \<Rightarrow> handle_hdlc_disable_cmd)"

definition dispatch_key :: "mem \<Rightarrow> u32 res" where
  "dispatch_key ptr =
     andthen (rd8 ptr 0) (\<lambda>b0.
     if b0 = 75 \<or> b0 = 128 then
       andthen (rd8 ptr 1) (\<lambda>b1. andthen (rd8 ptr 3) (\<lambda>b3. andthen (rd8 ptr 2) (\<lambda>b2.
         Inr (push_bit 24 (ucast b0) OR push_bit 16 (ucast b1) OR push_bit 8 (ucast b3) OR ucast b2))))
     else Inr (push_bit 24 0xff OR push_bit 16 0xff OR ucast b0))"

definition matches :: "u32 \<Rightarrow> diag_cmd \<Rightarrow> bool" where
  "matches key dc \<longleftrightarrow> \<not> (key < dc_first dc \<or> key > dc_last dc)"

definition call_cb ::
    "diag_cmd \<Rightarrow> client_id option \<Rightarrow> mem \<Rightarrow> nat \<Rightarrow> 'z cntl_state_scheme \<Rightarrow> (int \<times> 'z cntl_state_scheme) res" where
  "call_cb dc client ptr len s =
     (case dc_cb dc of None \<Rightarrow> Inl NullDeref | Some cb \<Rightarrow> run_cb cb client ptr len s)"

text \<open>The second loop: every matching command, with the number of them.\<close>

fun dispatch_cmds ::
    "client_id option \<Rightarrow> mem \<Rightarrow> nat \<Rightarrow> u32 \<Rightarrow> diag_cmd list \<Rightarrow> nat \<Rightarrow> 'z cntl_state_scheme \<Rightarrow>
     (nat \<times> 'z cntl_state_scheme) res" where
  "dispatch_cmds client ptr len key [] handled s = Inr (handled, s)"
| "dispatch_cmds client ptr len key (dc # dcs) handled s =
     (if \<not> matches key dc then dispatch_cmds client ptr len key dcs handled s
      else
        andthen (case dc_cb dc of
                   Some _ \<Rightarrow> call_cb dc client ptr len s
                 | None \<Rightarrow> andthen (rd_bytes ptr 0 len) (\<lambda>msg. peripheral_send (dc_peripheral dc) msg s))
          (\<lambda>(_, s). dispatch_cmds client ptr len key dcs (handled + 1) s))"

definition diag_cmd_dispatch ::
    "client_id option \<Rightarrow> mem \<Rightarrow> nat \<Rightarrow> 'z router_state_scheme \<Rightarrow> (int \<times> 'z router_state_scheme) res" where
  "diag_cmd_dispatch client ptr len s =
     andthen (dispatch_key ptr) (\<lambda>key.
     case List.find (matches key) (common_cmds s) of
       Some dc \<Rightarrow> call_cb dc client ptr len s
     | None \<Rightarrow>
         andthen (dispatch_cmds client ptr len key (diag_cmds s) 0 s) (\<lambda>(handled, s).
         if handled \<noteq> 0 then Inr (0, s)
         else case List.find (matches key) (fallback_cmds s) of
                Some dc \<Rightarrow> call_cb dc client ptr len s
              | None \<Rightarrow> Inr (- ENOENT, s)))"

definition BAD_COMMAND :: u8 where "BAD_COMMAND = 0x13"
definition BAD_PARAMS :: u8 where "BAD_PARAMS = 0x14"
definition BAD_LENGTH :: u8 where "BAD_LENGTH = 0x15"

definition diag_rsp_bad_command ::
    "client_id option \<Rightarrow> mem \<Rightarrow> nat \<Rightarrow> u8 \<Rightarrow> 'z router_state_scheme \<Rightarrow> 'z router_state_scheme res" where
  "diag_rsp_bad_command client msg len code s =
     andthen (calloc_or_exit (len + 1) s) (\<lambda>s.
     andthen (rd_bytes msg 0 len) (\<lambda>bytes.
     andthen (dm_send client (code # bytes) s) (\<lambda>(_, s). Inr s)))"

definition diag_client_handle_command ::
    "client_id option \<Rightarrow> mem \<Rightarrow> nat \<Rightarrow> 'z router_state_scheme \<Rightarrow> (int \<times> 'z router_state_scheme) res" where
  "diag_client_handle_command client data len s =
     andthen (diag_cmd_dispatch client data len s) (\<lambda>(ret, s).
     andthen (if ret = - ENOENT then diag_rsp_bad_command client data len BAD_COMMAND s
              else if ret = - EINVAL then diag_rsp_bad_command client data len BAD_PARAMS s
              else if ret = - EMSGSIZE then diag_rsp_bad_command client data len BAD_LENGTH s
              else Inr s) (\<lambda>s. Inr (0, s)))"

section \<open>The tables of commands\<close>

definition own_cmd :: "u32 \<Rightarrow> cmd_cb \<Rightarrow> diag_cmd" where
  "own_cmd key cb = \<lparr>dc_first = key, dc_last = key, dc_peripheral = None, dc_cb = Some cb\<rparr>"

definition common_table :: "diag_cmd list" where
  "common_table =
     [own_cmd 0xffff0073 HandleLoggingConfiguration, own_cmd 0xffff007d HandleExtendedMessageConfiguration,
      own_cmd 0xffff0081 HandleEventGetMask, own_cmd 0xffff0082 HandleEventSetMask,
      own_cmd 0xffff0060 HandleEventReportControl]"

definition fallback_table :: "diag_cmd list" where
  "fallback_table =
     [own_cmd 0xffff001c HandleDiagVersion, own_cmd 0xffff0000 HandleDiagVersionNo,
      own_cmd 0xffff007c HandleExtendedBuildId, own_cmd 0x4b320003 HandleKeepAlive,
      own_cmd 0x4b120222 HandleDiagId, own_cmd 0x4b120218 HandleHdlcDisable]"

lemma matches_own [simp]: "matches key (own_cmd k cb) \<longleftrightarrow> key = k"
  by (auto simp: matches_def own_cmd_def)

lemma register_common_cmds_ok:
  assumes "mem_ok s" and "common_cmds s = []"
  shows "\<exists>s'. register_common_cmds s = Inr s' \<and> common_cmds s' = common_table \<and> mem_ok s' \<and>
    fallback_cmds s' = fallback_cmds s"
proof -
  have ok: "mem_ok (s\<lparr>alloc_no := k, common_cmds := cs\<rparr>)" for k cs using assms(1) by (simp add: mem_ok_def)
  show ?thesis
    using assms ok
    by (simp add: register_common_cmds_def register_common_cmd_def calloc_ok common_table_def own_cmd_def Let_def)
qed

lemma register_app_cmds_ok:
  assumes "mem_ok s" and "fallback_cmds s = []"
  shows "\<exists>s'. register_app_cmds s = Inr s' \<and> fallback_cmds s' = fallback_table \<and> mem_ok s' \<and>
    common_cmds s' = common_cmds s"
proof -
  have ok: "mem_ok (s\<lparr>alloc_no := k, fallback_cmds := cs\<rparr>)" for k cs using assms(1) by (simp add: mem_ok_def)
  show ?thesis
    using assms ok
    by (simp add: register_app_cmds_def register_fallback_cmd_def register_fallback_subsys_cmd_def calloc_ok
        fallback_table_def own_cmd_def Let_def)
qed

lemma dispatch_key_byte:
  "0 < cap m \<Longrightarrow> byte m 0 \<noteq> 75 \<Longrightarrow> byte m 0 \<noteq> 128 \<Longrightarrow> dispatch_key m = Inr (0xffff0000 OR ucast (byte m 0))"
  by (simp add: dispatch_key_def rd8_ok flip: or.assoc)

section \<open>Dispatching\<close>

text \<open>
  Common commands come first: neither the peripherals nor the fallbacks see a command of
  theirs.
\<close>

lemma dispatch_common:
  assumes "dispatch_key ptr = Inr key" and "common_cmds s = common_table"
    and "List.find (matches key) common_table = Some (own_cmd key cb)"
  shows "diag_cmd_dispatch client ptr len s = run_cb cb client ptr len s"
  using assms by (simp add: diag_cmd_dispatch_def call_cb_def own_cmd_def)

text \<open>Every registered command belongs to a peripheral that is still there.\<close>

definition cmds_live :: "'z cntl_state_scheme \<Rightarrow> bool" where
  "cmds_live s \<longleftrightarrow> (\<forall>dc \<in> set (diag_cmds s). dc_cb dc = None \<and>
     (\<exists>p perif. dc_peripheral dc = Some p \<and> perifs s p = Obj perif))"

text \<open>What a queue gets from forwarding a message to the commands of a list.\<close>

definition forwarded_one :: "'z cntl_state_scheme \<Rightarrow> u8 list \<Rightarrow> queue_id \<Rightarrow> diag_cmd \<Rightarrow> mbuf list" where
  "forwarded_one s msg q dc =
     (case dc_peripheral dc of
        None \<Rightarrow> []
      | Some p \<Rightarrow> (case perifs s p of
          Obj perif \<Rightarrow> if q = perif_queue p perif then [mbuf_for (perif_encode perif msg) None] else []
        | _ \<Rightarrow> []))"

definition forwarded :: "'z cntl_state_scheme \<Rightarrow> u8 list \<Rightarrow> diag_cmd list \<Rightarrow> queue_id \<Rightarrow> mbuf list" where
  "forwarded s msg dcs q = concat (map (forwarded_one s msg q) dcs)"

lemma forwarded_cong:
  assumes "perifs s' = perifs s"
  shows "forwarded s' = forwarded s"
  unfolding forwarded_def forwarded_one_def assms ..

lemma dispatch_cmds_ok:
  fixes s :: "'z cntl_state_scheme"
  assumes "rd_bytes ptr 0 len = Inr msg"
  shows "mem_ok s \<Longrightarrow> \<forall>dc \<in> set dcs. dc_cb dc = None \<and> (\<exists>p perif. dc_peripheral dc = Some p \<and> perifs s p = Obj perif) \<Longrightarrow>
    \<exists>s'. dispatch_cmds client ptr len key dcs k s = Inr (k + length (filter (matches key) dcs), s') \<and>
      only_queues s s' \<and> (\<forall>q. queues s' q = queues s q @ forwarded s msg (filter (matches key) dcs) q)"
proof (induction dcs arbitrary: k s)
  case Nil
  then show ?case by (simp add: forwarded_def)
next
  case (Cons dc dcs)
  show ?case
  proof (cases "matches key dc")
    case False
    with Cons show ?thesis by simp
  next
    case True
    from Cons.prems(2) obtain p perif where p: "dc_cb dc = None" "dc_peripheral dc = Some p" "perifs s p = Obj perif"
      by auto
    let ?s = "pushed (perif_queue p perif) (perif_encode perif msg) None
      (bump (if has_feature perif FEATURE_APPS_HDLC_ENCODE then 1 else 2) s)"
    note send = peripheral_send_ok [OF Cons.prems(1) p(3), of msg]
    have "mem_ok ?s" using Cons.prems(1) by simp
    from Cons.IH [OF this, of "k + 1"] Cons.prems(2) obtain s' where
      s': "dispatch_cmds client ptr len key dcs (k + 1) ?s = Inr (k + 1 + length (filter (matches key) dcs), s')"
        "only_queues ?s s'" "\<forall>q. queues s' q = queues ?s q @ forwarded ?s msg (filter (matches key) dcs) q" by auto
    have "forwarded ?s = forwarded s" by (rule forwarded_cong) simp
    then have "queues s' q = queues s q @ forwarded s msg (filter (matches key) (dc # dcs)) q" for q
      using s'(3) True p by (simp add: forwarded_def forwarded_one_def)
    moreover have "dispatch_cmds client ptr len key (dc # dcs) k s =
        Inr (k + length (filter (matches key) (dc # dcs)), s')"
      using True p(1,2) assms send s'(1) by simp
    ultimately show ?thesis
      using only_queues_trans [OF only_queues_pushed s'(2)] by blast
  qed
qed

text \<open>
  A command that some peripheral has registered goes to every peripheral that has, in the
  order of registration, and nowhere else.
\<close>

lemma dispatch_registered:
  assumes key: "dispatch_key ptr = Inr key" and none: "List.find (matches key) (common_cmds s) = None"
    and some: "filter (matches key) (diag_cmds s) \<noteq> []" and ok: "mem_ok s" and live: "cmds_live s"
    and msg: "rd_bytes ptr 0 len = Inr msg"
  shows "\<exists>s'. diag_cmd_dispatch client ptr len s = Inr (0, s') \<and>
    (\<forall>q. queues s' q = queues s q @ forwarded s msg (filter (matches key) (diag_cmds s)) q)"
proof -
  from dispatch_cmds_ok [OF msg ok, of "diag_cmds s" client key 0] live obtain s' where
    "dispatch_cmds client ptr len key (diag_cmds s) 0 s = Inr (length (filter (matches key) (diag_cmds s)), s')"
    "\<forall>q. queues s' q = queues s q @ forwarded s msg (filter (matches key) (diag_cmds s)) q"
    by (auto simp: cmds_live_def)
  with key none some show ?thesis by (simp add: diag_cmd_dispatch_def)
qed

text \<open>A command nobody knows: the client gets it back behind an error code.\<close>

lemma dispatch_unknown:
  assumes key: "dispatch_key ptr = Inr key" and "List.find (matches key) (common_cmds s) = None"
    and "filter (matches key) (diag_cmds s) = []" and "List.find (matches key) (fallback_cmds s) = None"
  shows "diag_cmd_dispatch client ptr len s = Inr (- ENOENT, s)"
proof -
  have "dispatch_cmds client ptr len key dcs k t = Inr (k, t)" if "filter (matches key) dcs = []"
    for dcs k and t :: "'a router_state_scheme"
    using that by (induction dcs arbitrary: k) (auto split: if_splits)
  with assms show ?thesis by (simp add: diag_cmd_dispatch_def)
qed

definition error_code :: "int \<Rightarrow> u8 option" where
  "error_code ret =
     (if ret = - ENOENT then Some BAD_COMMAND else if ret = - EINVAL then Some BAD_PARAMS
      else if ret = - EMSGSIZE then Some BAD_LENGTH else None)"

lemma handle_command_error:
  fixes s :: "'z router_state_scheme"
  assumes disp: "diag_cmd_dispatch (Some c) ptr len s = Inr (ret, s1)" and code: "error_code ret = Some e"
    and wf: "dm_wf s1" and c: "c < length (clients s1)" and msg: "rd_bytes ptr 0 len = Inr msg"
  shows "\<exists>s'. diag_client_handle_command (Some c) ptr len s = Inr (0, s') \<and>
    (\<forall>q. queues s' q = queues s1 q @ replied s1 c (e # msg) q)"
proof -
  let ?s1 = "s1\<lparr>alloc_no := Suc (alloc_no s1)\<rparr>"
  have wf': "dm_wf ?s1" "c < length (clients ?s1)" "mem_ok s1" using wf c by (simp_all add: dm_wf_def mem_ok_def)
  from dm_send_flow_ok [OF wf'(1,2), of "e # msg" None] have
    "\<exists>s'. diag_rsp_bad_command (Some c) ptr len e s1 = Inr s' \<and> (\<forall>q. queues s' q = queues s1 q @ replied s1 c (e # msg) q)"
    using msg wf'(3) by (auto simp: diag_rsp_bad_command_def calloc_ok dm_send_def replied_def)
  with disp code show ?thesis
    by (auto simp: diag_client_handle_command_def error_code_def split: if_splits)
qed

lemma handle_command_unknown:
  fixes s :: "'z router_state_scheme"
  assumes "dispatch_key ptr = Inr key" and "List.find (matches key) (common_cmds s) = None"
    and "filter (matches key) (diag_cmds s) = []" and "List.find (matches key) (fallback_cmds s) = None"
    and "dm_wf s" and "c < length (clients s)" and "rd_bytes ptr 0 len = Inr msg"
  shows "\<exists>s'. diag_client_handle_command (Some c) ptr len s = Inr (0, s') \<and>
    (\<forall>q. queues s' q = queues s q @ replied s c (BAD_COMMAND # msg) q)"
  by (rule handle_command_error [OF dispatch_unknown [OF assms(1-4)] _ assms(5-7)]) (simp add: error_code_def)

text \<open>A request of the wrong length to a handler that tests it first.\<close>

lemma handle_event_get_wrong_length:
  fixes s :: "'z router_state_scheme"
  assumes "common_cmds s = common_table" and "0 < cap ptr" and "byte ptr 0 = 0x81" and "len \<noteq> 4"
    and "dm_wf s" and "c < length (clients s)" and "rd_bytes ptr 0 len = Inr msg"
  shows "\<exists>s'. diag_client_handle_command (Some c) ptr len s = Inr (0, s') \<and>
    (\<forall>q. queues s' q = queues s q @ replied s c (BAD_LENGTH # msg) q)"
proof (rule handle_command_error [OF _ _ assms(5-7)])
  have "dispatch_key ptr = Inr 0xffff0081" using dispatch_key_byte [of ptr] assms(2,3) by simp
  then show "diag_cmd_dispatch (Some c) ptr len s = Inr (- EMSGSIZE, s)"
    using assms(1,4) dispatch_common [where ptr = ptr and key = "0xffff0081" and s = s and cb = HandleEventGetMask]
    by (simp add: common_table_def run_cb_def handle_event_get_mask_def)
qed (simp add: error_code_def errno_defs)

section \<open>Event masks from end to end\<close>

text \<open>
  Through the dispatcher: a client sets the event mask, a client reads it, and the answer
  has the bits that were set, followed by the older bits beyond them.
\<close>

lemma router_fields:
  fixes s s' :: "'z router_state_scheme"
  assumes "cntl_state.more s' = cntl_state.more s"
  shows "common_cmds s' = common_cmds s" "fallback_cmds s' = fallback_cmds s"
  using assms by (cases s; cases s'; simp)+

lemma handle_common:
  assumes "common_cmds s = common_table" and "0 < cap ptr" and "byte ptr 0 = b" "b \<noteq> 75" "b \<noteq> 128"
    and "List.find (matches (0xffff0000 OR ucast b)) common_table = Some (own_cmd (0xffff0000 OR ucast b) cb)"
    and "run_cb cb client ptr len s = Inr (0, s')"
  shows "diag_client_handle_command client ptr len s = Inr (0, s')"
proof -
  have key: "dispatch_key ptr = Inr (0xffff0000 OR ucast b)" using dispatch_key_byte [of ptr] assms(2-5) by simp
  have "diag_cmd_dispatch client ptr len s = Inr (0, s')"
    using dispatch_common [OF key assms(1,6)] assms(7) by simp
  then show ?thesis by (simp add: diag_client_handle_command_def errno_defs)
qed

lemma event_bits_split:
  assumes "event_view s = (\<lambda>i. if i < length bits then Some (bits ! i) else v i)"
    and "length bits \<le> bits_to_bytes16 (event_max_num_bits s)"
  shows "\<exists>tl. event_bits s = bits @ tl"
proof -
  let ?k = "bits_to_bytes16 (event_max_num_bits s)"
  have "[0..<?k] = [0..<length bits] @ [length bits..<?k]"
    using upt_add_eq_append [of 0 "length bits" "?k - length bits"] assms(2) by (simp only: le0 le_add_diff_inverse)
  moreover have "map (\<lambda>i. the (event_view s i)) [0..<length bits] = map ((!) bits) [0..<length bits]"
    unfolding assms(1) by (rule map_cong) simp_all
  ultimately show ?thesis by (simp add: event_bits_def map_nth)
qed

lemma set_then_get_event_mask:
  fixes s :: "'z router_state_scheme"
  assumes ready: "masks_ready s" and table: "common_cmds s = common_table"
    and c: "c < length (clients s)" and d: "d < length (clients s)"
    and set: "byte req 0 = 0x82" "len = 6 + bits_to_bytes16 (pk16 req 4)" "len \<le> cap req"
      "rd_bytes req 6 (bits_to_bytes16 (pk16 req 4)) = Inr bits"
    and get: "byte req' 0 = 0x81" "4 \<le> cap req'"
  shows "\<exists>s1 s2 tl. diag_client_handle_command (Some c) req len s = Inr (0, s1) \<and>
    diag_client_handle_command (Some d) req' 4 s1 = Inr (0, s2) \<and> clients s1 = clients s \<and>
    (\<forall>q. queues s2 q = queues s1 q @
       replied s d ([0x81, 0, byte req' 2, byte req' 3] @ le16 (max (pk16 req 4) (event_max_num_bits s)) @ bits @ tl) q)"
proof -
  let ?n = "pk16 req 4"
  from handle_event_set_mask_ok [OF ready c refl set(2-4)] obtain s1 where
    s1: "handle_event_set_mask (Some c) req len s = Inr (0, s1)" "masks_ready s1" "clients s1 = clients s"
      "cntl_state.more s1 = cntl_state.more s" "event_max_num_bits s1 = max ?n (event_max_num_bits s)"
      "event_view s1 = (\<lambda>i. if i < length bits then Some (bits ! i) else event_view s i)" by blast
  have h1: "diag_client_handle_command (Some c) req len s = Inr (0, s1)"
    by (rule handle_common [OF table, where b = "0x82" and cb = HandleEventSetMask])
      (use set(1-3) s1(1) in \<open>simp_all add: common_table_def run_cb_def\<close>)
  have "d < length (clients s1)" using d s1(3) by simp
  from handle_event_get_mask_ok [OF s1(2) this get(2)] obtain s2 where
    s2: "handle_event_get_mask (Some d) req' 4 s1 = Inr (0, s2)"
      "\<forall>q. queues s2 q = queues s1 q @ replied s1 d ([byte req' 0, 0, byte req' 2, byte req' 3] @
         le16 (event_max_num_bits s1) @ event_bits s1) q" by blast
  have table1: "common_cmds s1 = common_table" using router_fields(1) [OF s1(4)] table by simp
  have h2: "diag_client_handle_command (Some d) req' 4 s1 = Inr (0, s2)"
    by (rule handle_common [OF table1, where b = "0x81" and cb = HandleEventGetMask])
      (use get s2(1) in \<open>simp_all add: common_table_def run_cb_def\<close>)
  have "length bits \<le> bits_to_bytes16 (event_max_num_bits s1)"
    using rd_bytes_Inr [OF set(4)] bits_to_bytes16_mono [of ?n "event_max_num_bits s1"] s1(5) by simp
  from event_bits_split [OF s1(6) this] obtain tl where "event_bits s1 = bits @ tl" by blast
  then show ?thesis
    using h1 h2 s1(3,5) s2(2) get(1) replied_frame [of s1 s] by auto
qed

section \<open>Live commands\<close>

lemma cmds_live_register:
  assumes "cmds_live s" and "perifs s p = Obj perif"
  shows "cmds_live (s\<lparr>alloc_no := k, diag_cmds := diag_cmds s @ map (pkt_cmd p pkt b st) is\<rparr>)"
  using assms by (auto simp: cmds_live_def pkt_cmd_def Let_def)

lemma cmds_live_deregister: "cmds_live s \<Longrightarrow> cmds_live (s\<lparr>diag_cmds := without_keys p K (diag_cmds s)\<rparr>)"
  by (auto simp: cmds_live_def without_keys_def)

text \<open>Closing a peripheral keeps this: the commands that remain belong to others.\<close>

lemma cmds_live_close:
  assumes "cmds_live s" and "perifs s p = Obj perif" and "p_ops perif = RpmsgOps" and "perifs_wf s"
  shows "\<exists>s'. peripheral_close p s = Inr s' \<and> cmds_live s' \<and> (\<forall>dc \<in> set (diag_cmds s'). dc_peripheral dc \<noteq> Some p)"
proof -
  from rpmsg_close_ok [OF assms(2-4)] obtain s' where s': "peripheral_close p s = Inr s'"
      "perifs s' = (perifs s)(p := Freed)" "diag_cmds s' = filter (\<lambda>dc. dc_peripheral dc \<noteq> Some p) (diag_cmds s)"
    by blast
  have "\<exists>p' perif'. dc_peripheral dc = Some p' \<and> perifs s' p' = Obj perif'"
    if dc: "dc \<in> set (diag_cmds s)" "dc_peripheral dc \<noteq> Some p" for dc
  proof -
    from assms(1) dc(1) obtain p' perif' where "dc_peripheral dc = Some p'" "perifs s p' = Obj perif'"
      by (auto simp: cmds_live_def)
    moreover from this dc(2) have "p' \<noteq> p" by auto
    ultimately show ?thesis using s'(2) by auto
  qed
  with s' assms(1) show ?thesis by (auto simp: cmds_live_def)
qed

end
