(* ===== verification/Dm_Recv.thy ===== *)
theory Dm_Recv
  imports Router
begin

text \<open>
  Receiving from a client (\<^verbatim>\<open>dm.c\<close>): raw input is handled read by read, encoded input goes
  through the receive buffer of the client. The descriptor is a script of what its reads
  will give.
\<close>

definition client_buf :: "client_id \<Rightarrow> 'z dm_state_scheme \<Rightarrow> circ_buf" where
  "client_buf c s = cl_recv_buf (clients s ! c)"

definition set_client_buf :: "client_id \<Rightarrow> circ_buf \<Rightarrow> 'z dm_state_scheme \<Rightarrow> 'z dm_state_scheme" where
  "set_client_buf c b s = set_client c (\<lambda>cl. cl\<lparr>cl_recv_buf := b\<rparr>) s"

section \<open>HDLC input\<close>

text \<open>
  The decoder is a local variable: it starts empty at every call. The loop ends because
  each frame takes bytes from the buffer; \<open>fuel\<close> bounds the number of frames.
\<close>

fun dm_recv_frames ::
    "nat \<Rightarrow> client_id \<Rightarrow> hdlc_decoder \<Rightarrow> circ_buf \<Rightarrow> 'z router_state_scheme \<Rightarrow>
     (int \<times> circ_buf \<times> 'z router_state_scheme) res" where
  "dm_recv_frames 0 c d b s = Inl Diverged"
| "dm_recv_frames (Suc fuel) c d b s =
     andthen (hdlc_decode_one d b) (\<lambda>(msg, d, b).
     case msg of
       None \<Rightarrow> Inr (0, b, s)
     | Some msglen \<Rightarrow>
         andthen (diag_client_handle_command (Some c) \<lparr>cap = HDLC_BUF_SIZE, byte = raw_buf d\<rparr> (unat msglen) s)
           (\<lambda>(_, s). dm_recv_frames fuel c d b s))"

definition dm_recv_hdlc ::
    "client_id \<Rightarrow> circ_buf \<Rightarrow> 'z router_state_scheme \<Rightarrow> (int \<times> circ_buf \<times> 'z router_state_scheme) res" where
  "dm_recv_hdlc c b s = dm_recv_frames HDLC_BUF_SIZE c decoder_zero b s"

section \<open>NHDLC input\<close>

text \<open>The receive buffer as the memory object it is: the ring, then \<^verbatim>\<open>head\<close> and \<^verbatim>\<open>tail\<close>.\<close>

definition circ_mem :: "circ_buf \<Rightarrow> mem" where
  "circ_mem b =
     \<lparr>cap = HDLC_BUF_SIZE + 16,
      byte = (\<lambda>i. if i < HDLC_BUF_SIZE then buf b i
                  else if i < HDLC_BUF_SIZE + 8 then ucast (drop_bit (8 * (i - HDLC_BUF_SIZE)) (head b))
                  else ucast (drop_bit (8 * (i - HDLC_BUF_SIZE - 8)) (tail b)))\<rparr>"

definition dm_check_nhdlc_pkt :: "mem \<Rightarrow> int res" where
  "dm_check_nhdlc_pkt pkt =
     andthen (rd8 pkt 0) (\<lambda>start.
     if start \<noteq> NHDLC_CONTROL_CHAR then Inr (- EINVAL)
     else
       andthen (rd16 pkt 2) (\<lambda>length.
       andthen (rd8 pkt (4 + unat length)) (\<lambda>last.
         if last \<noteq> NHDLC_CONTROL_CHAR then Inr (- EINVAL) else Inr 0)))"

definition DIAG_MAX_BAD_CMD :: u32 where "DIAG_MAX_BAD_CMD = 5"

definition diag_start_hdlc_recovery :: "client_id \<Rightarrow> 'z dm_state_scheme \<Rightarrow> (int \<times> 'z dm_state_scheme) res" where
  "diag_start_hdlc_recovery c s =
     andthen (if \<not> cl_hdlc_reset (clients s ! c)
              then andthen (watch_add_timer (TmHdlcReset c) 200 False s)
                     (\<lambda>s. Inr (set_client c (\<lambda>cl. cl\<lparr>cl_hdlc_reset := True\<rparr>) s))
              else Inr s) (\<lambda>s.
     let n = bad_cmd_counter s + 1 in
     if n > DIAG_MAX_BAD_CMD
     then Inr (0, set_client c (\<lambda>cl. cl\<lparr>cl_encode_type := DIAG_ENCODE_HDLC\<rparr>) (s\<lparr>bad_cmd_counter := 0\<rparr>))
     else Inr (0, s\<lparr>bad_cmd_counter := n\<rparr>))"

text \<open>The timer's callback.\<close>

definition diag_hdlc_reset :: "client_id \<Rightarrow> 'z dm_state_scheme \<Rightarrow> 'z dm_state_scheme" where
  "diag_hdlc_reset c s = set_client c (\<lambda>cl. cl\<lparr>cl_hdlc_reset := False\<rparr>) (set_encode_type DIAG_ENCODE_HDLC s)"

text \<open>
  The packet is taken from the start of the ring, whatever its \<^verbatim>\<open>tail\<close>; it is handled also
  when the check fails, and nothing is consumed.
\<close>

definition dm_recv_nhdlc ::
    "client_id \<Rightarrow> circ_buf \<Rightarrow> 'z router_state_scheme \<Rightarrow> (int \<times> circ_buf \<times> 'z router_state_scheme) res" where
  "dm_recv_nhdlc c b s =
     andthen (dm_check_nhdlc_pkt (circ_mem b)) (\<lambda>ret.
     andthen (if ret \<noteq> 0 then andthen (diag_start_hdlc_recovery c s) (\<lambda>(_, s). Inr s) else Inr s) (\<lambda>s.
     andthen (rd16 (circ_mem b) 2) (\<lambda>length.
     andthen (diag_client_handle_command (Some c) (mem_drop 4 (circ_mem b)) (unat length) s) (\<lambda>(_, s).
       Inr (ret, b, s)))))"

section \<open>Dispatch on the encoding\<close>

definition dm_decode_data ::
    "client_id \<Rightarrow> circ_buf \<Rightarrow> 'z router_state_scheme \<Rightarrow> (int \<times> circ_buf \<times> 'z router_state_scheme) res" where
  "dm_decode_data c b s =
     andthen (arr_read (clients s) c) (\<lambda>cl.
     if cl_encode_type cl = DIAG_ENCODE_HDLC then dm_recv_hdlc c b s
     else if cl_encode_type cl = DIAG_ENCODE_NHDLC then dm_recv_nhdlc c b s
     else Inr (- EINVAL, b, s))"

definition dm_recv_encoded ::
    "client_id \<Rightarrow> fd_event list \<Rightarrow> 'z router_state_scheme \<Rightarrow>
     (int \<times> fd_event list \<times> 'z router_state_scheme) res" where
  "dm_recv_encoded c es s =
     andthen (circ_read (client_buf c s) es) (\<lambda>(n, errno, b, es).
     let s = set_client_buf c b s in
     if n < 0 \<and> errno \<noteq> EAGAIN then Inr (- errno, es, s)
     else
       andthen (dm_decode_data c b s) (\<lambda>(ret, b, s). Inr (ret, es, set_client_buf c b s)))"

text \<open>
  Raw input: \<open>old\<close> is what the buffer on the stack held before, byte by byte.
\<close>

definition RAW_BUF_SIZE :: nat where "RAW_BUF_SIZE = 4096"

function dm_recv_raw_loop ::
    "client_id \<Rightarrow> int \<Rightarrow> (nat \<Rightarrow> u8) \<Rightarrow> fd_event list \<Rightarrow> 'z router_state_scheme \<Rightarrow>
     (int \<times> fd_event list \<times> 'z router_state_scheme) res" where
  "dm_recv_raw_loop c fd old es s =
     (let r = fd_read RAW_BUF_SIZE es in
      case fst r of
        Errno e \<Rightarrow> Inr (if e = EAGAIN then 0 else - e, snd r, s)
      | Got bs \<Rightarrow>
          if length bs = 0 then Inr (0, snd r, watch_remove_fd fd s)
          else
            let m = mem_msg bs RAW_BUF_SIZE old in
            andthen (diag_client_handle_command (Some c) m (length bs) s) (\<lambda>(_, s).
              dm_recv_raw_loop c fd (byte m) (snd r) s))"
  by pat_completeness auto

lemma fd_read_shrinks:
  "fst (fd_read n es) = Got bs \<Longrightarrow> bs \<noteq> [] \<Longrightarrow> length (script_bytes (snd (fd_read n es))) < length (script_bytes es)"
  using fd_read_bytes [of n es bs "snd (fd_read n es)"] by (cases "fd_read n es") auto

termination dm_recv_raw_loop
  by (relation "measure (\<lambda>(_, _, _, es, _). length (script_bytes es))") (auto intro: fd_read_shrinks)

declare dm_recv_raw_loop.simps [simp del]

definition dm_recv_raw ::
    "client_id \<Rightarrow> fd_event list \<Rightarrow> 'z router_state_scheme \<Rightarrow>
     (int \<times> fd_event list \<times> 'z router_state_scheme) res" where
  "dm_recv_raw c es s =
     (let stale = indet s (alloc_no s); (_, s) = alloca RAW_BUF_SIZE s in
      dm_recv_raw_loop c (cl_in_fd (clients s ! c)) stale es s)"

definition dm_recv ::
    "client_id option \<Rightarrow> fd_event list \<Rightarrow> 'z router_state_scheme \<Rightarrow>
     (int \<times> fd_event list \<times> 'z router_state_scheme) res" where
  "dm_recv dm es s =
     (case dm of
        None \<Rightarrow> Inr (- EINVAL, es, s)
      | Some c \<Rightarrow>
          andthen (arr_read (clients s) c) (\<lambda>cl.
          if cl_encode_type cl = DIAG_ENCODE_RAW then dm_recv_raw c es s
          else if cl_encode_type cl = DIAG_ENCODE_HDLC \<or> cl_encode_type cl = DIAG_ENCODE_NHDLC
          then dm_recv_encoded c es s
          else Inr (- EINVAL, es, s)))"

section \<open>What the HDLC loop handles\<close>

text \<open>
  The frames in the ring, check bytes included, and what is left in it: the loop stops at
  the first empty frame, and takes the bytes of an unfinished frame with it.
\<close>

lemma scan_rest_length: "scan esc bs = (ds, e, True, rest) \<Longrightarrow> length ds + length rest < length bs"
proof (induction esc bs arbitrary: ds rule: scan.induct)
  case (2 esc c cs)
  then show ?case by (fastforce split: if_splits prod.splits)
qed simp

lemma scan_unfinished: "scan esc bs = (ds, e, False, rest) \<Longrightarrow> rest = []"
proof (induction esc bs arbitrary: ds rule: scan.induct)
  case (2 esc c cs)
  then show ?case by (fastforce split: if_splits prod.splits)
qed simp

function frames_in :: "u8 list \<Rightarrow> u8 list list \<times> u8 list" where
  "frames_in bs =
     (case scan 0 bs of (ds, e, t, rest) \<Rightarrow>
        if t \<and> ds \<noteq> [] then (ds # fst (frames_in rest), snd (frames_in rest)) else ([], rest))"
  by pat_completeness auto

termination
  by (relation "measure length") (auto dest!: scan_rest_length [OF sym])

declare frames_in.simps [simp del]

definition frame_request :: "mem \<times> nat \<Rightarrow> u8 list \<Rightarrow> bool" where
  "frame_request r ds \<longleftrightarrow>
     cap (fst r) = HDLC_BUF_SIZE \<and> snd r = unat (of_nat (length ds) - 2 :: u64) \<and>
     map (byte (fst r)) [0..<length ds] = ds"

fun handle_all :: "client_id \<Rightarrow> (mem \<times> nat) list \<Rightarrow> 'z router_state_scheme \<Rightarrow> 'z router_state_scheme res" where
  "handle_all c [] s = Inr s"
| "handle_all c ((ptr, n) # rs) s =
     andthen (diag_client_handle_command (Some c) ptr n s) (\<lambda>(_, s). handle_all c rs s)"

lemma dm_recv_frames_spec:
  assumes "circ_inv b" and "decoder_idle d" and "circ_count b < fuel"
  shows "\<exists>reqs b'. list_all2 frame_request reqs (fst (frames_in (contents b))) \<and> circ_inv b' \<and>
    contents b' = snd (frames_in (contents b)) \<and>
    (\<forall>s :: 'z router_state_scheme. dm_recv_frames fuel c d b s = andthen (handle_all c reqs s) (\<lambda>s'. Inr (0, b', s')))"
  using assms
proof (induction fuel arbitrary: d b)
  case 0
  then show ?case by simp
next
  case (Suc fuel)
  obtain ds e t rest where sc: "scan 0 (contents b) = (ds, e, t, rest)" by (cases "scan 0 (contents b)") auto
  from hdlc_decode_one_scan [OF Suc.prems(1,2) sc] obtain d' b' where
    one: "hdlc_decode_one d b = Inr (if t \<and> ds \<noteq> [] then Some (of_nat (length ds) - 2) else None, d', b')"
      "circ_inv b'" "contents b' = rest" "decoded_prefix d' (length ds) = ds" "t \<and> ds \<noteq> [] \<longrightarrow> decoder_idle d'"
    by blast
  note frames = frames_in.simps [of "contents b", unfolded sc prod.case]
  show ?case
  proof (cases "t \<and> ds \<noteq> []")
    case False
    with one frames show ?thesis by (intro exI [of _ "[]"] exI [of _ b']) auto
  next
    case True
    then have "circ_count b' < fuel"
      using Suc.prems(3) scan_rest_length [of 0 "contents b"] sc one(3) length_contents [of b] length_contents [of b']
      by fastforce
    from Suc.IH [OF one(2) _ this, of d'] True one(5) obtain reqs b'' where
      more: "list_all2 frame_request reqs (fst (frames_in rest))" "circ_inv b''"
        "contents b'' = snd (frames_in rest)"
        "\<forall>s :: 'z router_state_scheme. dm_recv_frames fuel c d' b' s = andthen (handle_all c reqs s) (\<lambda>s'. Inr (0, b'', s'))"
      using one(3) by auto
    let ?m = "\<lparr>cap = HDLC_BUF_SIZE, byte = raw_buf d'\<rparr>"
    have r: "frame_request (?m, unat (of_nat (length ds) - 2 :: u64)) ds"
      using one(4) by (simp add: frame_request_def decoded_prefix_def)
    have "dm_recv_frames (Suc fuel) c d b s =
        andthen (handle_all c ((?m, unat (of_nat (length ds) - 2 :: u64)) # reqs) s) (\<lambda>s'. Inr (0, b'', s'))"
    for s :: "'z router_state_scheme"
      using True more(4)
      by (cases "diag_client_handle_command (Some c) ?m (unat (of_nat (length ds) - 2 :: u64)) s")
        (auto simp: one(1))
    with True r more frames show ?thesis
      by (intro exI [of _ "(?m, unat (of_nat (length ds) - 2 :: u64)) # reqs"] exI [of _ b'']) auto
  qed
qed

text \<open>The fuel is never used up: each frame takes a byte from the ring.\<close>

lemma dm_recv_hdlc_spec:
  assumes "circ_inv b"
  shows "\<exists>reqs b'. list_all2 frame_request reqs (fst (frames_in (contents b))) \<and> circ_inv b' \<and>
    contents b' = snd (frames_in (contents b)) \<and>
    (\<forall>s :: 'z router_state_scheme. dm_recv_hdlc c b s = andthen (handle_all c reqs s) (\<lambda>s'. Inr (0, b', s')))"
  using dm_recv_frames_spec [OF assms decoder_idle_zero circ_count_less [of b], of c]
  by (simp add: dm_recv_hdlc_def)

lemma scan_no_delimiter: "0x7e \<notin> set bs \<Longrightarrow> \<exists>ds e. scan esc bs = (ds, e, False, [])"
proof (induction esc bs rule: scan.induct)
  case (2 esc c cs)
  then show ?case by (auto split: prod.splits)
qed simp

lemma frames_in_partial: "0x7e \<notin> set part \<Longrightarrow> frames_in part = ([], [])"
  using scan_no_delimiter [of part 0] by (auto simp: frames_in.simps [of part])

lemma frames_in_encoded:
  "frames_in (hdlc_encode_bytes m @ rest) =
     ((m @ fcs_bytes (crc_of m)) # fst (frames_in rest), snd (frames_in rest))"
  by (simp add: frames_in.simps [of "hdlc_encode_bytes m @ rest"] scan_encoded fcs_bytes_def)

lemma frames_in_stream:
  "frames_in (concat (map hdlc_encode_bytes ms) @ rest) =
     (map (\<lambda>m. m @ fcs_bytes (crc_of m)) ms @ fst (frames_in rest), snd (frames_in rest))"
  by (induction ms) (simp_all add: frames_in_encoded)

text \<open>An empty frame, such as a delimiter that opens a frame, ends the loop.\<close>

lemma frames_in_delimiter: "frames_in (0x7e # rest) = ([], rest)"
  by (simp add: frames_in.simps [of "0x7e # rest"])

text \<open>A raw read is a request of its own, whose bytes start the buffer on the stack.\<close>

definition raw_request :: "mem \<times> nat \<Rightarrow> u8 list \<Rightarrow> bool" where
  "raw_request r bs \<longleftrightarrow>
     cap (fst r) = RAW_BUF_SIZE \<and> snd r = length bs \<and> map (byte (fst r)) [0..<length bs] = bs"

lemma dm_recv_raw_loop_data:
  assumes "\<forall>bs \<in> set bss. bs \<noteq> [] \<and> length bs \<le> RAW_BUF_SIZE"
  shows "\<exists>reqs. list_all2 raw_request reqs bss \<and>
    (\<forall>s :: 'z router_state_scheme. dm_recv_raw_loop c fd old (map Data bss) s =
       andthen (handle_all c reqs s) (\<lambda>s'. Inr (0, [], s')))"
  using assms
proof (induction bss arbitrary: old)
  case Nil
  then show ?case by (intro exI [of _ "[]"]) (simp add: dm_recv_raw_loop.simps)
next
  case (Cons bs bss)
  let ?m = "mem_msg bs RAW_BUF_SIZE old"
  from Cons.IH [of "byte ?m"] Cons.prems obtain reqs where
    more: "list_all2 raw_request reqs bss"
      "\<forall>s :: 'z router_state_scheme. dm_recv_raw_loop c fd (byte ?m) (map Data bss) s =
         andthen (handle_all c reqs s) (\<lambda>s'. Inr (0, [], s'))" by auto
  have "map (byte ?m) [0..<length bs] = bs" by (rule nth_equalityI) simp_all
  then have "raw_request (?m, length bs) bs" by (simp add: raw_request_def)
  moreover have "dm_recv_raw_loop c fd old (map Data (bs # bss)) s =
      andthen (handle_all c ((?m, length bs) # reqs) s) (\<lambda>s'. Inr (0, [], s'))"
    for s :: "'z router_state_scheme"
    using Cons.prems more(2)
    by (cases "diag_client_handle_command (Some c) ?m (length bs) s")
      (auto simp: dm_recv_raw_loop.simps [of c fd old "Data bs # map Data bss"])
  ultimately show ?case using more(1) by (intro exI [of _ "(?m, length bs) # reqs"]) simp
qed

section \<open>One call of the receive handler\<close>

lemma circ_read_inv:
  "circ_inv b \<Longrightarrow> circ_read b es = Inr (n, e, b', es') \<Longrightarrow> circ_inv b'"
  using circ_read_step [of b es] by auto

lemma dm_recv_hdlc_client:
  fixes s :: "'z router_state_scheme"
  assumes "c < length (clients s)" and "cl_encode_type (clients s ! c) = DIAG_ENCODE_HDLC"
    and "circ_inv (client_buf c s)" and "circ_read (client_buf c s) es = Inr (n, e, b, es')"
    and "n = 0 \<or> e = EAGAIN"
  shows "\<exists>reqs b'. list_all2 frame_request reqs (fst (frames_in (contents b))) \<and> circ_inv b' \<and>
    contents b' = snd (frames_in (contents b)) \<and>
    dm_recv (Some c) es s =
      andthen (handle_all c reqs (set_client_buf c b s)) (\<lambda>s'. Inr (0, es', set_client_buf c b' s'))"
proof -
  let ?s = "set_client_buf c b s"
  from dm_recv_hdlc_spec [OF circ_read_inv [OF assms(3,4)], of c] obtain reqs b' where
    r: "list_all2 frame_request reqs (fst (frames_in (contents b)))" "circ_inv b'"
      "contents b' = snd (frames_in (contents b))"
      "\<forall>s :: 'z router_state_scheme. dm_recv_hdlc c b s = andthen (handle_all c reqs s) (\<lambda>s'. Inr (0, b', s'))"
    by blast
  have c: "arr_read (clients s) c = Inr (clients s ! c)" using assms(1) by (simp add: arr_read_def)
  have "arr_read (clients ?s) c = Inr ((clients s ! c)\<lparr>cl_recv_buf := b\<rparr>)"
    using assms(1) by (simp add: arr_read_def set_client_buf_def set_client_def)
  then have "dm_decode_data c b ?s = dm_recv_hdlc c b ?s"
    using assms(2) by (simp add: dm_decode_data_def)
  moreover have "\<not> (n < 0 \<and> e \<noteq> EAGAIN)" using assms(5) by auto
  ultimately have "dm_recv (Some c) es s =
      andthen (dm_recv_hdlc c b ?s) (\<lambda>(ret, b, s). Inr (ret, es', set_client_buf c b s))"
    using assms(2,4) c by (auto simp: dm_recv_def dm_recv_encoded_def DIAG_ENCODE_HDLC_def DIAG_ENCODE_RAW_def Let_def)
  with r show ?thesis
    by (intro exI [of _ reqs] exI [of _ b']) (cases "handle_all c reqs ?s", auto)
qed

section \<open>Requests that carry a message\<close>

definition request_of :: "mem \<times> nat \<Rightarrow> u8 list \<Rightarrow> bool" where
  "request_of r m \<longleftrightarrow> snd r = length m \<and> rd_bytes (fst r) 0 (length m) = Inr m"

lemma length_fcs_bytes [simp]: "length (fcs_bytes c) = 2"
  by (simp add: fcs_bytes_def)

lemma frame_request_message:
  assumes "frame_request r (m @ fcs)" and "length fcs = 2" and "length m < HDLC_BUF_SIZE"
  shows "request_of r m"
proof -
  have "map (byte (fst r)) [0..<length m] = take (length m) (map (byte (fst r)) [0..<length (m @ fcs)])"
    by (simp add: take_map)
  also have "\<dots> = m" using assms(1) by (simp add: frame_request_def)
  finally have "rd_bytes (fst r) 0 (length m) = Inr m"
    using assms(1,3) by (simp add: rd_bytes_def frame_request_def)
  moreover have "unat (of_nat (length m) :: u64) = length m"
    using assms(3) by (simp add: unat_of_nat HDLC_BUF_SIZE_def)
  ultimately show ?thesis using assms(1,2) by (simp add: request_of_def frame_request_def)
qed

lemma length_hdlc_encode_ge: "length m \<le> length (hdlc_encode_bytes m)"
proof -
  have "length xs \<le> length (concat (map stuff xs))" for xs
  proof (induction xs)
    case (Cons x xs)
    have "1 \<le> length (stuff x)" by (simp add: stuff_def)
    with Cons show ?case by simp
  qed simp
  from this [of "m @ fcs_bytes (crc_of m)"] show ?thesis
    by (simp add: hdlc_encode_bytes_eq del: map_append)
qed

lemma length_frame_member:
  "m \<in> set ms \<Longrightarrow> length m \<le> length (concat (map hdlc_encode_bytes ms))"
proof (induction ms)
  case (Cons a ms)
  with length_hdlc_encode_ge [of a] show ?case by auto
qed simp

lemma frame_requests_messages:
  "list_all2 frame_request reqs (map (\<lambda>m. m @ fcs_bytes (crc_of m)) ms) \<Longrightarrow>
   \<forall>m \<in> set ms. length m < HDLC_BUF_SIZE \<Longrightarrow> list_all2 request_of reqs ms"
proof (induction ms arbitrary: reqs)
  case (Cons m ms)
  then show ?case by (auto simp: list_all2_Cons2 intro: frame_request_message [OF _ length_fcs_bytes])
qed simp

text \<open>
  A delimiter in front of a frame stops the receive loop: what follows it stays in the
  ring, however many complete messages it holds, until the descriptor is readable again.
\<close>

lemma leading_delimiter_stops:
  fixes s :: "'z router_state_scheme"
  assumes "circ_inv b" and "contents b = 0x7e # rest"
  shows "\<exists>b'. dm_recv_hdlc c b s = Inr (0, b', s) \<and> contents b' = rest"
  using dm_recv_hdlc_spec [OF assms(1), of c] by (auto simp: assms(2) frames_in_delimiter)

text \<open>
  The bytes of an unfinished frame are taken from the ring and forgotten: the decoder is
  local to one call, so a frame that arrives in two reads is lost, and its second part is
  decoded as a frame of its own.
\<close>

lemma split_frame_lost:
  fixes s :: "'z router_state_scheme"
  assumes "circ_inv b" and "contents b = part" and "0x7e \<notin> set part"
  shows "\<exists>b'. dm_recv_hdlc c b s = Inr (0, b', s) \<and> contents b' = []"
  using dm_recv_hdlc_spec [OF assms(1), of c] frames_in_partial [OF assms(3)] by (auto simp: assms(2))

end
