(* ===== verification/Perif_Frames.thy ===== *)
theory Perif_Frames
  imports Dm_Recv
begin

text \<open>
  Messages from a peripheral on their way to the clients. \<^verbatim>\<open>dm_broadcast\<close> is given a pointer
  and a length here; the non-HDLC frames that \<^verbatim>\<open>diag_cmd_recv\<close>, \<^verbatim>\<open>qrtr_cmd_recv\<close> and
  \<^verbatim>\<open>qrtr_data_recv\<close> test field by field are shown to be parsed as a grammar on lists of bytes.
\<close>

section \<open>What sending leaves alone\<close>

definition queued :: "'z queue_state_scheme \<Rightarrow> 'z queue_state_scheme \<Rightarrow> bool" where
  "queued s s' \<longleftrightarrow> (\<exists>qs fl k. s' = s\<lparr>queues := qs, flows := fl, alloc_no := k\<rparr>)"

lemma queuedI: "s' = s\<lparr>queues := qs, flows := fl, alloc_no := k\<rparr> \<Longrightarrow> queued s s'"
  by (auto simp: queued_def)

lemma queued_refl [simp, intro]: "queued s s"
  by (rule queuedI [where qs = "queues s" and fl = "flows s" and k = "alloc_no s"]) simp

lemma queued_trans: "queued s t \<Longrightarrow> queued t u \<Longrightarrow> queued s u"
  unfolding queued_def by fastforce

lemma queued_pushed: "queued s (pushed q bs f (bump k s))"
proof (cases f)
  case None
  then show ?thesis
    by (intro queuedI [where qs = "(queues s)(q := queues s q @ [mbuf_for bs f])" and fl = "flows s" and k = "alloc_no s + k"])
      (simp add: pushed_def enqueue_def watch_flow_inc_def bump_def)
next
  case (Some x)
  then show ?thesis
    by (intro queuedI [where qs = "(queues s)(q := queues s q @ [mbuf_for bs f])" and
          fl = "(flows s)(x := flows s x + 1)" and k = "alloc_no s + k"])
      (simp add: pushed_def enqueue_def watch_flow_inc_def bump_def)
qed

text \<open>The fields that no message on its way changes.\<close>

lemma queued_cntl:
  "queued s s' \<Longrightarrow> perifs s' = perifs s \<and> peripherals s' = peripherals s \<and> diag_cmds s' = diag_cmds s \<and>
     diag_ids s' = diag_ids s \<and> next_perif s' = next_perif s \<and> cntl_state.more s' = cntl_state.more s"
  by (auto simp: queued_def)

lemma queued_watches:
  "queued s s' \<Longrightarrow> read_watches s' = read_watches s \<and> aio_watches s' = aio_watches s \<and> timers s' = timers s \<and>
     mem_ok s' = mem_ok s \<and> alloc_ok s' = alloc_ok s \<and> indet s' = indet s"
  by (auto simp: queued_def mem_ok_def)

lemma broadcast_over_queued:
  "dm_wf s \<Longrightarrow> \<forall>c \<in> set cs. c < length (clients s) \<Longrightarrow> broadcast_over msg flow cs s = Inr s' \<Longrightarrow> queued s s'"
proof (induction cs arbitrary: s)
  case Nil
  then show ?case by (simp add: broadcast_over_def)
next
  case (Cons c cs)
  let ?s = "if cl_enabled (clients s ! c)
            then pushed (ClientOutq c) (client_encode (clients s ! c) msg) flow (bump (client_cost (clients s ! c)) s)
            else s"
  have "queued s ?s" by (simp add: queued_pushed)
  moreover have "broadcast_over msg flow cs ?s = Inr s'"
    using Cons.prems dm_send_flow_ok [OF Cons.prems(1), of c msg flow] by (simp add: broadcast_over_def)
  moreover have "dm_wf ?s" "clients ?s = clients s" using Cons.prems(1) by auto
  ultimately show ?case using Cons.IH [of ?s] Cons.prems(2) queued_trans by auto
qed

lemma dm_broadcast_queued:
  assumes "dm_wf s"
  obtains s' where "dm_broadcast msg flow s = Inr s'" "dm_wf s'" "clients s' = clients s" "queued s s'"
    "\<And>q. queues s' q = queues s q @ delivered (clients s) msg flow [0..<length (clients s)] q"
proof -
  obtain s' where s': "dm_broadcast msg flow s = Inr s'" "dm_wf s'" "clients s' = clients s"
    "\<forall>q. queues s' q = queues s q @ delivered (clients s) msg flow [0..<length (clients s)] q"
    using dm_broadcast_ok [OF assms, of msg flow] by blast
  moreover have "queued s s'"
    using broadcast_over_queued [OF assms, of "[0..<length (clients s)]" msg flow s'] s'(1)
    by (simp add: dm_broadcast_def broadcast_over_def)
  ultimately show thesis using that by blast
qed

section \<open>Broadcasting from memory\<close>

text \<open>The bytes of the message are looked at only when there is a client to send them to.\<close>

definition broadcast_from ::
    "mem \<Rightarrow> nat \<Rightarrow> flow_id option \<Rightarrow> 'z dm_state_scheme \<Rightarrow> 'z dm_state_scheme res" where
  "broadcast_from m len flow s =
     (if list_ex cl_enabled (clients s)
      then andthen (rd_bytes m 0 len) (\<lambda>msg. dm_broadcast msg flow s) else Inr s)"

lemma broadcast_over_disabled:
  "\<forall>c \<in> set cs. c < length (clients s) \<Longrightarrow> \<not> list_ex cl_enabled (clients s) \<Longrightarrow> broadcast_over msg flow cs s = Inr s"
proof (induction cs)
  case Nil
  then show ?case by (simp add: broadcast_over_def)
next
  case (Cons c cs)
  then have "\<not> cl_enabled (clients s ! c)" by (auto simp: list_ex_iff)
  with Cons show ?case by (simp add: broadcast_over_def dm_send_flow_def arr_read_def)
qed

lemma broadcast_from_ok:
  assumes "rd_bytes m 0 len = Inr msg"
  shows "broadcast_from m len flow s = dm_broadcast msg flow s"
  using broadcast_over_disabled [of "[0..<length (clients s)]" s msg flow] assms
  by (simp add: broadcast_from_def dm_broadcast_def broadcast_over_def)

section \<open>Non-HDLC frames\<close>

text \<open>
  The tests on a frame that was received: \<open>len\<close> is the number of bytes as a \<^verbatim>\<open>size_t\<close>, to which
  the code compares it.
\<close>

definition non_hdlc_recv ::
    "mem \<Rightarrow> u64 \<Rightarrow> flow_id option \<Rightarrow> 'z dm_state_scheme \<Rightarrow> 'z dm_state_scheme res" where
  "non_hdlc_recv m len flow s =
     andthen (rd8 m 0) (\<lambda>start.
     if start \<noteq> 0x7e then Inr s
     else andthen (rd8 m 1) (\<lambda>version.
     if version \<noteq> 1 then Inr s
     else andthen (rd16 m 2) (\<lambda>length.
     if 4 + ucast length + 1 > len then Inr s
     else andthen (rd8 m (4 + unat length)) (\<lambda>end_mark.
     if end_mark \<noteq> 0x7e then Inr s
     else broadcast_from (mem_drop 4 m) (unat length) flow s))))"

text \<open>The format, on the bytes of the frame.\<close>

fun frame_payload :: "u8 list \<Rightarrow> u8 list option" where
  "frame_payload (start # version # l0 # l1 # data) =
     (let n = unat (u16_of l0 l1) in
      if start = 0x7e \<and> version = 1 \<and> n < length data \<and> data ! n = 0x7e then Some (take n data) else None)"
| "frame_payload _ = None"

lemma frame_size_u64: "unat (4 + ucast (n :: u16) + 1 :: u64) = 5 + unat n"
proof -
  have n: "unat n < 65536" using unsigned_less [of n] by simp
  have "unat (ucast n :: u64) = unat n" by (simp add: unsigned_ucast_eq take_bit_nat_eq_self n [THEN order.strict_trans])
  then have "unat (4 + ucast n :: u64) = 4 + unat n" using n by (subst unat_add_lem [THEN iffD1]) simp_all
  then show ?thesis using n by (subst unat_add_lem [THEN iffD1]) simp_all
qed

text \<open>
  A received frame is handled without a fault, whatever its bytes: its payload is broadcast
  when it has the format, and nothing happens when it does not.
\<close>

lemma non_hdlc_recv_frame:
  assumes "length bs \<le> cp" and "4 \<le> cp" and "cp < 2 ^ 32"
  shows "non_hdlc_recv (mem_msg bs cp stale) (of_nat (length bs)) flow s =
    (case frame_payload bs of None \<Rightarrow> Inr s | Some msg \<Rightarrow> dm_broadcast msg flow s)"
proof (cases "5 \<le> length bs")
  case False
  have small: "unat (of_nat (length bs) :: u64) < 5" using False by (simp add: unat_of_nat take_bit_nat_eq_self)
  have none: "frame_payload bs = None"
  proof (cases bs rule: frame_payload.cases)
    case (1 start version l0 l1 data)
    with False show ?thesis by simp
  qed simp_all
  have "of_nat (length bs) < (4 + ucast n + 1 :: u64)" for n :: u16
    using small frame_size_u64 [of n] by (simp add: word_less_nat_alt)
  then show ?thesis
    using assms by (simp add: non_hdlc_recv_def rd8_def rd16_def none)
next
  case True
  then obtain start version l0 l1 data where bs: "bs = start # version # l0 # l1 # data"
    by (cases bs rule: frame_payload.cases) auto
  let ?m = "mem_msg bs cp stale" and ?l = "u16_of l0 l1"
  have len: "unat (of_nat (length bs) :: u64) = length bs"
    using assms by (simp add: unat_of_nat take_bit_nat_eq_self)
  have hdr: "byte ?m 0 = start" "byte ?m 1 = version" "byte ?m 2 = l0" "byte ?m 3 = l1"
    by (simp_all add: mem_msg_def bs)
  have short: "4 + ucast ?l + 1 > (of_nat (length bs) :: u64) \<longleftrightarrow> \<not> unat ?l < length data"
    using frame_size_u64 [of ?l] len by (simp add: word_less_nat_alt bs) linarith
  show ?thesis
  proof (cases "unat ?l < length data")
    case n: True
    then have mark: "byte ?m (4 + unat ?l) = data ! unat ?l" by (simp add: mem_msg_def bs)
    have "rd_bytes (mem_drop 4 ?m) 0 (unat ?l) = Inr (take (unat ?l) data)"
      using n assms(1) by (simp add: rd_bytes_def bs mem_msg_def list_eq_iff_nth_eq del: list_eq_iff_nth_eq)
        (auto intro!: nth_equalityI)
    from broadcast_from_ok [OF this, of flow s] show ?thesis
      using assms n hdr mark short
      by (auto simp: non_hdlc_recv_def rd8_def rd16_def bs Let_def split: if_splits)
  next
    case n: False
    then show ?thesis
      using assms hdr short by (auto simp: non_hdlc_recv_def rd8_def rd16_def bs Let_def)
  qed
qed

text \<open>What \<^verbatim>\<open>queue_push_nhdlc_flow\<close> frames is a frame of this format.\<close>

lemma frame_payload_encoded: "length m < 65536 \<Longrightarrow> frame_payload (nhdlc_encode_bytes m @ rest) = Some m"
proof -
  assume "length m < 65536"
  then have "unat (of_nat (length m) :: u16) = length m"
    by (simp add: unat_of_nat take_bit_nat_eq_self)
  then show ?thesis
    by (simp add: nhdlc_encode_bytes_def diag_pkt_frame_def NHDLC_CONTROL_CHAR_def le16_def u16_of_le16 nth_append)
qed

end
