(* ===== verification/Rpmsg_Recv.thy ===== *)
theory Rpmsg_Recv
  imports Perif_Frames
begin

text \<open>
  The callbacks of the three channels of a peripheral behind rpmsg (\<^verbatim>\<open>peripheral-rpmsg.c\<close>). The
  decoder of the data channel is part of the peripheral, and is shown to cut the stream of
  its bytes into messages however the stream is split into reads.
\<close>

section \<open>The command channel\<close>

definition CMD_BUF_SIZE :: nat where "CMD_BUF_SIZE = 16384"

text \<open>
  A failed read leaves \<open>-1\<close> in \<^verbatim>\<open>len\<close>, which is the largest \<^verbatim>\<open>size_t\<close> in the comparison, and
  the frame is looked for in what the stack held before.
\<close>

definition diag_cmd_recv ::
    "perif_id \<Rightarrow> fd_event list \<Rightarrow> 'z cntl_state_scheme \<Rightarrow> (int \<times> fd_event list \<times> 'z cntl_state_scheme) res" where
  "diag_cmd_recv p es s =
     (let stale = indet s (alloc_no s); (_, s) = alloca CMD_BUF_SIZE s; r = fd_read CMD_BUF_SIZE es in
      case fst r of
        Errno e \<Rightarrow>
          andthen (if e \<noteq> EAGAIN then peripheral_close p s else Inr s) (\<lambda>s.
          andthen (non_hdlc_recv \<lparr>cap = CMD_BUF_SIZE, byte = stale\<rparr> (-1) None s) (\<lambda>s.
            Inr (0, snd r, s)))
      | Got bs \<Rightarrow>
          andthen (non_hdlc_recv (mem_msg bs CMD_BUF_SIZE stale) (of_nat (length bs)) None s) (\<lambda>s.
            Inr (0, snd r, s)))"

section \<open>The data channel\<close>

fun data_frames ::
    "nat \<Rightarrow> flow_id option \<Rightarrow> hdlc_decoder \<Rightarrow> circ_buf \<Rightarrow> 'z dm_state_scheme \<Rightarrow>
     (hdlc_decoder \<times> circ_buf \<times> 'z dm_state_scheme) res" where
  "data_frames 0 flow d b s = Inl Diverged"
| "data_frames (Suc fuel) flow d b s =
     andthen (hdlc_decode_one d b) (\<lambda>(msg, d, b).
     case msg of
       None \<Rightarrow> Inr (d, b, s)
     | Some msglen \<Rightarrow>
         andthen (broadcast_from \<lparr>cap = HDLC_BUF_SIZE, byte = raw_buf d\<rparr> (unat msglen) flow s) (\<lambda>s.
           data_frames fuel flow d b s))"

text \<open>
  The outer loops end with a failed read only. \<open>fuel\<close> bounds the rounds; when the stream has an
  end, reads succeed for ever and no fuel is enough.
\<close>

fun data_recv_hdlc_loop ::
    "nat \<Rightarrow> perif_id \<Rightarrow> fd_event list \<Rightarrow> 'z cntl_state_scheme \<Rightarrow>
     (int \<times> fd_event list \<times> 'z cntl_state_scheme) res" where
  "data_recv_hdlc_loop 0 p es s = Inl Diverged"
| "data_recv_hdlc_loop (Suc fuel) p es s =
     andthen (deref (perifs s p)) (\<lambda>perif.
     andthen (circ_read (p_recv_buf perif) es) (\<lambda>(n, errno, b, es).
     if n < 0 then Inr (- errno, es, set_perif p (perif\<lparr>p_recv_buf := b\<rparr>) s)
     else
       andthen (data_frames HDLC_BUF_SIZE (p_flow perif) (p_recv_decoder perif) b s) (\<lambda>(d, b, s).
         data_recv_hdlc_loop fuel p es (set_perif p (perif\<lparr>p_recv_buf := b, p_recv_decoder := d\<rparr>) s))))"

definition data_fuel :: "fd_event list \<Rightarrow> nat" where
  "data_fuel es = length (script_bytes es) + length es + 2"

definition diag_data_recv_hdlc ::
    "perif_id \<Rightarrow> fd_event list \<Rightarrow> 'z cntl_state_scheme \<Rightarrow> (int \<times> fd_event list \<times> 'z cntl_state_scheme) res" where
  "diag_data_recv_hdlc p es s = data_recv_hdlc_loop (data_fuel es) p es s"

fun data_recv_raw_loop ::
    "nat \<Rightarrow> perif_id \<Rightarrow> fd_event list \<Rightarrow> 'z cntl_state_scheme \<Rightarrow>
     (int \<times> fd_event list \<times> 'z cntl_state_scheme) res" where
  "data_recv_raw_loop 0 p es s = Inl Diverged"
| "data_recv_raw_loop (Suc fuel) p es s =
     (let r = fd_read RAW_BUF_SIZE es in
      case fst r of
        Errno e \<Rightarrow> Inr (- e, snd r, s)
      | Got bs \<Rightarrow>
          andthen (deref (perifs s p)) (\<lambda>perif.
          andthen (dm_broadcast bs (p_flow perif) s) (\<lambda>s. data_recv_raw_loop fuel p (snd r) s)))"

definition diag_data_recv_raw ::
    "perif_id \<Rightarrow> fd_event list \<Rightarrow> 'z cntl_state_scheme \<Rightarrow> (int \<times> fd_event list \<times> 'z cntl_state_scheme) res" where
  "diag_data_recv_raw p es s = data_recv_raw_loop (data_fuel es) p es s"

definition diag_data_recv ::
    "perif_id \<Rightarrow> fd_event list \<Rightarrow> 'z cntl_state_scheme \<Rightarrow> (int \<times> fd_event list \<times> 'z cntl_state_scheme) res" where
  "diag_data_recv p es s =
     andthen (deref (perifs s p)) (\<lambda>perif.
     andthen (if has_feature perif FEATURE_APPS_HDLC_ENCODE then diag_data_recv_raw p es s
              else diag_data_recv_hdlc p es s) (\<lambda>(n, es, s).
     if n < 0 \<and> n \<noteq> - EAGAIN then andthen (peripheral_close p s) (\<lambda>s. Inr (0, es, s))
     else Inr (0, es, s)))"

section \<open>The control channel\<close>

definition CNTL_BUF_SIZE :: nat where "CNTL_BUF_SIZE = 4096"

definition rpmsg_perif_cntl_recv ::
    "perif_id \<Rightarrow> fd_event list \<Rightarrow> 'z cntl_state_scheme \<Rightarrow> (int \<times> fd_event list \<times> 'z cntl_state_scheme) res" where
  "rpmsg_perif_cntl_recv p es s =
     (let stale = indet s (alloc_no s); (_, s) = alloca CNTL_BUF_SIZE s; r = fd_read CNTL_BUF_SIZE es in
      case fst r of
        Errno e \<Rightarrow>
          andthen (if e \<noteq> EAGAIN then peripheral_close p s else Inr s) (\<lambda>s. Inr (0, snd r, s))
      | Got bs \<Rightarrow>
          andthen (diag_cntl_recv p (mem_msg bs CNTL_BUF_SIZE stale) (length bs) s) (\<lambda>(ret, s).
            Inr (ret, snd r, s)))"

section \<open>A decoder in the middle of a frame\<close>

text \<open>The decoder has taken the bytes \<open>part\<close>, which hold no delimiter, since the last frame.\<close>

definition decoder_holds :: "hdlc_decoder \<Rightarrow> u8 list \<Rightarrow> bool" where
  "decoder_holds d part \<longleftrightarrow>
     (\<exists>acc. scan 0 part = (acc, escape d, False, []) \<and> decoded_prefix d (length acc) = acc \<and>
        (raw d = Some (length acc) \<or> raw d = None \<and> acc = []))"

lemma decoder_holds_zero [simp]: "decoder_holds decoder_zero []"
  by (simp add: decoder_holds_def decoder_zero_def decoded_prefix_def)

lemma scan_append:
  "scan esc xs = (ds, e, False, []) \<Longrightarrow>
   scan esc (xs @ ys) = (case scan e ys of (ds', e', t, rest) \<Rightarrow> (ds @ ds', e', t, rest))"
proof (induction esc xs arbitrary: ds rule: scan.induct)
  case (2 esc c cs)
  then show ?case by (fastforce split: if_splits prod.splits)
qed simp

lemma scan_length_decoded: "scan esc xs = (ds, e, t, rest) \<Longrightarrow> length ds + length rest \<le> length xs"
proof (induction esc xs arbitrary: ds rule: scan.induct)
  case (2 esc c cs)
  then show ?case by (fastforce split: if_splits prod.splits)
qed simp

lemma scan_delimiter: "scan esc xs = (ds, e, False, rest) \<Longrightarrow> 0x7e \<notin> set xs"
proof (induction esc xs arbitrary: ds rule: scan.induct)
  case (2 esc c cs)
  then show ?case by (fastforce split: if_splits prod.splits)
qed simp

lemma decoder_holds_part: "decoder_holds d part \<Longrightarrow> 0x7e \<notin> set part"
  by (auto simp: decoder_holds_def dest: scan_delimiter)

text \<open>Decoding goes on where it stopped, as if the whole frame had been in the ring.\<close>

lemma decode_one_resume:
  assumes inv: "circ_inv b" and holds: "decoder_holds d part"
    and sc: "scan 0 (part @ contents b) = (ds, e, t, rest)" and len: "length ds \<le> HDLC_BUF_SIZE"
  shows "\<exists>d' b'. hdlc_decode_one d b = Inr (if t \<and> ds \<noteq> [] then Some (of_nat (length ds) - 2) else None, d', b') \<and>
    circ_inv b' \<and> head b' = head b \<and> contents b' = rest \<and> decoded_prefix d' (length ds) = ds \<and>
    (t \<and> ds \<noteq> [] \<longrightarrow> decoder_holds d' []) \<and> (\<not> t \<longrightarrow> decoder_holds d' (part @ contents b))"
proof -
  from holds obtain acc where acc: "scan 0 part = (acc, escape d, False, [])" "decoded_prefix d (length acc) = acc"
    "raw d = Some (length acc) \<or> raw d = None \<and> acc = []" by (auto simp: decoder_holds_def)
  obtain ds' where sc': "scan (escape d) (contents b) = (ds', e, t, rest)" and ds: "ds = acc @ ds'"
    using sc scan_append [OF acc(1), of "contents b"] by (auto split: prod.splits)
  define d0 where "d0 = (case raw d of None \<Rightarrow> d\<lparr>raw := Some 0\<rparr> | Some _ \<Rightarrow> d)"
  have d0: "raw d0 = Some (length acc)" "escape d0 = escape d" "decoded_prefix d0 (length acc) = acc"
    using acc by (auto simp: d0_def decoded_prefix_def split: option.splits)
  obtain d' b' where res: "hdlc_decode_loop d0 b = Inr (t, d', b')" "raw d' = Some (length ds)" "escape d' = e"
    "decoded_prefix d' (length ds) = ds" "circ_inv b'" "head b' = head b" "contents b' = rest"
    using hdlc_decode_loop_scan [OF inv d0(1), of ds' e t rest] sc' d0 len by (auto simp: ds)
  have one: "hdlc_decode_one d b = andthen (hdlc_decode_loop d0 b) (\<lambda>(found, d', b').
      if \<not> found then Inr (None, d', b')
      else if raw d' = Some 0 then Inr (None, d', b')
      else case raw d' of
             None \<Rightarrow> Inl NullDeref
           | Some r \<Rightarrow> Inr (Some (of_nat r - 2), d'\<lparr>raw := Some 0, escape := 0\<rparr>, b'))"
    by (simp add: hdlc_decode_one_def d0_def)
  have "decoder_holds d' (part @ contents b)" if "\<not> t"
    using that sc res(2-4) scan_unfinished [of 0 "part @ contents b" ds e rest] by (simp add: decoder_holds_def)
  then show ?thesis
    using res by (auto simp: one decoder_holds_def decoded_prefix_def)
qed

section \<open>Messages from a stream\<close>

text \<open>What the clients are sent for a list of messages.\<close>

definition delivered_all :: "diag_client list \<Rightarrow> u8 list list \<Rightarrow> flow_id option \<Rightarrow> queue_id \<Rightarrow> mbuf list" where
  "delivered_all cls ms flow q = concat (map (\<lambda>m. delivered cls m flow [0..<length cls] q) ms)"

lemma delivered_all_simps [simp]:
  "delivered_all cls [] flow q = []"
  "delivered_all cls (m # ms) flow q = delivered cls m flow [0..<length cls] q @ delivered_all cls ms flow q"
  "delivered_all cls (ms @ ms') flow q = delivered_all cls ms flow q @ delivered_all cls ms' flow q"
  by (simp_all add: delivered_all_def)

definition sendable :: "u8 list \<Rightarrow> bool" where
  "sendable m \<longleftrightarrow> length (hdlc_encode_bytes m) \<le> HDLC_BUF_SIZE"

lemma data_frames_stream:
  assumes "circ_inv b" and "decoder_holds d part"
    and "part @ contents b = concat (map hdlc_encode_bytes ms) @ left" and "0x7e \<notin> set left"
    and "\<forall>m \<in> set ms. sendable m" and "length left \<le> HDLC_BUF_SIZE" and "circ_count b < fuel" and "dm_wf s"
  shows "\<exists>d' b' s'. data_frames fuel flow d b s = Inr (d', b', s') \<and> circ_inv b' \<and> head b' = head b \<and> contents b' = [] \<and>
    decoder_holds d' left \<and> dm_wf s' \<and> queued s s' \<and> clients s' = clients s \<and>
    (\<forall>q. queues s' q = queues s q @ delivered_all (clients s) ms flow q)"
  using assms
proof (induction ms arbitrary: d b part fuel s)
  case Nil
  obtain f where fuel: "fuel = Suc f" using Nil.prems(7) by (cases fuel) auto
  have stream: "part @ contents b = left" using Nil.prems(3) by simp
  from scan_no_delimiter [OF Nil.prems(4), of 0] obtain ds e where
    sc: "scan 0 (part @ contents b) = (ds, e, False, [])" using stream by auto
  have "length ds \<le> HDLC_BUF_SIZE" using scan_length_decoded [OF sc] stream Nil.prems(6) by simp
  from decode_one_resume [OF Nil.prems(1,2) sc this] stream Nil.prems(8) show ?case
    by (auto simp: fuel)
next
  case (Cons m ms)
  obtain f where fuel: "fuel = Suc f" using Cons.prems(7) by (cases fuel) auto
  let ?ds = "m @ fcs_bytes (crc_of m)" and ?rest = "concat (map hdlc_encode_bytes ms) @ left"
  have sc: "scan 0 (part @ contents b) = (?ds, 0, True, ?rest)"
    using scan_encoded [of m ?rest] by (simp add: Cons.prems(3))
  have size: "length ?ds \<le> HDLC_BUF_SIZE"
  proof -
    have "scan 0 (hdlc_encode_bytes m @ []) = (?ds, 0, True, [])" by (rule scan_encoded)
    from scan_length_decoded [OF this] show ?thesis using Cons.prems(5) by (simp add: sendable_def)
  qed
  from decode_one_resume [OF Cons.prems(1,2) sc size] obtain d' b' where
    one: "hdlc_decode_one d b = Inr (Some (of_nat (length m)), d', b')" "circ_inv b'" "contents b' = ?rest"
      "head b' = head b"
      "decoded_prefix d' (length ?ds) = ?ds" "decoder_holds d' []"
    by (auto simp: fcs_bytes_def)
  have "decoded_prefix d' (length m) = m"
    using one(5) decoded_prefix_take [of "length m" "length ?ds" d'] by simp
  moreover have len: "unat (of_nat (length m) :: u64) = length m" "length m \<le> HDLC_BUF_SIZE"
    using size by (simp_all add: unat_of_nat take_bit_nat_eq_self HDLC_BUF_SIZE_def)
  ultimately have rd: "rd_bytes \<lparr>cap = HDLC_BUF_SIZE, byte = raw_buf d'\<rparr> 0 (length m) = Inr m"
    by (simp add: rd_bytes_def decoded_prefix_def)
  obtain s1 where s1: "dm_broadcast m flow s = Inr s1" "dm_wf s1" "clients s1 = clients s" "queued s s1"
    "\<And>q. queues s1 q = queues s q @ delivered (clients s) m flow [0..<length (clients s)] q"
    by (rule dm_broadcast_queued [OF Cons.prems(8), where msg = m and flow = flow]) blast
  have "circ_count b' < circ_count b"
  proof -
    from Cons.prems(2) obtain acc where "scan 0 part = (acc, escape d, False, [])" by (auto simp: decoder_holds_def)
    from scan_append [OF this, of "contents b"] sc obtain ds' where
      "scan (escape d) (contents b) = (ds', 0, True, ?rest)" by (auto split: prod.splits)
    from scan_rest_length [OF this] show ?thesis using one(3) length_contents [of b] length_contents [of b'] by simp
  qed
  then have "circ_count b' < f" using Cons.prems(7) fuel by simp
  from Cons.IH [OF one(2,6) _ Cons.prems(4) _ Cons.prems(6) this s1(2)] one(3) Cons.prems(5) obtain d'' b'' s' where
    more: "data_frames f flow d' b' s1 = Inr (d'', b'', s')" "circ_inv b''" "contents b'' = []" "decoder_holds d'' left"
      "head b'' = head b'" "dm_wf s'" "queued s1 s'" "clients s' = clients s1"
      "\<forall>q. queues s' q = queues s1 q @ delivered_all (clients s1) ms flow q"
    by auto
  have "data_frames fuel flow d b s = Inr (d'', b'', s')"
    using one(1) more(1) s1(1) broadcast_from_ok [OF rd, of flow s] by (simp add: fuel len)
  with more one(4) s1 queued_trans [OF s1(4) more(7)] show ?case by (auto simp: delivered_all_def)
qed


section \<open>Reads that make progress\<close>

definition script_size :: "fd_event list \<Rightarrow> nat" where
  "script_size es = length (script_bytes es) + length es"

definition only_data :: "fd_event list \<Rightarrow> bool" where
  "only_data es \<longleftrightarrow> (\<forall>ev \<in> set es. \<exists>bs. ev = Data bs)"

lemma fd_read_progress:
  assumes "Eof \<notin> set es" and "fd_read n es = (Got bs, es')" and "n \<noteq> 0"
  shows "Eof \<notin> set es' \<and> script_size es' < script_size es \<and> (only_data es \<longrightarrow> only_data es')"
  using assms by (cases "(n, es)" rule: fd_read.cases) (auto simp: script_size_def only_data_def split: if_splits)

lemma fd_read_failed:
  assumes "Eof \<notin> set es" and "fd_read n es = (Errno e, es')"
  shows "Eof \<notin> set es' \<and> script_size es' \<le> script_size es \<and> (only_data es \<longrightarrow> es' = [] \<and> e = EAGAIN)"
  using assms by (cases "(n, es)" rule: fd_read.cases) (auto simp: script_size_def only_data_def)

lemma circ_read_progress:
  "circ_inv b \<Longrightarrow> Eof \<notin> set es \<Longrightarrow> circ_read b es = Inr (r, e, b', es') \<Longrightarrow>
   Eof \<notin> set es' \<and> script_size es' \<le> script_size es \<and>
   (r = 0 \<and> circ_space_to_end b \<noteq> 0 \<longrightarrow> script_size es' < script_size es) \<and>
   (only_data es \<longrightarrow> only_data es' \<and> (r \<noteq> 0 \<longrightarrow> e = EAGAIN \<and> es' = []))"
proof (induction b es rule: circ_read.induct)
  case (1 b es)
  let ?sp = "circ_space_to_end b"
  obtain x es1 where rd: "fd_read (unat ?sp) es = (x, es1)" by (cases "fd_read (unat ?sp) es")
  show ?case
  proof (cases "?sp = 0")
    case True
    with "1.prems" show ?thesis by (auto simp: circ_read.simps [of b es])
  next
    case sp: False
    show ?thesis
    proof (cases x)
      case (Errno e1)
      with sp rd "1.prems" fd_read_failed [of es "unat ?sp" e1 es1] show ?thesis
        by (auto simp: circ_read.simps [of b es] only_data_def)
    next
      case (Got bs)
      have "unat ?sp \<noteq> 0" using sp by (simp add: unat_eq_zero)
      with fd_read_progress [of es "unat ?sp" bs es1] rd Got "1.prems"(2) have
        p: "Eof \<notin> set es1" "script_size es1 < script_size es" "only_data es \<Longrightarrow> only_data es1" by auto
      have "length bs \<le> unat ?sp" using rd Got fd_read_length by auto
      from circ_store_contents [OF "1.prems"(1) this] obtain b1 where
        st: "circ_store b bs = Inr b1" "circ_inv b1" by blast
      show ?thesis
      proof (cases "length bs = unat ?sp")
        case True
        have "circ_read b1 es1 = Inr (r, e, b', es')"
          using "1.prems"(3) sp rd Got st(1) True by (simp add: circ_read.simps [of b es])
        with "1.IH" [of ?sp "(x, es1)" bs b1] sp rd Got st p True show ?thesis by auto
      next
        case False
        with "1.prems"(3) sp rd Got st p show ?thesis by (auto simp: circ_read.simps [of b es])
      qed
    qed
  qed
qed

lemma space_when_empty:
  assumes "circ_inv b" and "contents b = []"
  shows "circ_space_to_end b \<noteq> 0"
proof -
  have "circ_count b = 0" using assms(2) length_contents [of b] by simp
  with circ_space_to_end_unat [OF assms(1)] assms(1) have "unat (circ_space_to_end b) \<noteq> 0"
    by (simp add: circ_inv_def HDLC_BUF_SIZE_def)
  then show ?thesis by auto
qed

text \<open>
  Between two calls the ring is empty, or it was filled up to the end of its array: a read
  that fills it is followed by another one, and when that one finds nothing, \<^verbatim>\<open>circ_read\<close>
  reports a failure and what the first one read stays in the ring.
\<close>

definition circ_settled :: "circ_buf \<Rightarrow> bool" where
  "circ_settled b \<longleftrightarrow> contents b = [] \<or> head b = 0"

lemma circ_read_settled:
  "circ_inv b \<Longrightarrow> circ_settled b \<Longrightarrow> circ_read b es = Inr (r, e, b', es') \<Longrightarrow> r \<noteq> 0 \<Longrightarrow> circ_settled b'"
proof (induction b es rule: circ_read.induct)
  case (1 b es)
  let ?sp = "circ_space_to_end b"
  obtain x es1 where rd: "fd_read (unat ?sp) es = (x, es1)" by (cases "fd_read (unat ?sp) es")
  have sp: "?sp \<noteq> 0" using "1.prems"(3,4) by (auto simp: circ_read.simps [of b es])
  show ?case
  proof (cases x)
    case (Errno e1)
    with sp rd "1.prems" show ?thesis by (auto simp: circ_read.simps [of b es])
  next
    case (Got bs)
    have "length bs \<le> unat ?sp" using rd Got fd_read_length by auto
    from circ_store_contents [OF "1.prems"(1) this] obtain b1 where
      st: "circ_store b bs = Inr b1" "circ_inv b1" "tail b1 = tail b" "contents b1 = contents b @ bs" by blast
    have full: "length bs = unat ?sp" and more: "circ_read b1 es1 = Inr (r, e, b', es')"
      using "1.prems"(3,4) sp rd Got st(1) by (auto simp: circ_read.simps [of b es] Let_def split: if_splits)
    have count: "circ_count b1 = circ_count b + unat ?sp" using arg_cong [OF st(4), of length] full by simp
    have "circ_space_to_end b1 \<noteq> 0" using more "1.prems"(4) by (auto simp: circ_read.simps [of b1 es1])
    then have "unat (circ_space_to_end b1) \<noteq> 0" by (simp add: unat_eq_zero)
    then have "circ_count b1 < HDLC_BUF_SIZE - 1" using circ_space_to_end_unat [OF st(2)] by (auto simp: min_def split: if_splits)
    then have "unat ?sp = HDLC_BUF_SIZE - unat (head b)"
      using count circ_space_to_end_unat [OF "1.prems"(1)] by (simp add: min_def split: if_splits)
    moreover have "unat (head b1) = (unat (head b) + unat ?sp) mod HDLC_BUF_SIZE"
      using head_after_contents [OF st(2)] head_after_contents [OF "1.prems"(1)] st(3) count
      by (metis add.assoc mod_add_left_eq)
    moreover have "unat (head b) < HDLC_BUF_SIZE" using "1.prems"(1) by (simp add: circ_inv_def)
    ultimately have "unat (head b1) = 0" by simp
    then have "circ_settled b1" by (simp add: circ_settled_def unat_eq_zero)
    with "1.IH" [of ?sp "(x, es1)" bs b1] sp rd Got st(1,2) full more "1.prems"(4) show ?thesis by simp
  qed
qed

text \<open>
  The head runs through the array with the bytes that are read; whether \<open>n\<close> more bytes take it to
  the end of the array.
\<close>

definition array_end :: "circ_buf \<Rightarrow> nat \<Rightarrow> bool" where
  "array_end b n \<longleftrightarrow> (unat (head b) + n) mod HDLC_BUF_SIZE = 0"

lemma array_end_cong: "head b' = head b \<Longrightarrow> array_end b' n = array_end b n"
  by (simp add: array_end_def)

lemma circ_read_head:
  assumes "circ_inv b" and "circ_read b es = Inr (r, e, b', es')"
  shows "array_end b' (length (script_bytes es')) = array_end b (length (script_bytes es))"
proof -
  have b': "circ_inv b'" "tail b' = tail b" "contents b' @ script_bytes es' = contents b @ script_bytes es"
    using circ_read_step [OF assms(1), of es] assms(2) by auto
  have "circ_count b' + length (script_bytes es') = circ_count b + length (script_bytes es)"
    using arg_cong [OF b'(3), of length] by simp
  then have "(unat (tail b) + circ_count b' + length (script_bytes es')) mod HDLC_BUF_SIZE =
      (unat (tail b) + circ_count b + length (script_bytes es)) mod HDLC_BUF_SIZE"
    by (simp add: add.assoc)
  then show ?thesis
    using head_after_contents [OF b'(1)] head_after_contents [OF assms(1)] b'(2)
    unfolding array_end_def by (metis mod_add_left_eq)
qed

section \<open>The stream of the data channel\<close>

lemma encoded_shape: "\<exists>body. hdlc_encode_bytes m = body @ [0x7e] \<and> 0x7e \<notin> set body"
  using delimiter_not_stuffed by (auto simp: hdlc_encode_bytes_eq)

lemma no_message_left:
  assumes "part = concat (map hdlc_encode_bytes ms) @ left" and "0x7e \<notin> set part"
  shows "ms = []"
proof (cases ms)
  case (Cons m ms')
  with assms encoded_shape [of m] show ?thesis by auto
qed simp

text \<open>A prefix of a stream of messages is some of the messages and a part of the next.\<close>

lemma stream_prefix:
  assumes "xs @ ys = concat (map hdlc_encode_bytes ms) @ left" and "0x7e \<notin> set left"
    and "\<forall>m \<in> set ms. sendable m" and "length left \<le> HDLC_BUF_SIZE"
  shows "\<exists>ms1 ms2 part. ms = ms1 @ ms2 \<and> xs = concat (map hdlc_encode_bytes ms1) @ part \<and> 0x7e \<notin> set part \<and>
    length part \<le> HDLC_BUF_SIZE \<and> part @ ys = concat (map hdlc_encode_bytes ms2) @ left"
  using assms
proof (induction ms arbitrary: xs)
  case Nil
  then have "length xs \<le> length left" "set xs \<subseteq> set left"
    by (auto simp: append_eq_append_conv2)
  then show ?case using Nil by (intro exI [of _ "[]"] exI [of _ xs]) auto
next
  case (Cons m ms)
  obtain body where body: "hdlc_encode_bytes m = body @ [0x7e]" "0x7e \<notin> set body" using encoded_shape by blast
  show ?case
  proof (cases "length (hdlc_encode_bytes m) \<le> length xs")
    case True
    from arg_cong [OF Cons.prems(1), of "take (length (hdlc_encode_bytes m))"] True
    have "take (length (hdlc_encode_bytes m)) xs = hdlc_encode_bytes m" by simp
    then obtain xs' where xs: "xs = hdlc_encode_bytes m @ xs'" by (metis append_take_drop_id)
    with Cons.IH [of xs'] Cons.prems obtain ms1 ms2 part where
      "ms = ms1 @ ms2" "xs' = concat (map hdlc_encode_bytes ms1) @ part" "0x7e \<notin> set part"
      "length part \<le> HDLC_BUF_SIZE" "part @ ys = concat (map hdlc_encode_bytes ms2) @ left" by auto
    with xs show ?thesis by (intro exI [of _ "m # ms1"] exI [of _ ms2] exI [of _ part]) simp
  next
    case False
    then have len: "length xs \<le> length body" using body(1) by simp
    have "xs = take (length xs) (body @ [0x7e] @ concat (map hdlc_encode_bytes ms) @ left)"
      using Cons.prems(1) body(1) by (metis append_assoc append_eq_conv_conj concat.simps(2) list.simps(9))
    then have "xs = take (length xs) body" using len by simp
    then have "set xs \<subseteq> set body" by (metis set_take_subset)
    moreover have "length xs \<le> HDLC_BUF_SIZE" using len Cons.prems(3) body(1) by (simp add: sendable_def)
    ultimately show ?thesis
      using body(2) Cons.prems(1) by (intro exI [of _ "[]"] exI [of _ "m # ms"] exI [of _ xs]) auto
  qed
qed


lemma fold_perif [simp]:
  "perifs (set_perif p rec s) = (perifs s)(p := Obj rec)" "clients (set_perif p rec s) = clients s"
  "queues (set_perif p rec s) = queues s" "dm_wf (set_perif p rec s) = dm_wf s"
  by (simp_all add: set_perif_def dm_wf_def mem_ok_def)

text \<open>
  The receiver of the data channel between two calls: the decoder holds one part of the bytes
  that have arrived and are not a complete message, the ring the rest, if there is one.
\<close>

definition rx_holds :: "peripheral \<Rightarrow> u8 list \<Rightarrow> bool" where
  "rx_holds perif bs \<longleftrightarrow>
     circ_inv (p_recv_buf perif) \<and> circ_settled (p_recv_buf perif) \<and>
     (\<exists>part. decoder_holds (p_recv_decoder perif) part \<and> bs = part @ contents (p_recv_buf perif))"

text \<open>The peripheral after a call, which changes its receiver only.\<close>

definition same_but_rx :: "peripheral \<Rightarrow> peripheral \<Rightarrow> bool" where
  "same_but_rx perif perif' \<longleftrightarrow>
     (\<exists>b d. perif' = perif\<lparr>p_recv_buf := b, p_recv_decoder := d\<rparr>)"

lemma same_but_rx_trans: "same_but_rx a b \<Longrightarrow> same_but_rx b c \<Longrightarrow> same_but_rx a c"
  by (fastforce simp: same_but_rx_def)

lemma data_recv_stream:
  assumes "script_size es + (if circ_space_to_end (p_recv_buf perif) = 0 then 1 else 0) < fuel"
    and "perifs s p = Obj perif" and "rx_holds perif held" and "only_data es" and "dm_wf s"
    and "held @ script_bytes es = concat (map hdlc_encode_bytes ms) @ left" and "0x7e \<notin> set left"
    and "\<forall>m \<in> set ms. sendable m" and "length left \<le> HDLC_BUF_SIZE"
  shows "\<exists>s' perif' held' ms1 ms2. data_recv_hdlc_loop fuel p es s = Inr (- EAGAIN, [], s') \<and>
    ms = ms1 @ ms2 \<and> held' = concat (map hdlc_encode_bytes ms2) @ left \<and> rx_holds perif' held' \<and>
    perifs s' = (perifs s)(p := Obj perif') \<and> same_but_rx perif perif' \<and> dm_wf s' \<and> clients s' = clients s \<and>
    (\<forall>q. queues s' q = queues s q @ delivered_all (clients s) ms1 (p_flow perif) q) \<and>
    (\<not> array_end (p_recv_buf perif) (length (script_bytes es)) \<longrightarrow> ms2 = [])"
  using assms
proof (induction fuel arbitrary: es perif s held ms)
  case 0
  then show ?case by simp
next
  case (Suc fuel)
  let ?b = "p_recv_buf perif"
  from Suc.prems(3) obtain part where rx: "circ_inv ?b" "decoder_holds (p_recv_decoder perif) part"
    "held = part @ contents ?b" "circ_settled ?b" by (auto simp: rx_holds_def)
  obtain r e b es' where rd: "circ_read ?b es = Inr (r, e, b, es')" "circ_inv b"
    "contents b @ script_bytes es' = contents ?b @ script_bytes es" "r = 0 \<or> r = -1"
    using circ_read_step [OF rx(1), of es] by blast
  have "Eof \<notin> set es" using Suc.prems(4) by (auto simp: only_data_def)
  note prog = circ_read_progress [OF rx(1) this rd(1)]
  have total: "(part @ contents b) @ script_bytes es' = concat (map hdlc_encode_bytes ms) @ left"
    using rd(3) rx(3) Suc.prems(6) by simp
  show ?case
  proof (cases "r = 0")
    case False
    with prog Suc.prems(4) rd(4) have stop: "e = EAGAIN" "es' = []" "r < 0" by auto
    have settled: "circ_settled b" by (rule circ_read_settled [OF rx(1,4) rd(1) False])
    have "ms = []" if "\<not> array_end ?b (length (script_bytes es))"
    proof -
      have "head b \<noteq> 0" using that circ_read_head [OF rx(1) rd(1)] stop(2) by (auto simp: array_end_def)
      with settled have "contents b = []" by (auto simp: circ_settled_def)
      with total stop(2) have "part = concat (map hdlc_encode_bytes ms) @ left" by simp
      from no_message_left [OF this decoder_holds_part [OF rx(2)]] show ?thesis .
    qed
    moreover have "rx_holds (perif\<lparr>p_recv_buf := b\<rparr>) (part @ contents b)"
      using rd(2) rx(2) settled by (auto simp: rx_holds_def)
    moreover have "perif\<lparr>p_recv_buf := b\<rparr> = perif\<lparr>p_recv_buf := b, p_recv_decoder := p_recv_decoder perif\<rparr>" by simp
    then have "same_but_rx perif (perif\<lparr>p_recv_buf := b\<rparr>)" unfolding same_but_rx_def by blast
    ultimately show ?thesis
      using rd(1) total Suc.prems(2,5) stop
      by (intro exI [of _ "set_perif p (perif\<lparr>p_recv_buf := b\<rparr>) s"] exI [of _ "perif\<lparr>p_recv_buf := b\<rparr>"]
          exI [of _ "part @ contents b"] exI [of _ "[]"] exI [of _ ms]) auto
  next
    case True
    from stream_prefix [OF total Suc.prems(7-9)] obtain ms1 ms2 part' where
      ms: "ms = ms1 @ ms2" "part @ contents b = concat (map hdlc_encode_bytes ms1) @ part'" "0x7e \<notin> set part'"
        "length part' \<le> HDLC_BUF_SIZE" "part' @ script_bytes es' = concat (map hdlc_encode_bytes ms2) @ left"
      by blast
    have "\<forall>m \<in> set ms1. sendable m" using ms(1) Suc.prems(8) by simp
    from data_frames_stream [OF rd(2) rx(2) ms(2,3) this ms(4) circ_count_less Suc.prems(5), of "p_flow perif"]
    obtain d' b' s1 where fr: "data_frames HDLC_BUF_SIZE (p_flow perif) (p_recv_decoder perif) b s = Inr (d', b', s1)"
      "circ_inv b'" "contents b' = []" "decoder_holds d' part'" "dm_wf s1" "queued s s1" "clients s1 = clients s"
      "\<forall>q. queues s1 q = queues s q @ delivered_all (clients s) ms1 (p_flow perif) q" "head b' = head b" by blast
    let ?perif = "perif\<lparr>p_recv_buf := b', p_recv_decoder := d'\<rparr>"
    let ?s = "set_perif p ?perif s1"
    have size: "script_size es' + (if circ_space_to_end (p_recv_buf ?perif) = 0 then 1 else 0) < fuel"
      using prog True Suc.prems(1) space_when_empty [OF fr(2,3)] by (auto split: if_splits)
    have rx': "rx_holds ?perif part'" using fr(2-4) by (auto simp: rx_holds_def circ_settled_def)
    have data: "only_data es'" using prog Suc.prems(4) by blast
    have s: "perifs ?s p = Obj ?perif" "dm_wf ?s" using fr(5) by simp_all
    have "\<forall>m \<in> set ms2. sendable m" using ms(1) Suc.prems(8) by simp
    from Suc.IH [OF size s(1) rx' data s(2) ms(5) Suc.prems(7) this Suc.prems(9)]
    obtain s' perif' held' ms3 ms4 where
      "data_recv_hdlc_loop fuel p es' ?s = Inr (- EAGAIN, [], s')" "ms2 = ms3 @ ms4"
      "held' = concat (map hdlc_encode_bytes ms4) @ left" "rx_holds perif' held'"
      "perifs s' = (perifs ?s)(p := Obj perif')" "same_but_rx ?perif perif'" "dm_wf s'" "clients s' = clients ?s"
      "\<forall>q. queues s' q = queues ?s q @ delivered_all (clients ?s) ms3 (p_flow ?perif) q"
      "\<not> array_end (p_recv_buf ?perif) (length (script_bytes es')) \<longrightarrow> ms4 = []"
      by blast
    moreover have "array_end (p_recv_buf ?perif) (length (script_bytes es')) = array_end ?b (length (script_bytes es))"
      using circ_read_head [OF rx(1) rd(1)] array_end_cong [OF fr(9)] by simp
    moreover have "same_but_rx perif ?perif" unfolding same_but_rx_def by blast
    moreover have "perifs s1 = perifs s" using queued_cntl [OF fr(6)] by simp
    ultimately show ?thesis
      using rd(1) True Suc.prems(2) fr(1,7,8) ms(1) same_but_rx_trans [of perif ?perif perif']
      by (intro exI [of _ s'] exI [of _ perif'] exI [of _ held'] exI [of _ "ms1 @ ms3"] exI [of _ ms4]) auto
  qed
qed


text \<open>Nothing of the stream is lost, and nothing is sent twice or out of order.\<close>

lemma diag_data_recv_stream:
  assumes "perifs s p = Obj perif" and "\<not> has_feature perif FEATURE_APPS_HDLC_ENCODE"
    and "rx_holds perif held" and "dm_wf s"
    and "held @ concat bss = concat (map hdlc_encode_bytes ms) @ left" and "0x7e \<notin> set left"
    and "\<forall>m \<in> set ms. sendable m" and "length left \<le> HDLC_BUF_SIZE"
  shows "\<exists>s' perif' ms1 ms2. diag_data_recv p (map Data bss) s = Inr (0, [], s') \<and> ms = ms1 @ ms2 \<and>
    perifs s' = (perifs s)(p := Obj perif') \<and> same_but_rx perif perif' \<and>
    rx_holds perif' (concat (map hdlc_encode_bytes ms2) @ left) \<and> dm_wf s' \<and> clients s' = clients s \<and>
    (\<forall>q. queues s' q = queues s q @ delivered_all (clients s) ms1 (p_flow perif) q) \<and>
    (\<not> array_end (p_recv_buf perif) (length (concat bss)) \<longrightarrow> ms2 = [])"
proof -
  have bytes: "script_bytes (map Data bss) = concat bss" by (induction bss) simp_all
  have "script_size (map Data bss) + (if circ_space_to_end (p_recv_buf perif) = 0 then 1 else 0) < data_fuel (map Data bss)"
    by (simp add: script_size_def data_fuel_def)
  moreover have "only_data (map Data bss)" by (auto simp: only_data_def)
  moreover have "held @ script_bytes (map Data bss) = concat (map hdlc_encode_bytes ms) @ left"
    using assms(5) by (simp add: bytes)
  ultimately obtain s' perif' held' ms1 ms2 where
    "data_recv_hdlc_loop (data_fuel (map Data bss)) p (map Data bss) s = Inr (- EAGAIN, [], s')" "ms = ms1 @ ms2"
    "held' = concat (map hdlc_encode_bytes ms2) @ left" "rx_holds perif' held'"
    "perifs s' = (perifs s)(p := Obj perif')" "same_but_rx perif perif'" "dm_wf s'" "clients s' = clients s"
    "\<forall>q. queues s' q = queues s q @ delivered_all (clients s) ms1 (p_flow perif) q"
    "\<not> array_end (p_recv_buf perif) (length (concat bss)) \<longrightarrow> ms2 = []"
    using data_recv_stream [of "map Data bss" perif "data_fuel (map Data bss)" s p held, unfolded bytes, OF _ assms(1,3) _ assms(4) _ assms(6-8)]
    unfolding bytes by blast
  then show ?thesis
    using assms(1,2)
    by (intro exI [of _ s'] exI [of _ perif'] exI [of _ ms1] exI [of _ ms2])
      (simp add: diag_data_recv_def diag_data_recv_hdlc_def)
qed

text \<open>
  A read that fills the array exactly, and nothing more to read: none of its messages is
  broadcast before the descriptor is readable again.
\<close>

lemma full_read_waits:
  assumes "perifs s p = Obj perif" and "\<not> has_feature perif FEATURE_APPS_HDLC_ENCODE"
    and "circ_inv (p_recv_buf perif)" and "contents (p_recv_buf perif) = []" and "1 < unat (head (p_recv_buf perif))"
    and "length bs = HDLC_BUF_SIZE - unat (head (p_recv_buf perif))"
  shows "\<exists>b. contents b = bs \<and> diag_data_recv p [Data bs] s = Inr (0, [], set_perif p (perif\<lparr>p_recv_buf := b\<rparr>) s)"
proof -
  let ?b = "p_recv_buf perif"
  have h: "unat (head ?b) < HDLC_BUF_SIZE" using assms(3) by (simp add: circ_inv_def)
  have "circ_count ?b = 0" using assms(4) length_contents [of ?b] by simp
  then have sp: "unat (circ_space_to_end ?b) = length bs"
    using circ_space_to_end_unat [OF assms(3)] assms(5,6) h by simp
  then have "unat (circ_space_to_end ?b) \<noteq> 0" using assms(6) h by simp
  then have room: "circ_space_to_end ?b \<noteq> 0" by auto
  obtain b where b: "circ_store ?b bs = Inr b" "circ_inv b" "tail b = tail ?b" "contents b = bs"
    using circ_store_contents [OF assms(3), of bs] assms(4) sp by auto
  have count: "circ_count b = length bs" using b(4) length_contents [of b] by simp
  moreover have "unat (head b) < HDLC_BUF_SIZE" using b(2) by (simp add: circ_inv_def)
  ultimately have "unat (circ_space_to_end b) \<noteq> 0"
    using circ_space_to_end_unat [OF b(2)] assms(5,6) h by simp
  then have "circ_space_to_end b \<noteq> 0" by auto
  then have "circ_read ?b [Data bs] = Inr (-1, EAGAIN, b, [])"
    using sp room b(1) by (simp add: circ_read.simps [of ?b] circ_read.simps [of b])
  then show ?thesis
    using b(4) assms(1,2)
    by (intro exI [of _ b]) (simp add: diag_data_recv_def diag_data_recv_hdlc_def data_fuel_def)
qed

text \<open>A peripheral that encodes its messages itself: one message for each read.\<close>

lemma data_recv_raw_reads:
  assumes "length bss < fuel" and "perifs s p = Obj perif" and "dm_wf s"
    and "\<forall>bs \<in> set bss. length bs \<le> RAW_BUF_SIZE"
  shows "\<exists>s'. data_recv_raw_loop fuel p (map Data bss) s = Inr (- EAGAIN, [], s') \<and> dm_wf s' \<and> queued s s' \<and>
    clients s' = clients s \<and> (\<forall>q. queues s' q = queues s q @ delivered_all (clients s) bss (p_flow perif) q)"
  using assms
proof (induction bss arbitrary: s fuel)
  case Nil
  then show ?case by (cases fuel) auto
next
  case (Cons bs bss)
  from Cons.prems(1) obtain f where fuel: "fuel = Suc f" "length bss < f" by (cases fuel) auto
  obtain s1 where s1: "dm_broadcast bs (p_flow perif) s = Inr s1" "dm_wf s1" "clients s1 = clients s" "queued s s1"
    "\<And>q. queues s1 q = queues s q @ delivered (clients s) bs (p_flow perif) [0..<length (clients s)] q"
    by (rule dm_broadcast_queued [OF Cons.prems(3), where msg = bs and flow = "p_flow perif"]) blast
  have "perifs s1 p = Obj perif" using queued_cntl [OF s1(4)] Cons.prems(2) by simp
  moreover have "\<forall>bs \<in> set bss. length bs \<le> RAW_BUF_SIZE" using Cons.prems(4) by simp
  ultimately obtain s' where
    s': "data_recv_raw_loop f p (map Data bss) s1 = Inr (- EAGAIN, [], s')" "dm_wf s'" "queued s1 s'"
    "clients s' = clients s1" "\<forall>q. queues s' q = queues s1 q @ delivered_all (clients s1) bss (p_flow perif) q"
    using Cons.IH [OF fuel(2) _ s1(2)] by blast
  have "data_recv_raw_loop fuel p (map Data (bs # bss)) s = Inr (- EAGAIN, [], s')"
    using Cons.prems(2,4) s1(1) s'(1) by (simp add: fuel(1))
  moreover have "queues s' q = queues s q @ delivered_all (clients s) (bs # bss) (p_flow perif) q" for q
    using s'(5) by (simp add: s1(3,5))
  ultimately show ?case using s'(2,4) s1(3) queued_trans [OF s1(4) s'(3)] by auto
qed

section \<open>Returning\<close>

text \<open>
  After the end of the stream every read succeeds with no bytes: the receive loops go on for
  ever.
\<close>

lemma data_recv_raw_eof:
  "perifs s p = Obj perif \<Longrightarrow> dm_wf s \<Longrightarrow> data_recv_raw_loop fuel p (Eof # es) s = Inl Diverged"
proof (induction fuel arbitrary: s)
  case (Suc fuel)
  obtain s1 where s1: "dm_broadcast [] (p_flow perif) s = Inr s1" "dm_wf s1" "queued s s1"
    by (rule dm_broadcast_queued [OF Suc.prems(2), where msg = "[]" and flow = "p_flow perif"]) blast
  then have "perifs s1 p = Obj perif" using queued_cntl [OF s1(3)] Suc.prems(1) by simp
  from Suc.IH [OF this s1(2)] Suc.prems(1) s1(1) show ?case by (simp add: Let_def)
qed simp

lemma data_recv_hdlc_eof:
  "perifs s p = Obj perif \<Longrightarrow> dm_wf s \<Longrightarrow> circ_inv (p_recv_buf perif) \<Longrightarrow> contents (p_recv_buf perif) = [] \<Longrightarrow>
   decoder_holds (p_recv_decoder perif) part \<Longrightarrow> 0x7e \<notin> set part \<Longrightarrow> length part \<le> HDLC_BUF_SIZE \<Longrightarrow>
   data_recv_hdlc_loop fuel p (Eof # es) s = Inl Diverged"
proof (induction fuel arbitrary: s perif)
  case (Suc fuel)
  let ?b = "p_recv_buf perif"
  have "circ_space_to_end ?b \<noteq> 0" by (rule space_when_empty [OF Suc.prems(3,4)])
  moreover obtain b where b: "circ_store ?b [] = Inr b" "circ_inv b" "contents b = []"
    using circ_store_contents [OF Suc.prems(3), of "[]"] Suc.prems(4) by auto
  ultimately have rd: "circ_read ?b (Eof # es) = Inr (0, 0, b, Eof # es)"
    by (simp add: circ_read.simps [of ?b "Eof # es"] unat_eq_zero)
  have st: "part @ contents b = concat (map hdlc_encode_bytes []) @ part" by (simp add: b(3))
  from data_frames_stream [OF b(2) Suc.prems(5) st Suc.prems(6) _ Suc.prems(7) circ_count_less Suc.prems(2), of "p_flow perif"]
  obtain d' b' s' where fr: "data_frames HDLC_BUF_SIZE (p_flow perif) (p_recv_decoder perif) b s = Inr (d', b', s')"
    "circ_inv b'" "contents b' = []" "decoder_holds d' part" "dm_wf s'" by auto
  let ?s = "set_perif p (perif\<lparr>p_recv_buf := b', p_recv_decoder := d'\<rparr>) s'"
  have "data_recv_hdlc_loop fuel p (Eof # es) ?s = Inl Diverged"
    by (rule Suc.IH [where perif = "perif\<lparr>p_recv_buf := b', p_recv_decoder := d'\<rparr>"])
      (use fr Suc.prems in simp_all)
  then show ?case using Suc.prems(1) rd fr(1) by simp
qed simp

text \<open>Without an end they return, or fail: the fuel is enough for any script.\<close>

lemma hdlc_decode_loop_progress:
  "circ_inv b \<Longrightarrow> hdlc_decode_loop d b \<noteq> Inl Diverged \<and>
   (\<forall>t d' b'. hdlc_decode_loop d b = Inr (t, d', b') \<longrightarrow>
      circ_inv b' \<and> (if t then circ_count b' < circ_count b else contents b' = []))"
proof (induction d b rule: hdlc_decode_loop.induct)
  case (1 d b)
  show ?case
  proof (cases "tail b = head b")
    case True
    with "1.prems" contents_nil [of b] show ?thesis by (auto simp: hdlc_decode_loop.simps [of d b])
  next
    case ne: False
    let ?ch = "buf b (unat (tail b))"
    have bnd: "\<not> HDLC_BUF_SIZE \<le> unat (tail b)" "\<not> only_escapes b"
      using "1.prems" by (simp_all, simp add: circ_inv_def)
    note unf = hdlc_decode_loop.simps [of d b, folded circ_pop_def]
    note IH = "1.IH" [OF ne bnd refl refl, folded circ_pop_def]
    have pop: "circ_inv (circ_pop b)" "circ_count (circ_pop b) < circ_count b"
      using circ_pop_inv [OF "1.prems"] circ_count_pop [OF "1.prems" ne] by simp_all
    consider "?ch = 0x7e" | "?ch = 0x7d" | "?ch \<noteq> 0x7e" "?ch \<noteq> 0x7d" by blast
    then show ?thesis
    proof cases
      case 1
      with ne bnd pop show ?thesis by (auto simp: unf)
    next
      case 2
      with IH(1) [OF _ 2 pop(1)] ne bnd pop(2) show ?thesis by (fastforce simp: unf split: if_splits)
    next
      case 3
      show ?thesis
      proof (cases "raw d")
        case None
        with 3 ne bnd show ?thesis by (simp add: unf)
      next
        case (Some r)
        show ?thesis
        proof (cases "HDLC_BUF_SIZE \<le> r")
          case True
          with 3 ne bnd Some show ?thesis by (simp add: unf)
        next
          case False
          from IH(2) [OF 3 Some False pop(1)] 3 ne bnd Some False pop(2) show ?thesis
            by (fastforce simp: unf split: if_splits)
        qed
      qed
    qed
  qed
qed

lemma hdlc_decode_one_progress:
  assumes "circ_inv b"
  shows "hdlc_decode_one d b \<noteq> Inl Diverged \<and>
    (\<forall>msg d' b'. hdlc_decode_one d b = Inr (msg, d', b') \<longrightarrow>
       circ_inv b' \<and> (msg \<noteq> None \<or> contents b \<noteq> [] \<longrightarrow> circ_count b' < circ_count b) \<and> circ_count b' \<le> circ_count b)"
proof -
  define d0 where "d0 = (case raw d of None \<Rightarrow> d\<lparr>raw := Some 0\<rparr> | Some _ \<Rightarrow> d)"
  have one: "hdlc_decode_one d b = andthen (hdlc_decode_loop d0 b) (\<lambda>(found, d', b').
      if \<not> found then Inr (None, d', b')
      else if raw d' = Some 0 then Inr (None, d', b')
      else case raw d' of
             None \<Rightarrow> Inl NullDeref
           | Some r \<Rightarrow> Inr (Some (of_nat r - 2), d'\<lparr>raw := Some 0, escape := 0\<rparr>, b'))"
    by (simp add: hdlc_decode_one_def d0_def)
  have nil: "circ_count b' = 0 \<longleftrightarrow> contents b' = []" for b' using length_contents [of b'] by (metis length_0_conv)
  show ?thesis
  proof (cases "hdlc_decode_loop d0 b")
    case (Inl f)
    with hdlc_decode_loop_progress [OF assms, of d0] show ?thesis by (simp add: one)
  next
    case (Inr x)
    obtain t d' b' where x: "x = (t, d', b')" by (cases x)
    with hdlc_decode_loop_progress [OF assms, of d0] Inr have
      p: "circ_inv b'" "if t then circ_count b' < circ_count b else contents b' = []" by auto
    show ?thesis
    proof (cases t)
      case True
      with p show ?thesis by (simp add: one Inr x split: option.split)
    next
      case False
      with p nil [of b'] nil [of b] show ?thesis by (auto simp: one Inr x)
    qed
  qed
qed


lemma dm_broadcast_not_diverged: "dm_wf s \<Longrightarrow> dm_broadcast msg flow s \<noteq> Inl f"
  using dm_broadcast_ok [of s msg flow] by force

lemma data_frames_returns:
  "circ_inv b \<Longrightarrow> dm_wf s \<Longrightarrow> circ_count b < fuel \<Longrightarrow>
   data_frames fuel flow d b s \<noteq> Inl Diverged \<and>
   (\<forall>d' b' s'. data_frames fuel flow d b s = Inr (d', b', s') \<longrightarrow>
      circ_inv b' \<and> (contents b \<noteq> [] \<longrightarrow> circ_count b' < circ_count b) \<and> circ_count b' \<le> circ_count b \<and>
      dm_wf s' \<and> queued s s')"
proof (induction fuel arbitrary: d b s)
  case (Suc fuel)
  show ?case
  proof (cases "hdlc_decode_one d b")
    case (Inl f)
    with hdlc_decode_one_progress [OF Suc.prems(1), of d] show ?thesis by simp
  next
    case (Inr x)
    obtain msg d1 b1 where x: "x = (msg, d1, b1)" by (cases x)
    with hdlc_decode_one_progress [OF Suc.prems(1), of d] Inr have
      p: "circ_inv b1" "msg \<noteq> None \<or> contents b \<noteq> [] \<Longrightarrow> circ_count b1 < circ_count b" "circ_count b1 \<le> circ_count b"
      by auto
    show ?thesis
    proof (cases msg)
      case None
      with p Inr x Suc.prems(2) show ?thesis by auto
    next
      case (Some n)
      let ?m = "\<lparr>cap = HDLC_BUF_SIZE, byte = raw_buf d1\<rparr>"
      have lt: "circ_count b1 < fuel" "circ_count b1 < circ_count b" using p(2) Some Suc.prems(3) by auto
      show ?thesis
      proof (cases "rd_bytes ?m 0 (unat n)")
        case (Inr bs)
        obtain s1 where s1: "dm_broadcast bs flow s = Inr s1" "dm_wf s1" "queued s s1"
          by (rule dm_broadcast_queued [OF Suc.prems(2), where msg = bs and flow = flow]) blast
        have "data_frames (Suc fuel) flow d b s = data_frames fuel flow d1 b1 s1"
          using \<open>hdlc_decode_one d b = _\<close> broadcast_from_ok [OF Inr, of flow s] s1(1) by (simp add: x Some)
        with Suc.IH [OF p(1) s1(2) lt(1), of d1] lt(2) queued_trans [OF s1(3)] show ?thesis
          by (auto dest: order.strict_trans1)
      next
        case (Inl f)
        then have "f = OobRead" by (auto simp: rd_bytes_def split: if_splits)
        with Inl show ?thesis
          using \<open>hdlc_decode_one d b = _\<close> Suc.IH [OF p(1) Suc.prems(2) lt(1), of d1] lt(2)
          by (auto simp: x Some broadcast_from_def dest: order.strict_trans1)
      qed
    qed
  qed
qed simp

lemma space_when_room: "circ_inv b \<Longrightarrow> circ_count b < HDLC_BUF_SIZE - 1 \<Longrightarrow> circ_space_to_end b \<noteq> 0"
proof -
  assume b: "circ_inv b" "circ_count b < HDLC_BUF_SIZE - 1"
  with circ_space_to_end_unat [OF b(1)] have "unat (circ_space_to_end b) \<noteq> 0"
    by (simp add: circ_inv_def)
  then show ?thesis by auto
qed

lemma data_recv_hdlc_returns:
  "script_size es + (if circ_space_to_end (p_recv_buf perif) = 0 then 1 else 0) < fuel \<Longrightarrow>
   perifs s p = Obj perif \<Longrightarrow> circ_inv (p_recv_buf perif) \<Longrightarrow> dm_wf s \<Longrightarrow> Eof \<notin> set es \<Longrightarrow>
   data_recv_hdlc_loop fuel p es s \<noteq> Inl Diverged"
proof (induction fuel arbitrary: es perif s)
  case (Suc fuel)
  let ?b = "p_recv_buf perif"
  obtain r e b es' where rd: "circ_read ?b es = Inr (r, e, b, es')" "circ_inv b" "\<exists>bs. contents b = contents ?b @ bs"
    using circ_read_step [OF Suc.prems(3), of es] by blast
  note prog = circ_read_progress [OF Suc.prems(3,5) rd(1)]
  show ?case
  proof (cases "r < 0")
    case True
    with rd(1) Suc.prems(2) show ?thesis by simp
  next
    case False
    let ?fr = "data_frames HDLC_BUF_SIZE (p_flow perif) (p_recv_decoder perif) b s"
    note fr = data_frames_returns [OF rd(2) Suc.prems(4) circ_count_less, of "p_flow perif" "p_recv_decoder perif"]
    show ?thesis
    proof (cases ?fr)
      case (Inl f)
      with fr rd(1) False Suc.prems(2) show ?thesis by simp
    next
      case (Inr x)
      obtain d' b' s' where x: "x = (d', b', s')" by (cases x)
      with fr Inr have b': "circ_inv b'" "contents b \<noteq> [] \<Longrightarrow> circ_count b' < circ_count b" "dm_wf s'"
        "circ_count b' \<le> circ_count b" by auto
      have "circ_count b' < HDLC_BUF_SIZE - 1"
      proof (cases "contents b = []")
        case True
        then have "circ_count b = 0" by (metis length_0_conv length_contents)
        with b'(4) show ?thesis by (simp add: HDLC_BUF_SIZE_def)
      next
        case False
        with b'(2) circ_count_less [of b] show ?thesis by simp
      qed
      from space_when_room [OF b'(1) this] have sp: "circ_space_to_end b' \<noteq> 0" .
      have "script_size es' + 0 < fuel"
        using prog Suc.prems(1) sp rd circ_read_step [OF Suc.prems(3), of es] False by (auto split: if_splits)
      moreover have "Eof \<notin> set es'" using prog by blast
      ultimately have "data_recv_hdlc_loop fuel p es' (set_perif p (perif\<lparr>p_recv_buf := b', p_recv_decoder := d'\<rparr>) s')
          \<noteq> Inl Diverged"
        using Suc.IH [where perif = "perif\<lparr>p_recv_buf := b', p_recv_decoder := d'\<rparr>"] b' sp by auto
      then show ?thesis using rd(1) False Suc.prems(2) Inr x by simp
    qed
  qed
qed simp

lemma data_recv_raw_returns:
  "script_size es < fuel \<Longrightarrow> perifs s p = Obj perif \<Longrightarrow> dm_wf s \<Longrightarrow> Eof \<notin> set es \<Longrightarrow>
   data_recv_raw_loop fuel p es s \<noteq> Inl Diverged"
proof (induction fuel arbitrary: es s)
  case (Suc fuel)
  obtain x es' where rd: "fd_read RAW_BUF_SIZE es = (x, es')" by (cases "fd_read RAW_BUF_SIZE es")
  show ?case
  proof (cases x)
    case (Errno e)
    with rd show ?thesis by simp
  next
    case (Got bs)
    with fd_read_progress [OF Suc.prems(4), of RAW_BUF_SIZE bs es'] rd have
      p: "script_size es' < script_size es" "Eof \<notin> set es'" by (auto simp: RAW_BUF_SIZE_def)
    obtain s1 where s1: "dm_broadcast bs (p_flow perif) s = Inr s1" "dm_wf s1" "queued s s1"
      by (rule dm_broadcast_queued [OF Suc.prems(3), where msg = bs and flow = "p_flow perif"]) blast
    have "data_recv_raw_loop fuel p es' s1 \<noteq> Inl Diverged"
      using Suc.IH [OF _ _ s1(2) p(2)] p(1) Suc.prems(1,2) queued_cntl [OF s1(3)] by simp
    then show ?thesis using rd Got Suc.prems(2) s1(1) by simp
  qed
qed simp

text \<open>The callbacks as a whole.\<close>

lemma peripheral_close_ends: "peripheral_close p s \<noteq> Inl Diverged"
  by (cases "perifs s p")
    (auto simp: peripheral_close_def perif_rpmsg_close_def qrtr_perif_close_def diag_cntl_close_def Let_def split: perif_ops.splits)

lemma diag_data_recv_returns:
  fixes s :: "'z cntl_state_scheme"
  assumes "perifs s p = Obj perif" and "circ_inv (p_recv_buf perif)" and "dm_wf s" and "Eof \<notin> set es"
  shows "diag_data_recv p es s \<noteq> Inl Diverged"
proof -
  have close: "andthen (peripheral_close p t) (\<lambda>t. Inr (0 :: int, es, t)) \<noteq> Inl Diverged" for t :: "'z cntl_state_scheme" and es :: "fd_event list"
    using peripheral_close_ends [of p t] by (cases "peripheral_close p t") auto
  have ends: "andthen m (\<lambda>(n, es, t). if n < 0 \<and> n \<noteq> - EAGAIN then andthen (peripheral_close p t) (\<lambda>t. Inr (0 :: int, es, t))
      else Inr (0, es, t)) \<noteq> Inl Diverged" if "m \<noteq> Inl Diverged" for m :: "(int \<times> fd_event list \<times> 'z cntl_state_scheme) res"
  proof (cases m)
    case (Inr x)
    then show ?thesis using close by (cases x) simp
  qed (use that in simp)
  have "diag_data_recv_raw p es s \<noteq> Inl Diverged"
    unfolding diag_data_recv_raw_def
    by (rule data_recv_raw_returns [OF _ assms(1,3,4)]) (simp add: data_fuel_def script_size_def)
  moreover have "diag_data_recv_hdlc p es s \<noteq> Inl Diverged"
    unfolding diag_data_recv_hdlc_def
    by (rule data_recv_hdlc_returns [OF _ assms]) (simp add: data_fuel_def script_size_def)
  ultimately show ?thesis using assms(1) ends by (simp add: diag_data_recv_def)
qed

lemma diag_cmd_recv_frame:
  fixes s :: "'z cntl_state_scheme"
  assumes "length bs \<le> CMD_BUF_SIZE"
  shows "diag_cmd_recv p [Data bs] s =
    andthen (case frame_payload bs of None \<Rightarrow> Inr (s\<lparr>alloc_no := Suc (alloc_no s)\<rparr>)
             | Some msg \<Rightarrow> dm_broadcast msg None (s\<lparr>alloc_no := Suc (alloc_no s)\<rparr>)) (\<lambda>s. Inr (0, [], s))"
  using non_hdlc_recv_frame [of bs CMD_BUF_SIZE, where s = "s\<lparr>alloc_no := Suc (alloc_no s)\<rparr>"] assms
  by (simp add: diag_cmd_recv_def alloca_def Let_def CMD_BUF_SIZE_def)

end
