(* ===== verification/Rpmsg.thy ===== *)
theory Rpmsg
  imports Rpmsg_Recv
begin

text \<open>
  Finding peripherals behind rpmsg (\<^verbatim>\<open>peripheral-rpmsg.c\<close>): the registry of device nodes that
  udev announces, the creation of a peripheral when its primary channel appears, and the
  timer that opens its channels a second later. What udev reports about a device and what
  \<^verbatim>\<open>open\<close> returns are arguments.
\<close>

section \<open>State\<close>

text \<open>Strings without their terminating zero; a null pointer is \<open>None\<close>.\<close>

record devnode =
  dn_devnode :: "u8 list option"
  dn_name :: "u8 list option"
  dn_rproc :: "u8 list option"

record rpmsg_state = router_state +
  devnodes :: "devnode list"

definition chars :: "string \<Rightarrow> u8 list" where
  "chars str = map of_char str"

definition strdup :: "u8 list \<Rightarrow> 'z heap_scheme \<Rightarrow> u8 list option \<times> 'z heap_scheme" where
  "strdup str s =
     (case malloc (length str + 1) s of (None, s) \<Rightarrow> (None, s) | (Some _, s) \<Rightarrow> (Some str, s))"

text \<open>Whether \<^verbatim>\<open>strcmp\<close> gives zero.\<close>

definition str_eq :: "u8 list option \<Rightarrow> u8 list option \<Rightarrow> bool res" where
  "str_eq a b =
     (case a of None \<Rightarrow> Inl NullDeref
      | Some x \<Rightarrow> (case b of None \<Rightarrow> Inl NullDeref | Some y \<Rightarrow> Inr (x = y)))"

text \<open>The first element of a list that passes a test.\<close>

fun find_res :: "('a \<Rightarrow> bool res) \<Rightarrow> 'a list \<Rightarrow> 'a option res" where
  "find_res P [] = Inr None"
| "find_res P (x # xs) = andthen (P x) (\<lambda>b. if b then Inr (Some x) else find_res P xs)"

section \<open>The registry of device nodes\<close>

definition DEVNODE_SIZE :: nat where "DEVNODE_SIZE = 40"

definition devnode_get :: "u8 list \<Rightarrow> 'z rpmsg_state_scheme \<Rightarrow> devnode option res" where
  "devnode_get dev s = find_res (\<lambda>node. str_eq (dn_devnode node) (Some dev)) (devnodes s)"

definition devnode_open ::
    "(u8 list \<Rightarrow> int) \<Rightarrow> u8 list option \<Rightarrow> u8 list \<Rightarrow> 'z rpmsg_state_scheme \<Rightarrow> int res" where
  "devnode_open opn rproc name s =
     andthen (find_res (\<lambda>node.
         andthen (str_eq (dn_rproc node) rproc) (\<lambda>b.
           if b then str_eq (dn_name node) (Some name) else Inr False)) (devnodes s)) (\<lambda>r.
     case r of
       None \<Rightarrow> Inr (-1)
     | Some node \<Rightarrow> (case dn_devnode node of None \<Rightarrow> Inr (-1) | Some dev \<Rightarrow> Inr (opn dev)))"

text \<open>The node's allocation is not tested before it is cleared.\<close>

definition devnode_add ::
    "u8 list \<Rightarrow> u8 list \<Rightarrow> u8 list \<Rightarrow> 'z rpmsg_state_scheme \<Rightarrow> 'z rpmsg_state_scheme res" where
  "devnode_add dev name rproc s =
     andthen (devnode_get dev s) (\<lambda>node.
     case node of
       Some _ \<Rightarrow> Inr s
     | None \<Rightarrow>
         (case malloc DEVNODE_SIZE s of
            (None, _) \<Rightarrow> Inl NullDeref
          | (Some _, s) \<Rightarrow>
              let (d, s) = strdup dev s; (n, s) = strdup name s; (r, s) = strdup rproc s in
              Inr (s\<lparr>devnodes := devnodes s @ [\<lparr>dn_devnode = d, dn_name = n, dn_rproc = r\<rparr>]\<rparr>)))"

definition devnode_remove :: "u8 list \<Rightarrow> 'z rpmsg_state_scheme \<Rightarrow> 'z rpmsg_state_scheme res" where
  "devnode_remove dev s =
     andthen (devnode_get dev s) (\<lambda>node.
     case node of
       None \<Rightarrow> Inr s
     | Some node \<Rightarrow> Inr (s\<lparr>devnodes := remove1 node (devnodes s)\<rparr>))"

section \<open>Creating a peripheral\<close>

definition PERIPHERAL_SIZE :: nat where "PERIPHERAL_SIZE = 49448"

definition perif_named :: "u8 list \<Rightarrow> 'z cntl_state_scheme \<Rightarrow> perif_id \<Rightarrow> bool res" where
  "perif_named rproc s p = andthen (deref (perifs s p)) (\<lambda>perif. str_eq (p_name perif) (Some rproc))"

definition peripheral_create :: "u8 list \<Rightarrow> u8 list \<Rightarrow> 'z cntl_state_scheme \<Rightarrow> (int \<times> 'z cntl_state_scheme) res" where
  "peripheral_create rproc channel s =
     (if channel \<noteq> chars ''DIAG'' \<and> channel \<noteq> chars ''APPS_RIVA_DATA'' then Inr (0, s)
      else
        andthen (find_res (perif_named rproc s) (peripherals s)) (\<lambda>known.
        if known \<noteq> None then Inr (0, s)
        else case malloc PERIPHERAL_SIZE s of
               (None, _) \<Rightarrow> Inl NullDeref
             | (Some _, s) \<Rightarrow>
                 let (flow, s) = watch_flow_new s; (name, s) = strdup rproc s; p = next_perif s;
                     perif = \<lparr>p_name = name, p_features = 0, p_cntl_fd = -1, p_cntl_open = False, p_data_fd = -1,
                              p_data_open = False, p_cmd_fd = -1, p_dci_cmd_fd = 0, p_flow = flow, p_diag_id = 0,
                              p_sockets = False, p_recv_buf = circ_empty, p_recv_decoder = decoder_zero,
                              p_ops = RpmsgOps\<rparr>;
                     s = s\<lparr>queues := (queues s)(PerifCmdq p := [], PerifCntlq p := [], PerifDataq p := []),
                           perifs := (perifs s)(p := Obj perif), next_perif := Suc p,
                           peripherals := peripherals s @ [p]\<rparr>
                 in andthen (watch_add_timer (TmPeripheralOpen p) 1000 False s) (\<lambda>s. Inr (0, s))))"

section \<open>Opening its channels\<close>

text \<open>A channel goes by one of two names.\<close>

definition open_channel ::
    "(u8 list \<Rightarrow> int) \<Rightarrow> u8 list option \<Rightarrow> u8 list \<Rightarrow> u8 list \<Rightarrow> 'z rpmsg_state_scheme \<Rightarrow> int res" where
  "open_channel opn rproc name other s =
     andthen (devnode_open opn rproc name s) (\<lambda>fd.
       if fd < 0 then devnode_open opn rproc other s else Inr fd)"

text \<open>
  The timer's callback. When a channel is missing nothing is watched, and the timer is not
  set again.
\<close>

definition peripheral_open ::
    "(u8 list \<Rightarrow> int) \<Rightarrow> perif_id \<Rightarrow> 'z rpmsg_state_scheme \<Rightarrow> 'z rpmsg_state_scheme res" where
  "peripheral_open opn p s =
     andthen (deref (perifs s p)) (\<lambda>perif.
     let rproc = p_name perif in
     andthen (open_channel opn rproc (chars ''DIAG'') (chars ''APPS_RIVA_DATA'') s) (\<lambda>data.
     if data < 0 then Inr s
     else andthen (open_channel opn rproc (chars ''DIAG_CNTL'') (chars ''APPS_RIVA_CTRL'') s) (\<lambda>cntl.
     if cntl < 0 then Inr (set_perif p (perif\<lparr>p_data_fd := -1\<rparr>) s)
     else andthen (devnode_open opn rproc (chars ''DIAG_CMD'') s) (\<lambda>cmd.
     let perif = perif\<lparr>p_data_fd := data, p_cntl_fd := cntl,
                       p_cmd_fd := if cmd \<ge> 0 then cmd else p_cmd_fd perif\<rparr>;
         s = set_perif p perif s
     in andthen (watch_add_writeq cntl (PerifCntlq p) s) (\<lambda>s.
        andthen (watch_add_writeq data (PerifDataq p) s) (\<lambda>s.
        andthen (watch_add_readfd cntl (CbRpmsgCntl p) None s) (\<lambda>s.
        andthen (watch_add_readfd data (CbRpmsgData p) (p_flow perif) s) (\<lambda>s.
        andthen (if p_cmd_fd perif \<ge> 0
                 then andthen (watch_add_readfd (p_cmd_fd perif) (CbRpmsgCmd p) None s)
                        (watch_add_writeq (p_cmd_fd perif) (PerifCmdq p))
                 else Inr s) (\<lambda>s.
          diag_cntl_send_masks p s)))))))))"

section \<open>udev\<close>

text \<open>
  A device as udev reports it: the action, the device node, the \<^verbatim>\<open>name\<close> attribute, and the
  \<^verbatim>\<open>rpmsg_name\<close> attribute of each of its ancestors, from its parent on.
\<close>

record udev_device =
  ud_action :: "u8 list"
  ud_devnode :: "u8 list option"
  ud_name :: "u8 list option"
  ud_parents :: "u8 list option list"

definition peripheral_udev_get_name :: "udev_device \<Rightarrow> u8 list option" where
  "peripheral_udev_get_name dev = ud_name dev"

fun peripheral_udev_get_remoteproc :: "u8 list option list \<Rightarrow> u8 list option" where
  "peripheral_udev_get_remoteproc [] = None"
| "peripheral_udev_get_remoteproc (parent # parents) =
     (case parent of Some p \<Rightarrow> Some p | None \<Rightarrow> peripheral_udev_get_remoteproc parents)"

text \<open>The body that the callback and the enumeration at start up share.\<close>

definition udev_add :: "u8 list \<Rightarrow> u8 list \<Rightarrow> u8 list \<Rightarrow> 'z rpmsg_state_scheme \<Rightarrow> 'z rpmsg_state_scheme res" where
  "udev_add dev name rproc s =
     andthen (devnode_add dev name rproc s) (\<lambda>s.
     andthen (peripheral_create rproc name s) (\<lambda>(_, s). Inr s))"

definition peripheral_udev_update ::
    "udev_device option \<Rightarrow> 'z rpmsg_state_scheme \<Rightarrow> (int \<times> 'z rpmsg_state_scheme) res" where
  "peripheral_udev_update dev s =
     (case dev of
        None \<Rightarrow> Inr (0, s)
      | Some dev \<Rightarrow>
          (case ud_devnode dev of
             None \<Rightarrow> Inr (0, s)
           | Some node \<Rightarrow>
               if ud_action dev = chars ''add'' then
                 (case (peripheral_udev_get_name dev, peripheral_udev_get_remoteproc (ud_parents dev)) of
                    (Some name, Some rproc) \<Rightarrow> andthen (udev_add node name rproc s) (\<lambda>s. Inr (0, s))
                  | _ \<Rightarrow> Inr (0, s))
               else if ud_action dev = chars ''remove'' then
                 andthen (devnode_remove node s) (\<lambda>s. Inr (0, s))
               else Inr (0, s)))"

text \<open>Start up: \<open>mon\<close> is the descriptor of the monitor, \<open>devs\<close> what the enumeration finds.\<close>

definition rpmsg_enumerate :: "udev_device \<Rightarrow> 'z rpmsg_state_scheme \<Rightarrow> 'z rpmsg_state_scheme res" where
  "rpmsg_enumerate dev s =
     (case (ud_devnode dev, peripheral_udev_get_name dev, peripheral_udev_get_remoteproc (ud_parents dev)) of
        (Some node, Some name, Some rproc) \<Rightarrow> udev_add node name rproc s
      | _ \<Rightarrow> Inr s)"

definition peripheral_rpmsg_init ::
    "bool \<Rightarrow> int \<Rightarrow> udev_device list \<Rightarrow> 'z rpmsg_state_scheme \<Rightarrow> (int \<times> 'z rpmsg_state_scheme) res" where
  "peripheral_rpmsg_init udev_ok mon devs s =
     (if \<not> udev_ok then Inl Exited
      else
        andthen (fold_res rpmsg_enumerate devs s) (\<lambda>s.
        andthen (watch_add_readfd mon CbUdevUpdate None s) (\<lambda>s. Inr (0, s))))"


section \<open>The registry is a map\<close>

lemma find_res_find: "\<forall>x \<in> set xs. P x = Inr (Q x) \<Longrightarrow> find_res P xs = Inr (List.find Q xs)"
  by (induction xs) simp_all

lemma strdup_ok: "mem_ok s \<Longrightarrow> strdup str s = (Some str, s\<lparr>alloc_no := Suc (alloc_no s)\<rparr>)"
  by (simp add: strdup_def malloc_ok)

definition devnode_key :: "devnode \<Rightarrow> u8 list \<times> u8 list \<times> u8 list" where
  "devnode_key node = (the (dn_devnode node), the (dn_name node), the (dn_rproc node))"

definition devnodes_wf :: "'z rpmsg_state_scheme \<Rightarrow> bool" where
  "devnodes_wf s \<longleftrightarrow>
     (\<forall>node \<in> set (devnodes s). dn_devnode node \<noteq> None \<and> dn_name node \<noteq> None \<and> dn_rproc node \<noteq> None) \<and>
     distinct (map dn_devnode (devnodes s))"

definition devnode_view :: "'z rpmsg_state_scheme \<Rightarrow> u8 list \<Rightarrow> (u8 list \<times> u8 list) option" where
  "devnode_view s = map_of (map devnode_key (devnodes s))"

lemma devnode_get_ok:
  assumes "devnodes_wf s"
  shows "devnode_get dev s = Inr (List.find (\<lambda>node. dn_devnode node = Some dev) (devnodes s))"
  unfolding devnode_get_def
  by (rule find_res_find) (use assms in \<open>auto simp: devnodes_wf_def str_eq_def\<close>)

lemma devnode_view_None:
  assumes "devnodes_wf s"
  shows "devnode_view s dev = None \<longleftrightarrow> List.find (\<lambda>node. dn_devnode node = Some dev) (devnodes s) = None"
  using assms
  by (auto simp: devnode_view_def map_of_eq_None_iff find_None_iff devnode_key_def devnodes_wf_def image_iff)

definition registered :: "u8 list \<Rightarrow> u8 list \<times> u8 list \<Rightarrow> (u8 list \<Rightarrow> (u8 list \<times> u8 list) option) \<Rightarrow>
    u8 list \<Rightarrow> (u8 list \<times> u8 list) option" where
  "registered dev v m = (if dev \<in> dom m then m else m(dev \<mapsto> v))"

text \<open>Adding keeps what is registered already.\<close>

lemma devnode_add_ok:
  assumes "devnodes_wf s" and "mem_ok s"
  obtains k nodes where "devnode_add dev name rproc s = Inr (s\<lparr>alloc_no := k, devnodes := nodes\<rparr>)"
    "devnodes_wf (s\<lparr>alloc_no := k, devnodes := nodes\<rparr>)"
    "devnode_view (s\<lparr>alloc_no := k, devnodes := nodes\<rparr>) = registered dev (name, rproc) (devnode_view s)"
proof (cases "List.find (\<lambda>node. dn_devnode node = Some dev) (devnodes s)")
  case None
  let ?n = "\<lparr>dn_devnode = Some dev, dn_name = Some name, dn_rproc = Some rproc\<rparr>"
  have new: "Some dev \<notin> dn_devnode ` set (devnodes s)" using None by (auto simp: find_None_iff)
  have "devnode_view s dev = None" using None devnode_view_None [OF assms(1)] by simp
  have mem: "mem_ok (s\<lparr>alloc_no := i\<rparr>)" for i using assms(2) by simp
  have "devnode_add dev name rproc s =
      Inr (s\<lparr>alloc_no := Suc (Suc (Suc (Suc (alloc_no s)))), devnodes := devnodes s @ [?n]\<rparr>)"
    using devnode_get_ok [OF assms(1), of dev] None assms(2)
    by (simp add: devnode_add_def malloc_ok strdup_ok [OF mem] Let_def)
  moreover have "devnodes_wf (s\<lparr>alloc_no := i, devnodes := devnodes s @ [?n]\<rparr>)" for i
    using assms(1) new by (auto simp: devnodes_wf_def)
  moreover have "devnode_view (s\<lparr>alloc_no := i, devnodes := devnodes s @ [?n]\<rparr>) =
      registered dev (name, rproc) (devnode_view s)" for i
    using \<open>devnode_view s dev = None\<close>
    by (auto simp: devnode_view_def registered_def devnode_key_def fun_eq_iff map_add_def split: option.splits)
  ultimately show thesis by (rule that)
next
  case (Some node)
  then have "devnode_view s dev \<noteq> None" using devnode_view_None [OF assms(1)] by simp
  then have "registered dev (name, rproc) (devnode_view s) = devnode_view s" by (auto simp: registered_def)
  then show thesis
    using that [where k = "alloc_no s" and nodes = "devnodes s"] devnode_get_ok [OF assms(1), of dev] Some assms(1)
    by (simp add: devnode_add_def)
qed

lemma map_of_remove1_key:
  "distinct (map fst kvs) \<Longrightarrow> (k, v) \<in> set kvs \<Longrightarrow> map_of (remove1 (k, v) kvs) = (map_of kvs)(k := None)"
proof (induction kvs)
  case (Cons kv kvs)
  obtain a b where kv: "kv = (a, b)" by (cases kv)
  show ?case
  proof (cases "kv = (k, v)")
    case True
    then have "map_of kvs k = None" using Cons.prems(1) by (auto simp: map_of_eq_None_iff)
    with True show ?thesis by (auto simp: fun_eq_iff)
  next
    case False
    with Cons.prems have mem: "(k, v) \<in> set kvs" by auto
    then have "a \<noteq> k" using Cons.prems(1) kv by force
    with Cons.IH [OF _ mem] Cons.prems(1) False kv show ?thesis by (auto simp: fun_eq_iff)
  qed
qed simp

lemma map_remove1_inj: "inj_on f (set xs) \<Longrightarrow> x \<in> set xs \<Longrightarrow> map f (remove1 x xs) = remove1 (f x) (map f xs)"
proof (induction xs)
  case (Cons y ys)
  show ?case
  proof (cases "x = y")
    case False
    then have "f y \<noteq> f x" "x \<in> set ys" using Cons.prems by (auto dest: inj_onD)
    with Cons False show ?thesis by (auto simp: inj_on_def)
  qed simp
qed simp

lemma devnode_remove_ok:
  assumes "devnodes_wf s"
  obtains nodes where "devnode_remove dev s = Inr (s\<lparr>devnodes := nodes\<rparr>)" "devnodes_wf (s\<lparr>devnodes := nodes\<rparr>)"
    "devnode_view (s\<lparr>devnodes := nodes\<rparr>) = (devnode_view s)(dev := None)"
proof (cases "List.find (\<lambda>node. dn_devnode node = Some dev) (devnodes s)")
  case None
  then have "devnode_view s dev = None" using devnode_view_None [OF assms] by simp
  then have "(devnode_view s)(dev := None) = devnode_view s" by (auto simp: fun_eq_iff)
  then show thesis
    using that [of "devnodes s"] devnode_get_ok [OF assms, of dev] None assms by (simp add: devnode_remove_def)
next
  case (Some node)
  then have node: "node \<in> set (devnodes s)" "dn_devnode node = Some dev"
    by (auto simp: find_Some_iff)
  let ?nodes = "remove1 node (devnodes s)"
  have wf: "devnodes_wf (s\<lparr>devnodes := ?nodes\<rparr>)"
    using assms distinct_remove1 [of "map dn_devnode (devnodes s)" "dn_devnode node"]
    by (auto simp: devnodes_wf_def distinct_map dest: notin_set_remove1 intro: inj_on_diff)
  have inj: "inj_on devnode_key (set (devnodes s))"
    using assms by (auto simp: devnodes_wf_def devnode_key_def inj_on_def distinct_map) (metis option.sel)
  have keys: "distinct (map fst (map devnode_key (devnodes s)))"
    using assms by (auto simp: devnodes_wf_def devnode_key_def distinct_map inj_on_def) (metis option.sel)+
  have "devnode_view (s\<lparr>devnodes := ?nodes\<rparr>) = map_of (remove1 (devnode_key node) (map devnode_key (devnodes s)))"
    using map_remove1_inj [OF inj node(1)] by (simp add: devnode_view_def)
  also have "\<dots> = (devnode_view s)(dev := None)"
  proof -
    have key: "devnode_key node = (dev, snd (devnode_key node))" by (simp add: devnode_key_def node(2))
    have "(dev, snd (devnode_key node)) \<in> set (map devnode_key (devnodes s))"
      unfolding key [symmetric] using node(1) by simp
    from map_of_remove1_key [OF keys this] show ?thesis
      unfolding key [symmetric] by (simp add: devnode_view_def)
  qed
  finally show thesis
    using that [OF _ wf] devnode_get_ok [OF assms, of dev] Some by (simp add: devnode_remove_def)
qed


section \<open>One peripheral for each name\<close>

definition perif_name :: "'z cntl_state_scheme \<Rightarrow> perif_id \<Rightarrow> u8 list option" where
  "perif_name s p = (case perifs s p of Obj perif \<Rightarrow> p_name perif | _ \<Rightarrow> None)"

definition perif_names :: "'z cntl_state_scheme \<Rightarrow> u8 list list" where
  "perif_names s = map (\<lambda>p. the (perif_name s p)) (peripherals s)"

text \<open>Every peripheral on the list is an object with a name, and the next id is not in use.\<close>

definition perifs_named :: "'z cntl_state_scheme \<Rightarrow> bool" where
  "perifs_named s \<longleftrightarrow>
     perifs_wf s \<and> (\<forall>p \<in> set (peripherals s). p < next_perif s \<and> perif_name s p \<noteq> None)"

lemma find_named:
  assumes "perifs_named s"
  shows "find_res (perif_named rproc s) (peripherals s) =
    Inr (List.find (\<lambda>p. perif_name s p = Some rproc) (peripherals s))"
proof (rule find_res_find, rule ballI)
  fix p assume "p \<in> set (peripherals s)"
  with assms obtain perif n where "perifs s p = Obj perif" "p_name perif = Some n"
    by (fastforce simp: perifs_named_def perifs_wf_def perif_name_def)
  then show "perif_named rproc s p = Inr (perif_name s p = Some rproc)"
    by (simp add: perif_named_def perif_name_def str_eq_def)
qed

lemma find_named_None:
  assumes "perifs_named s"
  shows "List.find (\<lambda>p. perif_name s p = Some rproc) (peripherals s) = None \<longleftrightarrow> rproc \<notin> set (perif_names s)"
  using assms by (fastforce simp: find_None_iff perif_names_def perifs_named_def image_iff)

definition primary_channel :: "u8 list \<Rightarrow> bool" where
  "primary_channel channel \<longleftrightarrow> channel = chars ''DIAG'' \<or> channel = chars ''APPS_RIVA_DATA''"

definition new_perif :: "u8 list \<Rightarrow> flow_id \<Rightarrow> peripheral" where
  "new_perif rproc flow =
     \<lparr>p_name = Some rproc, p_features = 0, p_cntl_fd = -1, p_cntl_open = False, p_data_fd = -1,
      p_data_open = False, p_cmd_fd = -1, p_dci_cmd_fd = 0, p_flow = Some flow, p_diag_id = 0,
      p_sockets = False, p_recv_buf = circ_empty, p_recv_decoder = decoder_zero, p_ops = RpmsgOps\<rparr>"

text \<open>
  The first primary channel of a processor creates its peripheral and sets the timer that
  opens it; a channel of another kind, or of a processor that is known, changes nothing.
\<close>

lemma peripheral_create_known:
  "perifs_named s \<Longrightarrow> \<not> primary_channel channel \<or> rproc \<in> set (perif_names s) \<Longrightarrow>
   peripheral_create rproc channel s = Inr (0, s)"
  using find_named [of s rproc] find_named_None [of s rproc]
  by (auto simp: peripheral_create_def primary_channel_def)

lemma watch_flow_new_ok:
  "mem_ok s \<Longrightarrow> watch_flow_new s =
     (Some (next_flow s), s\<lparr>alloc_no := Suc (alloc_no s), flows := (flows s)(next_flow s := 0), next_flow := Suc (next_flow s)\<rparr>)"
  by (simp add: watch_flow_new_def malloc_ok)

lemma peripheral_create_new:
  assumes "perifs_named s" and "mem_ok s" and "primary_channel channel" and "rproc \<notin> set (perif_names s)"
  obtains k t where "peripheral_create rproc channel s =
    Inr (0, s\<lparr>alloc_no := k, flows := (flows s)(next_flow s := 0), next_flow := Suc (next_flow s),
      timers := timers s @ [t],
      queues := (queues s)(PerifCmdq (next_perif s) := [], PerifCntlq (next_perif s) := [], PerifDataq (next_perif s) := []),
      perifs := (perifs s)(next_perif s := Obj (new_perif rproc (next_flow s))), next_perif := Suc (next_perif s),
      peripherals := peripherals s @ [next_perif s]\<rparr>)"
    "t_cb t = TmPeripheralOpen (next_perif s)" "t_interval t = 1000" "\<not> t_repeat t"
proof -
  have find: "find_res (perif_named rproc s) (peripherals s) = Inr None"
    using find_named [OF assms(1), of rproc] find_named_None [OF assms(1), of rproc] assms(4) by simp
  show thesis
    by (rule that [where k = "Suc (Suc (Suc (Suc (alloc_no s))))" and
          t = "watch_set_timer \<lparr>t_addr = Suc (Suc (Suc (alloc_no s))), t_cb = TmPeripheralOpen (next_perif s),
                 t_interval = 1000, t_repeat = False, t_tick = (0, 0)\<rparr> s"])
      (use assms(2,3) find in \<open>auto simp: peripheral_create_def primary_channel_def watch_flow_new_def strdup_def
        watch_add_timer_def calloc_or_exit_def malloc_def Let_def new_perif_def watch_set_timer_def\<close>)
qed


section \<open>udev events on the registry and the peripherals\<close>

definition rpmsg_wf :: "'z rpmsg_state_scheme \<Rightarrow> bool" where
  "rpmsg_wf s \<longleftrightarrow> mem_ok s \<and> devnodes_wf s \<and> perifs_named s \<and> distinct (perif_names s)"

type_synonym udev_view = "(u8 list \<Rightarrow> (u8 list \<times> u8 list) option) \<times> u8 list list"

definition udev_view :: "'z rpmsg_state_scheme \<Rightarrow> udev_view" where
  "udev_view s = (devnode_view s, perif_names s)"

text \<open>What an event means: for the map of device nodes, and for the names of the peripherals.\<close>

definition udev_effect :: "udev_device \<Rightarrow> udev_view \<Rightarrow> udev_view" where
  "udev_effect dev = (\<lambda>(m, names).
     case ud_devnode dev of
       None \<Rightarrow> (m, names)
     | Some node \<Rightarrow>
         if ud_action dev = chars ''add'' then
           (case (ud_name dev, peripheral_udev_get_remoteproc (ud_parents dev)) of
              (Some name, Some rproc) \<Rightarrow>
                (registered node (name, rproc) m,
                 if primary_channel name \<and> rproc \<notin> set names then names @ [rproc] else names)
            | _ \<Rightarrow> (m, names))
         else if ud_action dev = chars ''remove'' then (m(node := None), names)
         else (m, names))"

lemma perif_names_frame [simp]:
  "perif_names (s\<lparr>alloc_no := k\<rparr>) = perif_names s" "perifs_named (s\<lparr>alloc_no := k\<rparr>) = perifs_named s"
  "perif_names (s\<lparr>alloc_no := k, devnodes := nodes\<rparr>) = perif_names s" "perif_names (s\<lparr>devnodes := nodes\<rparr>) = perif_names s"
  "perifs_named (s\<lparr>alloc_no := k, devnodes := nodes\<rparr>) = perifs_named s" "perifs_named (s\<lparr>devnodes := nodes\<rparr>) = perifs_named s"
  by (simp_all add: perif_names_def perif_name_def perifs_named_def perifs_wf_def)

lemma peripheral_create_view:
  assumes "rpmsg_wf s"
  shows "\<exists>s'. peripheral_create rproc channel s = Inr (0, s') \<and> rpmsg_wf s' \<and>
    udev_view s' = (devnode_view s,
      if primary_channel channel \<and> rproc \<notin> set (perif_names s) then perif_names s @ [rproc] else perif_names s)"
proof (cases "primary_channel channel \<and> rproc \<notin> set (perif_names s)")
  case False
  with assms show ?thesis
    using peripheral_create_known [of s channel rproc] by (auto simp: rpmsg_wf_def udev_view_def)
next
  case True
  from assms have wf: "perifs_named s" "mem_ok s" by (simp_all add: rpmsg_wf_def)
  obtain k t where new: "peripheral_create rproc channel s =
    Inr (0, s\<lparr>alloc_no := k, flows := (flows s)(next_flow s := 0), next_flow := Suc (next_flow s),
      timers := timers s @ [t],
      queues := (queues s)(PerifCmdq (next_perif s) := [], PerifCntlq (next_perif s) := [], PerifDataq (next_perif s) := []),
      perifs := (perifs s)(next_perif s := Obj (new_perif rproc (next_flow s))), next_perif := Suc (next_perif s),
      peripherals := peripherals s @ [next_perif s]\<rparr>)" (is "_ = Inr (0, ?s)")
    by (rule peripheral_create_new [OF wf]) (use True in auto)
  have fresh: "next_perif s \<notin> set (peripherals s)" using wf(1) by (auto simp: perifs_named_def)
  have same: "perif_name ?s p = perif_name s p" if "p \<in> set (peripherals s)" for p
    using that fresh by (auto simp: perif_name_def)
  have last: "perif_name ?s (next_perif s) = Some rproc" by (simp add: perif_name_def new_perif_def)
  have names: "perif_names ?s = perif_names s @ [rproc]"
    using same last by (simp add: perif_names_def)
  moreover have "perifs_named ?s"
    using wf(1) fresh same last
    by (auto simp: perifs_named_def perifs_wf_def less_Suc_eq)
  moreover have "devnodes_wf ?s" "devnode_view ?s = devnode_view s" "mem_ok ?s"
    using assms by (simp_all add: rpmsg_wf_def devnodes_wf_def devnode_view_def mem_ok_def)
  ultimately show ?thesis
    using new True assms by (auto simp: rpmsg_wf_def udev_view_def)
qed

lemma udev_add_view:
  assumes "rpmsg_wf s"
  shows "\<exists>s'. udev_add dev name rproc s = Inr s' \<and> rpmsg_wf s' \<and>
    udev_view s' = (registered dev (name, rproc) (devnode_view s),
      if primary_channel name \<and> rproc \<notin> set (perif_names s) then perif_names s @ [rproc] else perif_names s)"
proof -
  from assms have wf: "devnodes_wf s" "mem_ok s" by (simp_all add: rpmsg_wf_def)
  obtain k nodes where add: "devnode_add dev name rproc s = Inr (s\<lparr>alloc_no := k, devnodes := nodes\<rparr>)"
    "devnodes_wf (s\<lparr>alloc_no := k, devnodes := nodes\<rparr>)"
    "devnode_view (s\<lparr>alloc_no := k, devnodes := nodes\<rparr>) = registered dev (name, rproc) (devnode_view s)"
    by (rule devnode_add_ok [OF wf, of dev name rproc])
  have "rpmsg_wf (s\<lparr>alloc_no := k, devnodes := nodes\<rparr>)"
    using assms add(2) by (simp add: rpmsg_wf_def mem_ok_def)
  from peripheral_create_view [OF this, of rproc name] add(1,3) show ?thesis
    by (auto simp: udev_add_def)
qed

lemma udev_update_view:
  assumes "rpmsg_wf s"
  shows "\<exists>s'. peripheral_udev_update (Some dev) s = Inr (0, s') \<and> rpmsg_wf s' \<and>
    udev_view s' = udev_effect dev (udev_view s)"
proof -
  have rm: "\<exists>s'. devnode_remove node s = Inr s' \<and> rpmsg_wf s' \<and> udev_view s' = ((devnode_view s)(node := None), perif_names s)"
    for node
  proof -
    from assms have "devnodes_wf s" by (simp add: rpmsg_wf_def)
    then obtain nodes where "devnode_remove node s = Inr (s\<lparr>devnodes := nodes\<rparr>)" "devnodes_wf (s\<lparr>devnodes := nodes\<rparr>)"
      "devnode_view (s\<lparr>devnodes := nodes\<rparr>) = (devnode_view s)(node := None)"
      by (rule devnode_remove_ok [where dev = node])
    with assms show ?thesis by (auto simp: rpmsg_wf_def udev_view_def mem_ok_def)
  qed
  show ?thesis
  proof (cases "ud_devnode dev")
    case None
    with assms show ?thesis by (simp add: peripheral_udev_update_def udev_effect_def split: prod.split)
  next
    case (Some node)
    consider "ud_action dev = chars ''add''" | "ud_action dev \<noteq> chars ''add''" "ud_action dev = chars ''remove''"
      | "ud_action dev \<noteq> chars ''add''" "ud_action dev \<noteq> chars ''remove''" by blast
    then show ?thesis
    proof cases
      case 1
      show ?thesis
      proof (cases "(ud_name dev, peripheral_udev_get_remoteproc (ud_parents dev))")
        case (Pair n r)
        then show ?thesis
          using Some 1 assms udev_add_view [OF assms, of node "the n" "the r"]
          by (cases n; cases r)
            (auto simp: peripheral_udev_update_def udev_effect_def peripheral_udev_get_name_def udev_view_def)
      qed
    next
      case 2
      with Some rm [of node] show ?thesis
        by (auto simp: peripheral_udev_update_def udev_effect_def udev_view_def)
    next
      case 3
      with Some assms show ?thesis by (simp add: peripheral_udev_update_def udev_effect_def udev_view_def)
    qed
  qed
qed

definition udev_step :: "udev_device \<Rightarrow> 'z rpmsg_state_scheme \<Rightarrow> 'z rpmsg_state_scheme res" where
  "udev_step dev s = andthen (peripheral_udev_update (Some dev) s) (\<lambda>(_, s). Inr s)"

lemma udev_events_view:
  "rpmsg_wf s \<Longrightarrow> \<exists>s'. fold_res udev_step devs s = Inr s' \<and> rpmsg_wf s' \<and>
     udev_view s' = fold udev_effect devs (udev_view s)"
proof (induction devs arbitrary: s)
  case (Cons dev devs)
  from udev_update_view [OF Cons.prems, of dev] obtain s1 where
    "udev_step dev s = Inr s1" "rpmsg_wf s1" "udev_view s1 = udev_effect dev (udev_view s)"
    by (auto simp: udev_step_def)
  with Cons.IH [of s1] show ?case by auto
qed simp

section \<open>A peripheral that cannot be opened\<close>

lemma devnode_open_None:
  assumes "devnodes_wf s" and "\<forall>node \<in> set (devnodes s). \<not> (dn_rproc node = Some rproc \<and> dn_name node = Some name)"
  shows "devnode_open opn (Some rproc) name s = Inr (-1)"
proof -
  have "find_res (\<lambda>node. andthen (str_eq (dn_rproc node) (Some rproc)) (\<lambda>b.
      if b then str_eq (dn_name node) (Some name) else Inr False)) (devnodes s) =
      Inr (List.find (\<lambda>node. dn_rproc node = Some rproc \<and> dn_name node = Some name) (devnodes s))"
    by (rule find_res_find) (use assms(1) in \<open>auto simp: devnodes_wf_def str_eq_def\<close>)
  moreover have "List.find (\<lambda>node. dn_rproc node = Some rproc \<and> dn_name node = Some name) (devnodes s) = None"
    using assms(2) by (auto simp: find_None_iff)
  ultimately show ?thesis by (simp add: devnode_open_def)
qed

lemma devnode_open_returns:
  assumes "devnodes_wf s"
  shows "\<exists>fd. devnode_open opn (Some rproc) name s = Inr fd"
proof -
  have "find_res (\<lambda>node. andthen (str_eq (dn_rproc node) (Some rproc)) (\<lambda>b.
      if b then str_eq (dn_name node) (Some name) else Inr False)) (devnodes s) =
      Inr (List.find (\<lambda>node. dn_rproc node = Some rproc \<and> dn_name node = Some name) (devnodes s))"
    by (rule find_res_find) (use assms(1) in \<open>auto simp: devnodes_wf_def str_eq_def\<close>)
  then show ?thesis by (simp add: devnode_open_def split: option.split)
qed

text \<open>
  Without a control channel nothing is watched and no timer is set, and every later event of
  the processor finds it known.
\<close>

lemma unopened_stays:
  assumes wf: "rpmsg_wf s" and p: "p \<in> set (peripherals s)" "perif_name s p = Some rproc"
    and none: "\<forall>node \<in> set (devnodes s). \<not> (dn_rproc node = Some rproc \<and>
      dn_name node \<in> {Some (chars ''DIAG_CNTL''), Some (chars ''APPS_RIVA_CTRL'')})"
  shows "\<exists>s'. peripheral_open opn p s = Inr s' \<and> timers s' = timers s \<and> read_watches s' = read_watches s \<and>
    aio_watches s' = aio_watches s \<and> peripherals s' = peripherals s \<and>
    (\<forall>channel. peripheral_create rproc channel s' = Inr (0, s'))"
proof -
  from wf p obtain perif where perif: "perifs s p = Obj perif" "p_name perif = Some rproc"
    by (fastforce simp: rpmsg_wf_def perifs_named_def perifs_wf_def perif_name_def)
  have dn: "devnodes_wf s" using wf by (simp add: rpmsg_wf_def)
  have cntl: "open_channel opn (Some rproc) (chars ''DIAG_CNTL'') (chars ''APPS_RIVA_CTRL'') s = Inr (-1)"
    using devnode_open_None [OF dn, of rproc "chars ''DIAG_CNTL''" opn]
      devnode_open_None [OF dn, of rproc "chars ''APPS_RIVA_CTRL''" opn] none
    by (auto simp: open_channel_def)
  obtain fd1 fd2 where "devnode_open opn (Some rproc) (chars ''DIAG'') s = Inr fd1"
    "devnode_open opn (Some rproc) (chars ''APPS_RIVA_DATA'') s = Inr fd2"
    using devnode_open_returns [OF dn, of opn rproc] by metis
  then obtain fd where fd: "open_channel opn (Some rproc) (chars ''DIAG'') (chars ''APPS_RIVA_DATA'') s = Inr fd"
    by (cases "fd1 < 0") (auto simp: open_channel_def)
  let ?s = "if fd < 0 then s else set_perif p (perif\<lparr>p_data_fd := -1\<rparr>) s"
  have "peripheral_open opn p s = Inr ?s" using perif fd cntl by (simp add: peripheral_open_def)
  moreover have "peripherals ?s = peripherals s" "perif_name ?s = perif_name s" "next_perif ?s = next_perif s"
    "timers ?s = timers s" "read_watches ?s = read_watches s" "aio_watches ?s = aio_watches s"
    using perif by (auto simp: set_perif_def perif_name_def)
  moreover from this have "perifs_named ?s" "perif_names ?s = perif_names s"
    using wf perif by (auto simp: rpmsg_wf_def perifs_named_def perifs_wf_def perif_names_def set_perif_def)
  moreover have "rproc \<in> set (perif_names s)" using p by (force simp: perif_names_def)
  ultimately show ?thesis using peripheral_create_known [of ?s] by auto
qed

end
