(* ===== verification/Qrtr.thy ===== *)
theory Qrtr
  imports Rpmsg
begin

text \<open>
  Peripherals on QRTR sockets (\<^verbatim>\<open>peripheral-qrtr.c\<close>): seven of them, made at start up, each with
  a socket for its control, command and data channel. What a socket receives, what libqrtr's
  \<^verbatim>\<open>qrtr_decode\<close> makes of it, and what \<^verbatim>\<open>connect\<close> and \<^verbatim>\<open>qrtr_open\<close> return are arguments.
\<close>

section \<open>Packets\<close>

datatype qrtr_type = QrtrData | QrtrBye | QrtrNewServer | QrtrDelServer | QrtrDelClient | QrtrOther nat

text \<open>The data of a packet are \<open>qp_len\<close> bytes at offset \<open>qp_data\<close> of the buffer.\<close>

record qrtr_packet =
  qp_type :: qrtr_type
  qp_node :: u32
  qp_port :: u32
  qp_data :: nat
  qp_len :: nat

datatype recv_event = Recv "u8 list" | RecvFail int

type_synonym qrtr_decode = "u8 list \<Rightarrow> int + qrtr_packet"

text \<open>The calls to libqrtr that make services known.\<close>

datatype qrtr_call = Publish int nat nat | NewLookup int nat nat

record qrtr_state = rpmsg_state +
  qrtr_calls :: "qrtr_call list"

section \<open>The control channel\<close>

definition qrtr_cntl_recv ::
    "qrtr_decode \<Rightarrow> perif_id \<Rightarrow> recv_event \<Rightarrow> 'z cntl_state_scheme \<Rightarrow> (int \<times> 'z cntl_state_scheme) res" where
  "qrtr_cntl_recv decode p ev s =
     (let stale = indet s (alloc_no s); (_, s) = alloca CNTL_BUF_SIZE s in
      case ev of
        RecvFail e \<Rightarrow> Inr (- e, s)
      | Recv bs \<Rightarrow>
          (case decode bs of
             Inl ret \<Rightarrow> Inr (ret, s)
           | Inr pkt \<Rightarrow>
               andthen (deref (perifs s p)) (\<lambda>perif.
               case qp_type pkt of
                 QrtrData \<Rightarrow>
                   andthen (if \<not> p_cntl_open perif
                            then watch_add_writeq (p_cntl_fd perif) (PerifCntlq p)
                                   (set_perif p (perif\<lparr>p_cntl_open := True\<rparr>) s)
                            else Inr s)
                     (diag_cntl_recv p (mem_drop (qp_data pkt) (mem_msg bs CNTL_BUF_SIZE stale)) (qp_len pkt))
               | QrtrBye \<Rightarrow>
                   Inr (0, set_perif p (perif\<lparr>p_cntl_open := False\<rparr>) (watch_remove_writeq (p_cntl_fd perif) s))
               | _ \<Rightarrow> Inr (0, s))))"

section \<open>The command channel\<close>

text \<open>The packet is received into the array of the peripheral's ring.\<close>

definition qrtr_cmd_recv ::
    "qrtr_decode \<Rightarrow> bool \<Rightarrow> perif_id \<Rightarrow> recv_event \<Rightarrow> 'z cntl_state_scheme \<Rightarrow> (int \<times> 'z cntl_state_scheme) res" where
  "qrtr_cmd_recv decode connected p ev s =
     andthen (deref (perifs s p)) (\<lambda>perif.
     case ev of
       RecvFail e \<Rightarrow> Inr (- e, s)
     | Recv bs \<Rightarrow>
         let m = mem_msg bs HDLC_BUF_SIZE (buf (p_recv_buf perif));
             s = set_perif p (perif\<lparr>p_recv_buf := (p_recv_buf perif)\<lparr>buf := byte m\<rparr>\<rparr>) s
         in (case decode bs of
               Inl ret \<Rightarrow> Inr (ret, s)
             | Inr pkt \<Rightarrow>
                 (case qp_type pkt of
                    QrtrData \<Rightarrow>
                      andthen (non_hdlc_recv (mem_drop (qp_data pkt) m) (of_nat (qp_len pkt)) None s) (\<lambda>s. Inr (0, s))
                  | QrtrNewServer \<Rightarrow>
                      if qp_node pkt = 0 \<and> qp_port pkt = 0 then Inr (0, s)
                      else if \<not> connected then Inl Exited
                      else andthen (watch_add_writeq (p_cmd_fd perif) (PerifCmdq p) s) (\<lambda>s. Inr (0, s))
                  | QrtrDelServer \<Rightarrow> Inr (0, watch_remove_writeq (p_cmd_fd perif) s)
                  | _ \<Rightarrow> Inr (0, s))))"

section \<open>The data channel\<close>

definition qrtr_data_recv ::
    "qrtr_decode \<Rightarrow> perif_id \<Rightarrow> recv_event \<Rightarrow> 'z cntl_state_scheme \<Rightarrow> (int \<times> 'z cntl_state_scheme) res" where
  "qrtr_data_recv decode p ev s =
     (let stale = indet s (alloc_no s); (_, s) = alloca CNTL_BUF_SIZE s in
      case ev of
        RecvFail e \<Rightarrow> Inr (- e, s)
      | Recv bs \<Rightarrow>
          (case decode bs of
             Inl ret \<Rightarrow> Inr (ret, s)
           | Inr pkt \<Rightarrow>
               andthen (deref (perifs s p)) (\<lambda>perif.
               case qp_type pkt of
                 QrtrData \<Rightarrow>
                   andthen (if \<not> p_data_open perif
                            then watch_add_writeq (p_data_fd perif) (PerifDataq p)
                                   (set_perif p (perif\<lparr>p_data_open := True\<rparr>) s)
                            else Inr s) (\<lambda>s.
                   andthen (non_hdlc_recv (mem_drop (qp_data pkt) (mem_msg bs CNTL_BUF_SIZE stale))
                              (of_nat (qp_len pkt)) (p_flow perif) s) (\<lambda>s. Inr (0, s)))
               | QrtrBye \<Rightarrow>
                   Inr (0, set_perif p (perif\<lparr>p_data_open := False\<rparr>) (watch_remove_writeq (p_data_fd perif) s))
               | _ \<Rightarrow> Inr (0, s))))"

section \<open>Start up\<close>

definition DIAG_SERVICE_ID :: nat where "DIAG_SERVICE_ID = 4097"

definition INSTANCE_CNTL :: nat where "INSTANCE_CNTL = 0"
definition INSTANCE_CMD :: nat where "INSTANCE_CMD = 1"
definition INSTANCE_DATA :: nat where "INSTANCE_DATA = 2"
definition INSTANCE_DCI :: nat where "INSTANCE_DCI = 4"

lemmas instance_defs = INSTANCE_CNTL_def INSTANCE_CMD_def INSTANCE_DATA_def INSTANCE_DCI_def

text \<open>\<open>opn\<close> gives the result of each \<^verbatim>\<open>qrtr_open\<close> of the subsystem.\<close>

definition qrtr_perif_init_subsystem ::
    "(nat \<Rightarrow> int) \<Rightarrow> u8 list \<Rightarrow> nat \<Rightarrow> 'z qrtr_state_scheme \<Rightarrow> (int \<times> 'z qrtr_state_scheme) res" where
  "qrtr_perif_init_subsystem opn name base s =
     (case malloc PERIPHERAL_SIZE s of
        (None, _) \<Rightarrow> Inl NullDeref
      | (Some _, s) \<Rightarrow>
          let (flow, s) = watch_flow_new s; (name, s) = strdup name s; p = next_perif s;
              cntl = opn 0; data = opn 1; cmd = opn 2; dci = opn 3 in
          if cntl < 0 \<or> data < 0 \<or> cmd < 0 \<or> dci < 0 then Inl Exited
          else
            let perif = \<lparr>p_name = name, p_features = 0, p_cntl_fd = cntl, p_cntl_open = False, p_data_fd = data,
                         p_data_open = False, p_cmd_fd = cmd, p_dci_cmd_fd = dci, p_flow = flow, p_diag_id = 0,
                         p_sockets = True, p_recv_buf = circ_empty, p_recv_decoder = decoder_zero,
                         p_ops = QrtrOps\<rparr>;
                s = s\<lparr>queues := (queues s)(PerifCmdq p := [], PerifCntlq p := [], PerifDataq p := []),
                      perifs := (perifs s)(p := Obj perif), next_perif := Suc p,
                      qrtr_calls := qrtr_calls s @
                        [Publish cntl DIAG_SERVICE_ID (base + INSTANCE_CNTL),
                         NewLookup cmd DIAG_SERVICE_ID (base + INSTANCE_CMD),
                         Publish data DIAG_SERVICE_ID (base + INSTANCE_DATA),
                         Publish dci DIAG_SERVICE_ID (base + INSTANCE_DCI)]\<rparr>
            in andthen (watch_add_readfd cntl (CbQrtrCntl p) None s) (\<lambda>s.
               andthen (watch_add_readfd cmd (CbQrtrCmd p) None s) (\<lambda>s.
               andthen (watch_add_readfd data (CbQrtrData p) flow s) (\<lambda>s.
                 Inr (0, s\<lparr>peripherals := peripherals s @ [p]\<rparr>)))))"

definition qrtr_subsystems :: "(u8 list \<times> nat) list" where
  "qrtr_subsystems =
     [(chars ''modem'', 0), (chars ''lpass'', 64), (chars ''wcnss'', 128), (chars ''sensors'', 192),
      (chars ''cdsp'', 256), (chars ''wdsp'', 320), (chars ''soccp'', 832)]"

definition peripheral_qrtr_init ::
    "(nat \<Rightarrow> nat \<Rightarrow> int) \<Rightarrow> 'z qrtr_state_scheme \<Rightarrow> (int \<times> 'z qrtr_state_scheme) res" where
  "peripheral_qrtr_init opn s =
     andthen (fold_res (\<lambda>(i, name, base) s.
         andthen (qrtr_perif_init_subsystem (opn i) name base s) (\<lambda>(_, s). Inr s))
       (zip [0..<length qrtr_subsystems] qrtr_subsystems) s) (\<lambda>s. Inr (0, s))"

section \<open>One write watch for the data channel\<close>

text \<open>
  The data channel is marked open exactly while one watch writes its queue, whatever is
  received and in whatever order.
\<close>

definition data_watch_inv :: "perif_id \<Rightarrow> 'z cntl_state_scheme \<Rightarrow> bool" where
  "data_watch_inv p s \<longleftrightarrow>
     dm_wf s \<and> (\<exists>perif. perifs s p = Obj perif \<and>
       map w_queue (filter (\<lambda>w. w_fd w = p_data_fd perif) (aio_watches s)) =
         (if p_data_open perif then [Some (PerifDataq p)] else []))"

lemma non_hdlc_recv_queued:
  assumes "dm_wf s" and "non_hdlc_recv m len flow s = Inr s'"
  shows "dm_wf s' \<and> queued s s'"
proof -
  have *: "dm_wf s' \<and> queued s s'" if "broadcast_from m' n flow s = Inr s'" for m' n
  proof (cases "list_ex cl_enabled (clients s)")
    case True
    with that obtain msg where "dm_broadcast msg flow s = Inr s'" by (auto simp: broadcast_from_def andthen_eq_Inr)
    moreover obtain s1 where "dm_broadcast msg flow s = Inr s1" "dm_wf s1" "queued s s1"
      by (rule dm_broadcast_queued [OF assms(1), where msg = msg and flow = flow]) blast
    ultimately show ?thesis by simp
  next
    case False
    with that assms(1) show ?thesis by (simp add: broadcast_from_def)
  qed
  show ?thesis
    using assms(2) * assms(1) by (auto simp: non_hdlc_recv_def andthen_eq_Inr split: if_splits)
qed

lemma data_watch_queued: "queued s s' \<Longrightarrow> dm_wf s' \<Longrightarrow> data_watch_inv p s \<Longrightarrow> data_watch_inv p s'"
  using queued_watches [of s s'] queued_cntl [of s s'] by (auto simp: data_watch_inv_def)

lemma qrtr_data_recv_inv:
  assumes inv: "data_watch_inv p s" and ret: "qrtr_data_recv decode p ev s = Inr (ret, s')"
  shows "data_watch_inv p s'"
proof -
  obtain perif where perif: "perifs s p = Obj perif" using inv by (auto simp: data_watch_inv_def)
  let ?s = "s\<lparr>alloc_no := Suc (alloc_no s)\<rparr>"
  have inv1: "data_watch_inv p ?s"
    using inv by (auto simp: data_watch_inv_def dm_wf_def)
  show ?thesis
  proof (cases ev)
    case (RecvFail e)
    with ret inv1 show ?thesis by (simp add: qrtr_data_recv_def alloca_def)
  next
    case (Recv bs)
    show ?thesis
    proof (cases "decode bs")
      case (Inl r)
      with ret inv1 Recv show ?thesis by (simp add: qrtr_data_recv_def alloca_def)
    next
      case (Inr pkt)
      consider "qp_type pkt = QrtrData" | "qp_type pkt = QrtrBye" | "qp_type pkt \<notin> {QrtrData, QrtrBye}" by auto
      then show ?thesis
      proof cases
        case 1
        obtain s1 where s1: "(if \<not> p_data_open perif
            then watch_add_writeq (p_data_fd perif) (PerifDataq p) (set_perif p (perif\<lparr>p_data_open := True\<rparr>) ?s)
            else Inr ?s) = Inr s1"
          "non_hdlc_recv (mem_drop (qp_data pkt) (mem_msg bs CNTL_BUF_SIZE (indet s (alloc_no s)))) (of_nat (qp_len pkt))
            (p_flow perif) s1 = Inr s'"
          using ret Recv Inr 1 perif by (auto simp: qrtr_data_recv_def alloca_def andthen_eq_Inr)
        have "data_watch_inv p s1"
          using s1(1) inv1 perif
          by (auto simp: data_watch_inv_def watch_add_writeq_def andthen_eq_Inr calloc_or_exit_def malloc_def
              set_perif_def dm_wf_def mem_ok_def watch_zero_def split: if_splits)
        moreover from this have "dm_wf s1" by (simp add: data_watch_inv_def)
        ultimately show ?thesis using non_hdlc_recv_queued [OF _ s1(2)] data_watch_queued by blast
      next
        case 2
        then show ?thesis
          using ret Recv Inr perif inv1
          by (auto simp: qrtr_data_recv_def alloca_def data_watch_inv_def set_perif_def watch_remove_writeq_def
              dm_wf_def mem_ok_def filter_empty_conv)
      next
        case 3
        then show ?thesis
          using ret Recv Inr perif inv1 by (auto simp: qrtr_data_recv_def alloca_def split: qrtr_type.splits)
      qed
    qed
  qed
qed

text \<open>Any number of packets, as the event loop delivers them.\<close>

fun qrtr_data_recvs :: "qrtr_decode \<Rightarrow> perif_id \<Rightarrow> recv_event list \<Rightarrow> 'z cntl_state_scheme \<Rightarrow> 'z cntl_state_scheme res" where
  "qrtr_data_recvs decode p [] s = Inr s"
| "qrtr_data_recvs decode p (ev # evs) s =
     andthen (qrtr_data_recv decode p ev s) (\<lambda>(_, s). qrtr_data_recvs decode p evs s)"

lemma qrtr_data_recvs_inv:
  "data_watch_inv p s \<Longrightarrow> qrtr_data_recvs decode p evs s = Inr s' \<Longrightarrow> data_watch_inv p s'"
proof (induction evs arbitrary: s)
  case (Cons ev evs)
  then obtain r s1 where "qrtr_data_recv decode p ev s = Inr (r, s1)" "qrtr_data_recvs decode p evs s1 = Inr s'"
    by (auto simp: andthen_eq_Inr)
  with Cons qrtr_data_recv_inv show ?case by blast
qed simp

end
