(* ===== verification/Transports.thy ===== *)
theory Transports
  imports Qrtr "HOL-Library.Multiset"
begin

text \<open>
  The transports over which clients reach the router: a UNIX socket that accepts any number of
  them (\<^verbatim>\<open>unix.c\<close>), a TCP connection (\<^verbatim>\<open>socket.c\<close>), a UART (\<^verbatim>\<open>uart.c\<close>), and a USB gadget through
  FunctionFS (\<^verbatim>\<open>usb.c\<close>). The results of the system calls are arguments.
\<close>

section \<open>UNIX sockets\<close>

definition unix_listen ::
    "int \<Rightarrow> int \<Rightarrow> 'z dm_state_scheme \<Rightarrow> (int \<times> 'z dm_state_scheme) res" where
  "unix_listen client nonblock s =
     (if client < 0 then Inr (0, s)
      else if nonblock < 0 then Inr (0, s)
      else andthen (dm_add ''UNIX'' client client False s) (\<lambda>(dm, s). Inr (0, dm_enable dm s)))"

definition diag_unix_open ::
    "int \<Rightarrow> int \<Rightarrow> int \<Rightarrow> 'z watch_state_scheme \<Rightarrow> (int \<times> 'z watch_state_scheme) res" where
  "diag_unix_open fd bound listening s =
     (if fd < 0 then Inr (-1, s)
      else if bound < 0 then Inr (-1, s)
      else if listening < 0 then Inr (-1, s)
      else andthen (watch_add_readfd fd CbUnixListen None s) (\<lambda>s. Inr (0, s)))"

section \<open>TCP\<close>

text \<open>A call that failed left \<^verbatim>\<open>errno\<close>, one that did not its result.\<close>

type_synonym sysres = "int + int"

text \<open>
  \<^verbatim>\<open>gethostbyname\<close> reports its failures in another variable: \<open>Inl e\<close> has whatever \<^verbatim>\<open>errno\<close> was
  before, which can be zero.
\<close>

definition diag_sock_connect ::
    "sysres \<Rightarrow> int + unit \<Rightarrow> sysres \<Rightarrow> sysres \<Rightarrow> 'z dm_state_scheme \<Rightarrow> (int \<times> 'z dm_state_scheme) res" where
  "diag_sock_connect sock host conn nonblock s =
     (case sock of Inl e \<Rightarrow> Inr (- e, s) | Inr fd \<Rightarrow>
     (case host of Inl e \<Rightarrow> Inr (- e, s) | Inr _ \<Rightarrow>
     (case conn of Inl e \<Rightarrow> Inr (- e, s) | Inr _ \<Rightarrow>
     (case nonblock of Inl e \<Rightarrow> Inr (- e, s) | Inr _ \<Rightarrow>
        andthen (dm_add ''DIAG CLIENT'' fd fd True s) (\<lambda>(dm, s). Inr (fd, dm_enable dm s))))))"

section \<open>UART\<close>

definition B9600 :: u32 where "B9600 = 13"
definition B19200 :: u32 where "B19200 = 14"
definition B38400 :: u32 where "B38400 = 15"
definition B115200 :: u32 where "B115200 = 0x1002"

definition check_baudrate :: "u32 \<Rightarrow> u32" where
  "check_baudrate baudrate =
     (if baudrate = 9600 then B9600
      else if baudrate = 19200 then B19200
      else if baudrate = 38400 then B38400
      else if baudrate = 115200 then B115200
      else 0)"

record termios =
  c_iflag :: u32
  c_oflag :: u32
  c_cflag :: u32
  c_lflag :: u32
  c_vtime :: u8
  c_vmin :: u8

definition CSIZE :: u32 where "CSIZE = 0x30"
definition CS8 :: u32 where "CS8 = 0x30"
definition CSTOPB :: u32 where "CSTOPB = 0x40"
definition CREAD :: u32 where "CREAD = 0x80"
definition PARENB :: u32 where "PARENB = 0x100"
definition CLOCAL :: u32 where "CLOCAL = 0x800"
definition CBAUD :: u32 where "CBAUD = 0x100f"

unbundle bit_operations_syntax

definition uart_options :: "u32 \<Rightarrow> termios \<Rightarrow> termios" where
  "uart_options baudrate options =
     (let cflag = c_cflag options AND NOT PARENB;
          cflag = cflag AND NOT CSTOPB;
          cflag = cflag AND NOT CSIZE;
          cflag = cflag OR (CS8 OR CLOCAL OR CREAD)
      in options\<lparr>c_vtime := 0, c_vmin := 4, c_iflag := 0, c_oflag := 0, c_lflag := 0,
                 c_cflag := (cflag AND NOT CBAUD) OR (baudrate AND CBAUD)\<rparr>)"

text \<open>The result has the options that were set, if the device got that far.\<close>

definition diag_uart_open ::
    "u32 \<Rightarrow> sysres \<Rightarrow> sysres \<Rightarrow> sysres \<Rightarrow> int + termios \<Rightarrow> sysres \<Rightarrow> 'z dm_state_scheme \<Rightarrow>
     (int \<times> termios option \<times> 'z dm_state_scheme) res" where
  "diag_uart_open baudrate opened flushed blocking saved tcset s =
     (let baudrate = check_baudrate baudrate in
      if baudrate = 0 then Inr (- EINVAL, None, s)
      else (case opened of Inl e \<Rightarrow> Inr (- e, None, s) | Inr fd \<Rightarrow>
           (case flushed of Inl e \<Rightarrow> Inr (- e, None, s) | Inr _ \<Rightarrow>
           (case blocking of Inl e \<Rightarrow> Inr (- e, None, s) | Inr _ \<Rightarrow>
           (case saved of Inl e \<Rightarrow> Inr (- e, None, s) | Inr options \<Rightarrow>
           (case tcset of Inl e \<Rightarrow> Inr (- e, Some (uart_options baudrate options), s) | Inr _ \<Rightarrow>
              andthen (dm_add ''UART client'' fd fd True s) (\<lambda>(dm, s).
                Inr (fd, Some (uart_options baudrate options), dm_enable dm s))))))))"

section \<open>The USB gadget\<close>

record usb_handle =
  usb_ep0 :: int
  usb_bulk_out :: int
  usb_bulk_in :: int
  usb_dm :: "client_id option"

record usb_state = qrtr_state +
  usb_handles :: "usb_handle list"

text \<open>
  Opening the endpoints: the results of the calls in their order. The answer has the return
  code, the handle, and the descriptors that were opened and closed.
\<close>

record ffs_calls =
  ffs_dir :: int
  ffs_ep0 :: int
  ffs_descriptors :: int
  ffs_strings :: int
  ffs_out :: int
  ffs_in :: int

record ffs_result =
  ffs_ret :: int
  ffs_handle :: usb_handle
  ffs_opened :: "int list"
  ffs_closed :: "int list"

definition ffs_diag_init :: "ffs_calls \<Rightarrow> usb_handle \<Rightarrow> ffs_result" where
  "ffs_diag_init calls h =
     (let fd = ffs_dir calls in
      if fd < 0 then \<lparr>ffs_ret = fd, ffs_handle = h, ffs_opened = [], ffs_closed = []\<rparr>
      else let ep0 = ffs_ep0 calls in
      if ep0 < 0 then \<lparr>ffs_ret = ep0, ffs_handle = h, ffs_opened = [fd], ffs_closed = [fd]\<rparr>
      else let h = h\<lparr>usb_ep0 := ep0\<rparr> in
      if ffs_descriptors calls < 0 then
        \<lparr>ffs_ret = ffs_descriptors calls, ffs_handle = h, ffs_opened = [fd, ep0], ffs_closed = [ep0, fd]\<rparr>
      else if ffs_strings calls < 0 then
        \<lparr>ffs_ret = ffs_strings calls, ffs_handle = h, ffs_opened = [fd, ep0], ffs_closed = [ep0, fd]\<rparr>
      else let bout = ffs_out calls in
      if bout < 0 then \<lparr>ffs_ret = bout, ffs_handle = h, ffs_opened = [fd, ep0], ffs_closed = [ep0, fd]\<rparr>
      else let h = h\<lparr>usb_bulk_out := bout\<rparr>; bin = ffs_in calls in
      if bin < 0 then
        \<lparr>ffs_ret = bin, ffs_handle = h, ffs_opened = [fd, ep0, bout], ffs_closed = [bout, ep0, fd]\<rparr>
      else
        \<lparr>ffs_ret = 0, ffs_handle = h\<lparr>usb_bulk_in := bin\<rparr>, ffs_opened = [fd, ep0, bout, bin], ffs_closed = [fd]\<rparr>)"

definition USB_HANDLE_SIZE :: nat where "USB_HANDLE_SIZE = 40"
definition USB_BUF_SIZE :: nat where "USB_BUF_SIZE = 16384"

text \<open>A handle is known by its number; the receive queue of a new one holds one buffer.\<close>

definition diag_usb_open :: "ffs_calls \<Rightarrow> 'z usb_state_scheme \<Rightarrow> (int \<times> 'z usb_state_scheme) res" where
  "diag_usb_open calls s =
     andthen (calloc_or_exit USB_HANDLE_SIZE s) (\<lambda>s.
     case mbuf_alloc USB_BUF_SIZE s of
       (None, _) \<Rightarrow> Inl Exited
     | (Some out_buf, s) \<Rightarrow>
         let r = ffs_diag_init calls \<lparr>usb_ep0 = 0, usb_bulk_out = 0, usb_bulk_in = 0, usb_dm = None\<rparr> in
         if ffs_ret r < 0 then Inr (-1, s)
         else
           let h = length (usb_handles s); ffs = ffs_handle r;
               s = s\<lparr>queues := (queues s)(UsbOutq h := [out_buf]), usb_handles := usb_handles s @ [ffs]\<rparr>
           in andthen (watch_add_readfd (usb_ep0 ffs) (CbEp0 h) None s) (\<lambda>s.
              andthen (dm_add ''USB client'' (-1) (usb_bulk_in ffs) True s) (\<lambda>(dm, s).
                Inr (0, s\<lparr>usb_handles := (usb_handles s)[h := ffs\<lparr>usb_dm := Some dm\<rparr>]\<rparr>))))"

datatype ffs_event = FfsEnable | FfsDisable | FfsOther

text \<open>\<open>event\<close> is what was read from \<^verbatim>\<open>ep0\<close>; \<open>None\<close> is a failed or empty read.\<close>

definition ep0_recv ::
    "nat \<Rightarrow> ffs_event option \<Rightarrow> 'z usb_state_scheme \<Rightarrow> (int \<times> 'z usb_state_scheme) res" where
  "ep0_recv h event s =
     andthen (arr_read (usb_handles s) h) (\<lambda>ffs.
     case event of
       Some FfsEnable \<Rightarrow>
         andthen (watch_add_readq (usb_bulk_out ffs) (UsbOutq h) (AioFfsRecv h) s) (\<lambda>s.
           case usb_dm ffs of None \<Rightarrow> Inl NullDeref | Some dm \<Rightarrow> Inr (0, dm_enable dm s))
     | Some FfsDisable \<Rightarrow>
         (case usb_dm ffs of None \<Rightarrow> Inl NullDeref | Some dm \<Rightarrow> Inr (0, dm_disable dm s))
     | _ \<Rightarrow> Inr (0, s))"

text \<open>
  A transfer from the host becomes the contents of a ring of its own; the buffer goes back to
  the queue. \<^verbatim>\<open>memcpy\<close> of more bytes than the ring's array holds is a fault.
\<close>

definition diag_ffs_recv ::
    "nat \<Rightarrow> mbuf \<Rightarrow> 'z usb_state_scheme \<Rightarrow> 'z usb_state_scheme res" where
  "diag_ffs_recv h mb s =
     andthen (arr_read (usb_handles s) h) (\<lambda>ffs.
     let n = unat (m_offset mb) in
     andthen (load (m_data mb) n) (\<lambda>bs.
     if HDLC_BUF_SIZE < n then Inl OobWrite
     else case usb_dm ffs of
       None \<Rightarrow> Inl NullDeref
     | Some dm \<Rightarrow>
         let recv_buf = \<lparr>buf = (\<lambda>i. if i < n then bs ! i else 0), head = m_offset mb, tail = 0\<rparr> in
         andthen (dm_decode_data dm recv_buf s) (\<lambda>(_, _, s).
           Inr (enqueue (UsbOutq h) (mb\<lparr>m_offset := 0\<rparr>) s))))"


section \<open>What the transports guarantee\<close>

text \<open>
  When an endpoint cannot be opened, every descriptor that was opened is closed again, once;
  when all can, the handle holds the three that stay open.
\<close>

lemma ffs_no_leak:
  "ffs_ret (ffs_diag_init calls h) < 0 \<Longrightarrow> mset (ffs_closed (ffs_diag_init calls h)) = mset (ffs_opened (ffs_diag_init calls h))"
  by (auto simp: ffs_diag_init_def Let_def split: if_splits)

lemma ffs_kept_open:
  assumes "\<not> ffs_ret (ffs_diag_init calls h) < 0"
  shows "ffs_ret (ffs_diag_init calls h) = 0 \<and>
    mset (ffs_opened (ffs_diag_init calls h)) = mset (ffs_closed (ffs_diag_init calls h)) +
      {# usb_ep0 (ffs_handle (ffs_diag_init calls h)), usb_bulk_out (ffs_handle (ffs_diag_init calls h)),
         usb_bulk_in (ffs_handle (ffs_diag_init calls h)) #}"
  using assms by (auto simp: ffs_diag_init_def Let_def split: if_splits)

text \<open>The line settings: eight bits, no parity, one stop bit, at the rate asked for.\<close>

lemma check_baudrate_mask: "check_baudrate b AND CBAUD = check_baudrate b"
  by (simp add: check_baudrate_def CBAUD_def B9600_def B19200_def B38400_def B115200_def)

lemma uart_options_line:
  assumes "baud AND CBAUD = baud"
  shows "c_cflag (uart_options baud options) AND CBAUD = baud"
    and "c_cflag (uart_options baud options) AND (CSIZE OR CSTOPB OR PARENB OR CREAD OR CLOCAL) = CS8 OR CREAD OR CLOCAL"
proof -
  let ?c = "c_cflag options"
  let ?f = "(((?c AND NOT PARENB) AND NOT CSTOPB) AND NOT CSIZE) OR (CS8 OR CLOCAL OR CREAD)"
  have cflag: "c_cflag (uart_options baud options) = (?f AND NOT CBAUD) OR (baud AND CBAUD)"
    by (simp add: uart_options_def Let_def)
  show "c_cflag (uart_options baud options) AND CBAUD = baud"
    unfolding cflag using assms by (simp add: bit.conj_disj_distrib2 and.assoc)
  have "(x AND CBAUD) AND (CSIZE OR CSTOPB OR PARENB OR CREAD OR CLOCAL) = 0" for x :: u32
    by (simp add: CBAUD_def CSIZE_def CSTOPB_def PARENB_def CREAD_def CLOCAL_def and.assoc)
  moreover have absorb: "x AND 0x880 OR 0x8b0 = 0x8b0" for x :: u32
  proof -
    have "x AND y OR (y OR z) = y OR z" for y z :: u32 by (rule bit_word_eqI) (auto simp: bit_simps)
    from this [of "0x880" "0x30"] show ?thesis by simp
  qed
  moreover have "(?f AND NOT CBAUD) AND (CSIZE OR CSTOPB OR PARENB OR CREAD OR CLOCAL) = CS8 OR CREAD OR CLOCAL"
    by (simp add: CBAUD_def CSIZE_def CSTOPB_def PARENB_def CREAD_def CLOCAL_def CS8_def absorb bit.conj_disj_distrib2 and.assoc)
  ultimately show "c_cflag (uart_options baud options) AND (CSIZE OR CSTOPB OR PARENB OR CREAD OR CLOCAL) =
      CS8 OR CREAD OR CLOCAL"
    unfolding cflag by (simp add: bit.conj_disj_distrib2)
qed

end
