(* ===== verification/Event_Loop.thy ===== *)
theory Event_Loop
  imports Startup
begin

text \<open>
  The event loop (\<^verbatim>\<open>watch_run\<close> in \<^verbatim>\<open>watch.c\<close>) over the whole state of the router: one turn
  submits what waits to be written, lets \<^verbatim>\<open>select\<close> wait, runs a timer, completes finished
  requests and calls the callbacks of the descriptors that can be read. The two walks over
  the tables hold the address of a watch while callbacks may release it. What the system
  calls answer during a turn is an argument.
\<close>

section \<open>What the system answers\<close>

text \<open>The answers that a callback gets; each uses the ones of its own calls.\<close>

record answers =
  an_reads :: "fd_event list"
  an_accept :: int
  an_nonblock :: int
  an_device :: "udev_device option"
  an_endpoint :: "ffs_event option"
  an_packet :: recv_event
  an_connected :: bool

definition no_answers :: answers where
  "no_answers =
     \<lparr>an_reads = [], an_accept = -1, an_nonblock = -1, an_device = None, an_endpoint = None,
      an_packet = RecvFail EAGAIN, an_connected = False\<rparr>"

text \<open>
  A finished request is known by the watch its control block is part of; a read has put
  \<open>ev_data\<close> into the buffer of that watch.
\<close>

record io_event =
  ev_watch :: nat
  ev_res :: int
  ev_data :: "u8 list"

datatype selected = SelFailed | SelTimeout | SelReady "int list" bool

record turn =
  tn_clock :: timeval
  tn_submit :: "nat \<Rightarrow> bool"
  tn_select :: selected
  tn_events :: "io_event list option"
  tn_answers :: "int \<Rightarrow> nat \<Rightarrow> answers"
  tn_open :: "u8 list \<Rightarrow> int"

section \<open>Callbacks\<close>

definition read_callback ::
    "qrtr_decode \<Rightarrow> answers \<Rightarrow> read_cb \<Rightarrow> 'z usb_state_scheme \<Rightarrow> (int \<times> 'z usb_state_scheme) res" where
  "read_callback decode an cb s =
     (case cb of
        CbDmRecv c \<Rightarrow> andthen (dm_recv (Some c) (an_reads an) s) (\<lambda>(ret, _, s). Inr (ret, s))
      | CbUnixListen \<Rightarrow> unix_listen (an_accept an) (an_nonblock an) s
      | CbUdevUpdate \<Rightarrow> peripheral_udev_update (an_device an) s
      | CbEp0 h \<Rightarrow> ep0_recv h (an_endpoint an) s
      | CbRpmsgCntl p \<Rightarrow> andthen (rpmsg_perif_cntl_recv p (an_reads an) s) (\<lambda>(ret, _, s). Inr (ret, s))
      | CbRpmsgData p \<Rightarrow> andthen (diag_data_recv p (an_reads an) s) (\<lambda>(ret, _, s). Inr (ret, s))
      | CbRpmsgCmd p \<Rightarrow> andthen (diag_cmd_recv p (an_reads an) s) (\<lambda>(ret, _, s). Inr (ret, s))
      | CbQrtrCntl p \<Rightarrow> qrtr_cntl_recv decode p (an_packet an) s
      | CbQrtrCmd p \<Rightarrow> qrtr_cmd_recv decode (an_connected an) p (an_packet an) s
      | CbQrtrData p \<Rightarrow> qrtr_data_recv decode p (an_packet an) s)"

definition timer_callback ::
    "(u8 list \<Rightarrow> int) \<Rightarrow> timer_cb \<Rightarrow> 'z usb_state_scheme \<Rightarrow> 'z usb_state_scheme res" where
  "timer_callback opn cb s =
     (case cb of
        TmHdlcReset c \<Rightarrow> Inr (diag_hdlc_reset c s)
      | TmPeripheralOpen p \<Rightarrow> peripheral_open opn p s)"

definition aio_callback :: "aio_done \<Rightarrow> mbuf \<Rightarrow> 'z usb_state_scheme \<Rightarrow> 'z usb_state_scheme res" where
  "aio_callback cb m s =
     (case cb of
        AioFreeWrite \<Rightarrow> Inr (watch_free_write_aio m s)
      | AioFfsRecv h \<Rightarrow> diag_ffs_recv h m s)"

section \<open>Walking over a table\<close>

definition watch_at :: "nat \<Rightarrow> watch list \<Rightarrow> watch res" where
  "watch_at a ws = (case List.find (\<lambda>w. w_addr w = a) ws of None \<Rightarrow> Inl UseAfterFree | Some w \<Rightarrow> Inr w)"

text \<open>The address of the node after another one, unless that is the list's head.\<close>

fun addr_after :: "nat \<Rightarrow> watch list \<Rightarrow> nat option" where
  "addr_after a [] = None"
| "addr_after a (w # ws) =
     (if w_addr w = a then (case ws of [] \<Rightarrow> None | v # _ \<Rightarrow> Some (w_addr v)) else addr_after a ws)"

definition first_addr :: "watch list \<Rightarrow> nat option" where
  "first_addr ws = (case ws of [] \<Rightarrow> None | w # _ \<Rightarrow> Some (w_addr w))"

text \<open>
  \<^verbatim>\<open>list_for_each_entry_safe\<close>: the next node is read before the body runs, and is visited
  afterwards whether or not it has been released. Nodes can be appended during the walk, so
  it has fuel.
\<close>

fun walk ::
    "nat \<Rightarrow> ('s \<Rightarrow> watch list) \<Rightarrow> (watch \<Rightarrow> 's \<Rightarrow> 's res) \<Rightarrow> nat option \<Rightarrow> 's \<Rightarrow> 's res" where
  "walk fuel table body None s = Inr s"
| "walk 0 table body (Some a) s = Inl Diverged"
| "walk (Suc fuel) table body (Some a) s =
     andthen (watch_at a (table s)) (\<lambda>w.
     let following = addr_after a (table s) in
     andthen (body w s) (walk fuel table body following))"

section \<open>Asynchronous requests\<close>

text \<open>Submission, watch by watch; \<open>accepted\<close> is what \<^verbatim>\<open>io_submit\<close> answers for each.\<close>

fun poll_aio ::
    "(nat \<Rightarrow> bool) \<Rightarrow> watch list \<Rightarrow> (queue_id \<Rightarrow> mbuf list) \<Rightarrow> (watch list \<times> (queue_id \<Rightarrow> mbuf list)) res" where
  "poll_aio accepted [] qs = Inr ([], qs)"
| "poll_aio accepted (w # ws) qs =
     (case w_queue w of
        None \<Rightarrow> Inl NullDeref
      | Some q \<Rightarrow>
          andthen (watch_poll_aio (accepted (w_addr w)) w (qs q)) (\<lambda>(w, rest).
          andthen (poll_aio accepted ws (qs(q := rest))) (\<lambda>(ws, qs). Inr (w # ws, qs))))"

definition watch_poll :: "(nat \<Rightarrow> bool) \<Rightarrow> 'z queue_state_scheme \<Rightarrow> 'z queue_state_scheme res" where
  "watch_poll accepted s =
     andthen (poll_aio accepted (aio_watches s) (queues s)) (\<lambda>(ws, qs).
       Inr (s\<lparr>queues := qs, aio_watches := ws\<rparr>))"

definition set_pending :: "nat \<Rightarrow> mbuf option \<Rightarrow> 'z watch_state_scheme \<Rightarrow> 'z watch_state_scheme" where
  "set_pending a m s =
     s\<lparr>aio_watches := map (\<lambda>w. if w_addr w = a then w\<lparr>w_pending := m\<rparr> else w) (aio_watches s)\<rparr>"

text \<open>What the kernel has written into the buffers of finished reads.\<close>

definition transfer :: "io_event \<Rightarrow> watch \<Rightarrow> watch" where
  "transfer ev w =
     (if w_addr w = ev_watch ev \<and> \<not> w_is_write w
      then w\<lparr>w_pending := map_option (\<lambda>m. m\<lparr>m_data := ev_data ev @ drop (length (ev_data ev)) (m_data m)\<rparr>)
                            (w_pending w)\<rparr>
      else w)"

definition transferred :: "io_event list \<Rightarrow> 'z watch_state_scheme \<Rightarrow> 'z watch_state_scheme" where
  "transferred evs s = s\<lparr>aio_watches := map (\<lambda>w. fold transfer evs w) (aio_watches s)\<rparr>"

text \<open>
  One event, seen by the watch at address \<open>a\<close>. The event's descriptor is read from the control
  block, which is part of the watch that submitted it.
\<close>

definition aio_event :: "nat \<Rightarrow> io_event \<Rightarrow> 'z usb_state_scheme \<Rightarrow> 'z usb_state_scheme res" where
  "aio_event a ev s =
     andthen (watch_at (ev_watch ev) (aio_watches s)) (\<lambda>owner.
     andthen (watch_at a (aio_watches s)) (\<lambda>w.
     if w_fd owner \<noteq> w_fd w then Inr s
     else case w_pending w of
            None \<Rightarrow> Inl AssertFailed
          | Some m \<Rightarrow>
              if ev_res ev = - EAGAIN then Inr s
              else
                let m = (if \<not> w_is_write w \<and> ev_res ev \<ge> 0 then m\<lparr>m_offset := of_int (ev_res ev)\<rparr> else m) in
                (case w_complete w of
                   None \<Rightarrow> Inl NullDeref
                 | Some cb \<Rightarrow>
                     andthen (aio_callback cb m s) (\<lambda>s.
                     andthen (watch_at a (aio_watches s)) (\<lambda>_. Inr (set_pending a None s))))))"

text \<open>\<open>evs\<close> is what \<^verbatim>\<open>io_getevents\<close> gives; \<open>None\<close> when the counter cannot be read.\<close>

definition watch_handle_eventfd :: "nat \<Rightarrow> io_event list option \<Rightarrow> 'z usb_state_scheme \<Rightarrow> 'z usb_state_scheme res" where
  "watch_handle_eventfd fuel evs s =
     (case evs of
        None \<Rightarrow> Inr s
      | Some evs \<Rightarrow>
          let s = transferred evs s in
          walk fuel aio_watches (\<lambda>w. fold_res (aio_event (w_addr w)) evs) (first_addr (aio_watches s)) s)"

section \<open>Descriptors that can be read\<close>

definition FD_SETSIZE :: int where "FD_SETSIZE = 1024"

text \<open>The descriptors given to \<^verbatim>\<open>select\<close>; a set has room for the first 1024.\<close>

fun read_set :: "watch list \<Rightarrow> 'z flow_state_scheme \<Rightarrow> int list res" where
  "read_set [] s = Inr []"
| "read_set (w # ws) s =
     (if watch_flow_blocked (w_flow w) s then read_set ws s
      else if w_fd w < 0 \<or> FD_SETSIZE \<le> w_fd w then Inl OobWrite
      else andthen (read_set ws s) (\<lambda>fds. Inr (w_fd w # fds)))"

definition watch_read ::
    "qrtr_decode \<Rightarrow> int list \<Rightarrow> (int \<Rightarrow> nat \<Rightarrow> answers) \<Rightarrow> watch \<Rightarrow> 'z usb_state_scheme \<Rightarrow> 'z usb_state_scheme res" where
  "watch_read decode rfds an w s =
     (if w_fd w < 0 \<or> FD_SETSIZE \<le> w_fd w then Inl OobRead
      else if w_fd w \<notin> set rfds then Inr s
      else case w_cb w of
             None \<Rightarrow> Inl NullDeref
           | Some cb \<Rightarrow>
               andthen (read_callback decode (an (w_fd w) (w_addr w)) cb s) (\<lambda>(ret, s).
               if ret < 0
               then andthen (watch_at (w_addr w) (read_watches s)) (\<lambda>_.
                 Inr (s\<lparr>read_watches := filter (\<lambda>v. w_addr v \<noteq> w_addr w) (read_watches s)\<rparr>))
               else Inr s))"

definition watch_expire :: "(u8 list \<Rightarrow> int) \<Rightarrow> timer \<Rightarrow> 'z usb_state_scheme \<Rightarrow> 'z usb_state_scheme res" where
  "watch_expire opn t s =
     andthen (timer_callback opn (t_cb t) s) (\<lambda>s.
       Inr (if t_repeat t
            then s\<lparr>timers := map (\<lambda>u. if t_addr u = t_addr t then watch_set_timer u s else u) (timers s)\<rparr>
            else watch_free_timer t s))"

section \<open>The loop\<close>

text \<open>
  The answer is whether the loop goes on. After a timeout \<^verbatim>\<open>select\<close> leaves the set empty. A
  walk visits each watch at most once, and the only callback that appends to the table it is
  called from is the one that accepts clients, whose own watches append nothing.
\<close>

definition walk_fuel :: "'z watch_state_scheme \<Rightarrow> nat" where
  "walk_fuel s = 8 * (length (read_watches s) + length (aio_watches s) + 1)"

definition watch_turn ::
    "qrtr_decode \<Rightarrow> turn \<Rightarrow> 'z usb_state_scheme \<Rightarrow> (bool \<times> 'z usb_state_scheme) res" where
  "watch_turn decode tn s =
     (let s = s\<lparr>clock := tn_clock tn\<rparr> in
      andthen (read_set (read_watches s) s) (\<lambda>rfds.
      andthen (watch_poll (tn_submit tn) s) (\<lambda>s.
      let timer = watch_get_next_timer s in
      case tn_select tn of
        SelFailed \<Rightarrow> Inr (False, s)
      | SelTimeout \<Rightarrow>
          andthen (case timer of None \<Rightarrow> Inr s | Some t \<Rightarrow> watch_expire (tn_open tn) t s) (\<lambda>s.
          andthen (walk (walk_fuel s) read_watches (watch_read decode [] (tn_answers tn))
                     (first_addr (read_watches s)) s) (\<lambda>s. Inr (True, s)))
      | SelReady fds finished \<Rightarrow>
          andthen (if finished then watch_handle_eventfd (walk_fuel s) (tn_events tn) s else Inr s) (\<lambda>s.
          andthen (walk (walk_fuel s) read_watches
                     (watch_read decode (filter (\<lambda>fd. fd \<in> set rfds) fds) (tn_answers tn))
                     (first_addr (read_watches s)) s) (\<lambda>s. Inr (True, s))))))"

definition watch_finish :: "qrtr_decode \<Rightarrow> 'z usb_state_scheme \<Rightarrow> 'z usb_state_scheme res" where
  "watch_finish decode s =
     fold_res (\<lambda>w s. case w_cb w of
         None \<Rightarrow> Inl NullDeref
       | Some cb \<Rightarrow> andthen (read_callback decode no_answers cb s) (\<lambda>(_, s). Inr s)) (quit_watches s) s"

text \<open>The first turns of the loop: one for each element of the list, unless it ends before.\<close>

fun watch_run ::
    "qrtr_decode \<Rightarrow> turn list \<Rightarrow> 'z usb_state_scheme \<Rightarrow> (bool \<times> 'z usb_state_scheme) res" where
  "watch_run decode [] s = Inr (True, s)"
| "watch_run decode (tn # tns) s =
     (if do_watch_quit s then andthen (watch_finish decode s) (\<lambda>s. Inr (False, s))
      else
        andthen (watch_turn decode tn s) (\<lambda>(running, s).
          if running then watch_run decode tns s
          else andthen (watch_finish decode s) (\<lambda>s. Inr (False, s))))"

section \<open>Walks over a table that does not change\<close>

lemma watch_at_found:
  "distinct (map w_addr ws) \<Longrightarrow> w \<in> set ws \<Longrightarrow> watch_at (w_addr w) ws = Inr w"
  by (induction ws) (auto simp: watch_at_def image_iff)

lemma watch_at_missing: "a \<notin> w_addr ` set ws \<Longrightarrow> watch_at a ws = Inl UseAfterFree"
  by (auto simp: watch_at_def find_None_iff split: option.splits dest!: find_Some_iff [THEN iffD1])

lemma addr_after_append:
  "distinct (map w_addr (ws @ w # vs)) \<Longrightarrow> addr_after (w_addr w) (ws @ w # vs) = first_addr vs"
  by (induction ws) (auto simp: first_addr_def split: list.splits)

lemma first_addr_simps [simp]: "first_addr [] = None" "first_addr (w # ws) = Some (w_addr w)"
  by (simp_all add: first_addr_def)

text \<open>Watches for which the body does nothing are passed over.\<close>

lemma walk_skip:
  "distinct (map w_addr (table s)) \<Longrightarrow> table s = done @ ws @ vs \<Longrightarrow> \<forall>w \<in> set ws. body w s = Inr s \<Longrightarrow>
   walk (length ws + fuel) table body (first_addr (ws @ vs)) s = walk fuel table body (first_addr vs) s"
proof (induction ws arbitrary: "done")
  case (Cons w ws)
  have "watch_at (w_addr w) (table s) = Inr w"
    by (rule watch_at_found [OF Cons.prems(1)]) (simp add: Cons.prems(2))
  moreover have "addr_after (w_addr w) (table s) = first_addr (ws @ vs)"
    using addr_after_append [of "done" w "ws @ vs"] Cons.prems(1,2) by simp
  ultimately show ?case
    using Cons.IH [of "done @ [w]"] Cons.prems by simp
qed simp

text \<open>The walk reaches a watch: its body runs, and then whatever follows it now is visited.\<close>

lemma walk_reaches:
  assumes "distinct (map w_addr (table s))" and "table s = ws @ w # vs" and "\<forall>u \<in> set ws. body u s = Inr s"
    and "length ws < fuel"
  shows "walk fuel table body (first_addr (table s)) s =
    andthen (body w s) (walk (fuel - Suc (length ws)) table body (first_addr vs))"
proof -
  from assms(4) obtain k where k: "fuel = length ws + Suc k" by (metis add_Suc_right less_imp_Suc_add)
  have "walk fuel table body (first_addr (table s)) s = walk (Suc k) table body (first_addr (w # vs)) s"
    using walk_skip [of table s "[]" ws "w # vs" body "Suc k"] assms(1-3) by (simp add: k)
  moreover have "watch_at (w_addr w) (table s) = Inr w"
    by (rule watch_at_found [OF assms(1)]) (simp add: assms(2))
  moreover have "addr_after (w_addr w) (table s) = first_addr vs"
    using addr_after_append [of ws w vs] assms(1,2) by simp
  ultimately show ?thesis by (simp add: k)
qed

text \<open>A node that was released while it was the next one is used after it is free.\<close>

lemma walk_dangling:
  "a \<notin> w_addr ` set (table s) \<Longrightarrow> walk (Suc fuel) table body (Some a) s = Inl UseAfterFree"
  by (simp add: watch_at_missing)

section \<open>Before the callbacks run\<close>

definition aio_wf :: "'z watch_state_scheme \<Rightarrow> bool" where
  "aio_wf s \<longleftrightarrow> distinct (map w_addr (aio_watches s)) \<and>
     (\<forall>w \<in> set (aio_watches s). w_queue w \<noteq> None \<and> (w_is_write w \<longrightarrow> w_complete w = Some AioFreeWrite))"

definition read_wf :: "'z watch_state_scheme \<Rightarrow> bool" where
  "read_wf s \<longleftrightarrow> distinct (map w_addr (read_watches s)) \<and>
     (\<forall>w \<in> set (read_watches s). 0 \<le> w_fd w \<and> w_fd w < FD_SETSIZE)"

text \<open>A watch with a flow that is blocked does not put its descriptor into the set.\<close>

lemma read_set_ok:
  "\<forall>w \<in> set ws. 0 \<le> w_fd w \<and> w_fd w < FD_SETSIZE \<Longrightarrow>
   read_set ws s = Inr (map w_fd (filter (\<lambda>w. \<not> watch_flow_blocked (w_flow w) s) ws))"
  by (induction ws) (auto simp: not_le [symmetric])

lemma read_set_unblocked:
  "read_set ws s = Inr fds \<Longrightarrow> set fds = w_fd ` {w \<in> set ws. \<not> watch_flow_blocked (w_flow w) s}"
  by (induction ws arbitrary: fds) (auto simp: andthen_eq_Inr split: if_splits)

text \<open>Submitting changes what is pending, and the queues; no watch comes or goes.\<close>

definition submitted :: "watch \<Rightarrow> watch \<Rightarrow> bool" where
  "submitted w w' \<longleftrightarrow> w' = w \<or> w_pending w = None \<and> (\<exists>m. w' = w\<lparr>w_pending := Some m\<rparr>)"

lemma poll_aio_ok:
  "\<forall>w \<in> set ws. w_queue w \<noteq> None \<Longrightarrow>
   \<exists>ws' qs'. poll_aio acc ws qs = Inr (ws', qs') \<and> list_all2 submitted ws ws'"
proof (induction ws arbitrary: qs)
  case (Cons w ws)
  then obtain q where q: "w_queue w = Some q" by auto
  obtain w' rest where poll: "watch_poll_aio (acc (w_addr w)) w (qs q) = Inr (w', rest)"
    using watch_poll_aio_safe by blast
  then have "submitted w w'"
    by (auto simp: watch_poll_aio_def watch_submit_aio_def submitted_def split: if_splits list.splits)
  moreover obtain ws' qs' where "poll_aio acc ws (qs(q := rest)) = Inr (ws', qs')" "list_all2 submitted ws ws'"
    using Cons.IH [of "qs(q := rest)"] Cons.prems by (auto simp del: fun_upd_apply)
  ultimately show ?case using q poll by (simp del: fun_upd_apply)
qed simp

lemma watch_poll_ok:
  assumes "\<forall>w \<in> set (aio_watches s). w_queue w \<noteq> None"
  obtains qs ws where "watch_poll acc s = Inr (s\<lparr>queues := qs, aio_watches := ws\<rparr>)"
    "list_all2 submitted (aio_watches s) ws"
  using poll_aio_ok [OF assms, of acc "queues s"] by (auto simp: watch_poll_def)

section \<open>A peripheral that goes away\<close>

text \<open>
  The read of the control channel fails, the peripheral is closed, and with it the watch of
  its data channel is released, which is the next one of the walk.
\<close>

lemma cntl_read_fails:
  assumes "perifs s p = Obj perif" and "p_ops perif = RpmsgOps" and "an_reads an = [Fail e]" and "e \<noteq> EAGAIN"
  obtains s' where "read_callback decode an (CbRpmsgCntl p) s = Inr (0, s')"
    "read_watches s' = filter (\<lambda>w. w_fd w \<notin> {p_data_fd perif, p_cntl_fd perif, p_cmd_fd perif}) (read_watches s)"
proof -
  have "read_watches (diag_cntl_close p s) = read_watches s" for s :: "'a usb_state_scheme"
    by (simp add: diag_cntl_close_def)
  then show thesis
    using assms
    by (intro that)
      (auto simp: read_callback_def rpmsg_perif_cntl_recv_def alloca_def Let_def CNTL_BUF_SIZE_def peripheral_close_def
        perif_rpmsg_close_def watch_remove_fd_def diag_cntl_close_def intro!: filter_cong)
qed

text \<open>The state in which the callbacks of a turn run, when no request has finished.\<close>

lemma turn_callbacks:
  assumes aio: "\<forall>w \<in> set (aio_watches s). w_queue w \<noteq> None" and wf: "read_wf s"
    and sel: "tn_select tn = SelReady fds False"
  obtains qs ws rfds t where
    "watch_turn decode tn s =
      andthen (walk (walk_fuel t) read_watches (watch_read decode rfds (tn_answers tn)) (first_addr (read_watches t)) t)
        (\<lambda>s. Inr (True, s))"
    "t = s\<lparr>clock := tn_clock tn, queues := qs, aio_watches := ws\<rparr>" "length ws = length (aio_watches s)"
    "set rfds = set fds \<inter> w_fd ` {w \<in> set (read_watches s). \<not> watch_flow_blocked (w_flow w) s}"
proof -
  let ?s = "s\<lparr>clock := tn_clock tn\<rparr>"
  have aio': "\<forall>w \<in> set (aio_watches ?s). w_queue w \<noteq> None" using aio by simp
  obtain qs ws where poll: "watch_poll (tn_submit tn) ?s = Inr (?s\<lparr>queues := qs, aio_watches := ws\<rparr>)"
    "list_all2 submitted (aio_watches ?s) ws"
    by (rule watch_poll_ok [OF aio', where acc = "tn_submit tn"]) blast
  have "\<forall>w \<in> set (read_watches s). 0 \<le> w_fd w \<and> w_fd w < FD_SETSIZE" using wf by (simp add: read_wf_def)
  from read_set_ok [OF this, of ?s] obtain in_set where set: "read_set (read_watches s) ?s = Inr in_set" by blast
  have "set in_set = w_fd ` {w \<in> set (read_watches s). \<not> watch_flow_blocked (w_flow w) s}"
    using read_set_unblocked [OF set] by (simp add: watch_flow_blocked_def cong: option.case_cong)
  then have "set (filter (\<lambda>fd. fd \<in> set in_set) fds) =
      set fds \<inter> w_fd ` {w \<in> set (read_watches s). \<not> watch_flow_blocked (w_flow w) s}"
    by auto
  with that [OF _ refl] show thesis
    using poll list_all2_lengthD [OF poll(2)] set by (simp add: watch_turn_def sel Let_def)
qed

lemma close_in_turn:
  assumes read: "read_watches s = ws @ wc # wd # vs" "read_wf s" and aio: "\<forall>w \<in> set (aio_watches s). w_queue w \<noteq> None"
    and perif: "perifs s p = Obj perif" "p_ops perif = RpmsgOps"
    and wc: "w_cb wc = Some (CbRpmsgCntl p)" "w_fd wc = p_cntl_fd perif" "w_flow wc = None"
    and wd: "w_fd wd = p_data_fd perif" and ws: "\<forall>w \<in> set ws. w_fd w \<noteq> p_cntl_fd perif"
    and tn: "tn_select tn = SelReady [p_cntl_fd perif] False"
      "an_reads (tn_answers tn (p_cntl_fd perif) (w_addr wc)) = [Fail e]" "e \<noteq> EAGAIN"
  shows "watch_turn decode tn s = Inl UseAfterFree"
proof -
  let ?fd = "p_cntl_fd perif"
  obtain qs as rfds t where t: "watch_turn decode tn s =
      andthen (walk (walk_fuel t) read_watches (watch_read decode rfds (tn_answers tn)) (first_addr (read_watches t)) t)
        (\<lambda>s. Inr (True, s))" "t = s\<lparr>clock := tn_clock tn, queues := qs, aio_watches := as\<rparr>"
      "set rfds = set [?fd] \<inter> w_fd ` {w \<in> set (read_watches s). \<not> watch_flow_blocked (w_flow w) s}"
    by (rule turn_callbacks [OF aio read(2) tn(1), where decode = decode]) blast
  have "?fd \<in> w_fd ` {w \<in> set (read_watches s). \<not> watch_flow_blocked (w_flow w) s}"
    by (rule image_eqI [of _ _ wc]) (use read(1) wc in \<open>simp_all add: watch_flow_blocked_def\<close>)
  then have rfds: "set rfds = {?fd}" using t(3) by auto
  let ?body = "watch_read decode rfds (tn_answers tn)"
  have fds: "\<forall>w \<in> set (read_watches t). 0 \<le> w_fd w \<and> w_fd w < FD_SETSIZE"
    and addrs: "distinct (map w_addr (read_watches t))"
    using read(2) by (simp_all add: read_wf_def t(2))
  have idle: "\<forall>u \<in> set ws. ?body u t = Inr t"
    using ws fds read(1) rfds by (auto simp: watch_read_def t(2) not_le [symmetric])
  obtain t' where t': "read_callback decode (tn_answers tn ?fd (w_addr wc)) (CbRpmsgCntl p) t = Inr (0, t')"
      "read_watches t' = filter (\<lambda>w. w_fd w \<notin> {p_data_fd perif, ?fd, p_cmd_fd perif}) (read_watches t)"
    by (rule cntl_read_fails [of t p perif "tn_answers tn ?fd (w_addr wc)" e decode]) (use perif tn(2,3) in \<open>simp_all add: t(2)\<close>)
  have body: "?body wc t = Inr t'"
  proof -
    have "wc \<in> set (read_watches t)" using read(1) by (simp add: t(2))
    with fds have "\<not> (w_fd wc < 0 \<or> FD_SETSIZE \<le> w_fd wc)" by auto
    then show ?thesis using t'(1) wc rfds by (simp add: watch_read_def)
  qed
  have "w_addr wd \<notin> w_addr ` set (read_watches t')"
  proof
    assume "w_addr wd \<in> w_addr ` set (read_watches t')"
    then obtain v where v: "v \<in> set (read_watches t')" "w_addr v = w_addr wd" by auto
    then have "v \<in> set (read_watches t)" "w_fd v \<noteq> p_data_fd perif" using t'(2) by simp_all
    moreover have "wd \<in> set (read_watches t)" using read(1) by (simp add: t(2))
    ultimately have "v = wd" using addrs v(2) by (meson distinct_map inj_onD)
    with \<open>w_fd v \<noteq> p_data_fd perif\<close> wd show False by simp
  qed
  then have "walk (Suc k) read_watches ?body (Some (w_addr wd)) t' = Inl UseAfterFree" for k
    by (rule walk_dangling)
  moreover have "walk (walk_fuel t) read_watches ?body (first_addr (read_watches t)) t =
      andthen (?body wc t) (walk (walk_fuel t - Suc (length ws)) read_watches ?body (first_addr (wd # vs)))"
    by (rule walk_reaches [where table = read_watches and body = ?body and s = t, OF addrs _ idle]) (use read(1) in \<open>simp_all add: t(2) walk_fuel_def\<close>)
  moreover have "walk_fuel t - Suc (length ws) = Suc (walk_fuel t - length ws - 2)"
    using read(1) by (simp add: t(2) walk_fuel_def)
  ultimately show ?thesis using t(1) body by simp
qed

section \<open>A request that finishes\<close>

lemma fold_res_fault: "f x s = Inl e \<Longrightarrow> fold_res f (x # xs) s = Inl e"
  by simp

lemma fold_res_id: "\<forall>x \<in> set xs. f x s = Inr s \<Longrightarrow> fold_res f xs s = Inr s"
  by (induction xs) simp_all

text \<open>
  When the watch was released in the meantime, its control block is read after it is free,
  as soon as any watch is left in the table.
\<close>

lemma finished_after_release:
  assumes "aio_watches s \<noteq> []" and "ev_watch ev \<notin> w_addr ` set (aio_watches s)" and "0 < fuel"
  shows "watch_handle_eventfd fuel (Some (ev # evs)) s = Inl UseAfterFree"
proof -
  from assms(1) obtain w ws where ws: "aio_watches s = w # ws" by (cases "aio_watches s") auto
  let ?s = "transferred (ev # evs) s"
  have transfer: "w_addr (transfer e v) = w_addr v" for e v by (simp add: transfer_def)
  have addr: "w_addr (fold transfer es v) = w_addr v" for es v by (induction es arbitrary: v) (simp_all add: transfer)
  have addrs: "map w_addr (aio_watches ?s) = map w_addr (aio_watches s)"
    by (simp add: transferred_def addr transfer)
  have "aio_event a ev ?s = Inl UseAfterFree" for a
    using assms(2) arg_cong [OF addrs, of set] by (simp add: aio_event_def watch_at_missing)
  moreover have "first_addr (aio_watches ?s) = Some (w_addr w)" "\<exists>v. watch_at (w_addr w) (aio_watches ?s) = Inr v"
    by (simp_all add: transferred_def ws addr transfer watch_at_def)
  moreover obtain k where "fuel = Suc k" using assms(3) by (cases fuel) auto
  ultimately show ?thesis by (auto simp: watch_handle_eventfd_def)
qed

text \<open>
  Two watches that write to one descriptor: when the request of one finishes and nothing of
  the other is pending, the other takes the event for its own, and the assertion fails.
\<close>

lemma write_event_matched:
  assumes "distinct (map w_addr (aio_watches s))" and "owner \<in> set (aio_watches s)" and "w \<in> set (aio_watches s)"
    and "w_fd owner = w_fd w" and "w_is_write w" and "w_complete w = Some AioFreeWrite"
    and "ev_watch ev = w_addr owner" and "ev_res ev \<noteq> - EAGAIN"
  shows "aio_event (w_addr w) ev s =
    (case w_pending w of None \<Rightarrow> Inl AssertFailed
     | Some m \<Rightarrow> Inr (set_pending (w_addr w) None (watch_free_write_aio m s)))"
proof -
  have free: "aio_watches (watch_free_write_aio m s) = aio_watches s" for m
    by (simp add: watch_free_write_aio_def watch_flow_dec_def split: option.splits)
  have "watch_at (ev_watch ev) (aio_watches s) = Inr owner" "watch_at (w_addr w) (aio_watches s) = Inr w"
    using watch_at_found [OF assms(1)] assms(2,3,7) by simp_all
  then show ?thesis
    using assms(4-6,8) free by (auto simp: aio_event_def aio_callback_def Let_def split: option.splits)
qed

lemma write_event_other:
  assumes "distinct (map w_addr (aio_watches s))" and "owner \<in> set (aio_watches s)" and "w \<in> set (aio_watches s)"
    and "w_fd owner \<noteq> w_fd w" and "ev_watch ev = w_addr owner"
  shows "aio_event (w_addr w) ev s = Inr s"
  using watch_at_found [OF assms(1,2)] watch_at_found [OF assms(1,3)] assms(4,5) by (simp add: aio_event_def)

lemma set_pending_split:
  assumes "distinct (map w_addr (aio_watches s))" and "aio_watches s = before @ w # ws"
  shows "aio_watches (set_pending (w_addr w) m s) = before @ w\<lparr>w_pending := m\<rparr> # ws"
proof -
  have same: "map (\<lambda>v. if w_addr v = w_addr w then v\<lparr>w_pending := m\<rparr> else v) vs = vs" if "w_addr w \<notin> w_addr ` set vs" for vs
    using that by (induction vs) auto
  have "w_addr w \<notin> w_addr ` set before" "w_addr w \<notin> w_addr ` set ws" using assms by auto
  from same [OF this(1)] same [OF this(2)] show ?thesis by (simp add: set_pending_def assms(2))
qed

lemma walk_asserts:
  assumes "distinct (map w_addr (aio_watches s))" and "aio_watches s = before @ ws" and "length ws < fuel"
    and "idle \<in> set ws" and "w_pending idle = None" and "w_fd idle = fd"
    and "\<exists>owner \<in> set (aio_watches s). w_addr owner = ev_watch ev \<and> w_fd owner = fd"
    and "\<forall>w \<in> set ws. w_fd w = fd \<longrightarrow> w_is_write w \<and> w_complete w = Some AioFreeWrite"
    and "ev_res ev \<noteq> - EAGAIN"
  shows "walk fuel aio_watches (\<lambda>w. fold_res (aio_event (w_addr w)) [ev]) (first_addr ws) s = Inl AssertFailed"
  using assms
proof (induction ws arbitrary: s before fuel)
  case (Cons w ws)
  obtain k where fuel: "fuel = Suc k" "length ws < k" using Cons.prems(3) by (cases fuel) auto
  from Cons.prems(7) obtain owner where owner: "owner \<in> set (aio_watches s)" "ev_watch ev = w_addr owner" "w_fd owner = fd"
    by auto
  have w: "w \<in> set (aio_watches s)" using Cons.prems(2) by simp
  have at: "watch_at (w_addr w) (aio_watches s) = Inr w" by (rule watch_at_found [OF Cons.prems(1) w])
  have after: "addr_after (w_addr w) (aio_watches s) = first_addr ws"
    using addr_after_append [of before w ws] Cons.prems(1,2) by simp
  have step: "walk fuel aio_watches (\<lambda>w. fold_res (aio_event (w_addr w)) [ev]) (first_addr (w # ws)) s =
      andthen (aio_event (w_addr w) ev s) (walk k aio_watches (\<lambda>w. fold_res (aio_event (w_addr w)) [ev]) (first_addr ws))"
    using at after by (simp add: fuel Let_def andthen_assoc)
  show ?case
  proof (cases "w_fd w = fd")
    case False
    have "aio_event (w_addr w) ev s = Inr s"
      by (rule write_event_other [OF Cons.prems(1) owner(1) w _ owner(2)]) (use False owner in simp)
    moreover have "walk k aio_watches (\<lambda>w. fold_res (aio_event (w_addr w)) [ev]) (first_addr ws) s = Inl AssertFailed"
      by (rule Cons.IH [of s "before @ [w]"]) (use Cons.prems fuel False in auto)
    ultimately show ?thesis unfolding step by simp
  next
    case True
    have event: "aio_event (w_addr w) ev s =
        (case w_pending w of None \<Rightarrow> Inl AssertFailed
         | Some m \<Rightarrow> Inr (set_pending (w_addr w) None (watch_free_write_aio m s)))"
      by (rule write_event_matched [OF Cons.prems(1) owner(1) w _ _ _ owner(2)]) (use True owner Cons.prems in simp_all)
    show ?thesis
    proof (cases "w_pending w")
      case None
      with event show ?thesis unfolding step by simp
    next
      case (Some m)
      let ?s = "set_pending (w_addr w) None (watch_free_write_aio m s)"
      have free: "aio_watches (watch_free_write_aio m s) = aio_watches s"
        by (simp add: watch_free_write_aio_def watch_flow_dec_def split: option.splits)
      have s': "aio_watches ?s = before @ w\<lparr>w_pending := None\<rparr> # ws"
        using set_pending_split [of "watch_free_write_aio m s" before w ws None] Cons.prems(1,2) free by simp
      have "walk k aio_watches (\<lambda>w. fold_res (aio_event (w_addr w)) [ev]) (first_addr ws) ?s = Inl AssertFailed"
      proof (rule Cons.IH [of ?s "before @ [w\<lparr>w_pending := None\<rparr>]"])
        show "\<exists>owner \<in> set (aio_watches ?s). w_addr owner = ev_watch ev \<and> w_fd owner = fd"
          using Cons.prems(2,7) by (auto simp: s')
      qed (use Cons.prems fuel Some s' in auto)
      then show ?thesis unfolding step using event Some by simp
    qed
  qed
qed simp

text \<open>A failed assertion ends the turn, whatever descriptors are ready besides.\<close>

lemma second_watch_asserts:
  assumes "distinct (map w_addr (aio_watches s))" and "idle \<in> set (aio_watches s)" and "w_pending idle = None"
    and "owner \<in> set (aio_watches s)" and "w_addr owner = ev_watch ev" and "w_fd owner = w_fd idle"
    and "\<forall>w \<in> set (aio_watches s). w_fd w = w_fd idle \<longrightarrow> w_is_write w \<and> w_complete w = Some AioFreeWrite"
    and "ev_res ev \<noteq> - EAGAIN" and "length (aio_watches s) < fuel"
  shows "watch_handle_eventfd fuel (Some [ev]) s = Inl AssertFailed"
proof -
  define t where "t = transferred [ev] s"
  have tr: "w_addr (transfer ev w) = w_addr w \<and> w_fd (transfer ev w) = w_fd w \<and> w_is_write (transfer ev w) = w_is_write w \<and>
      w_complete (transfer ev w) = w_complete w \<and> (w_pending w = None \<longrightarrow> w_pending (transfer ev w) = None)" for w
    by (simp add: transfer_def)
  have aio: "aio_watches t = map (transfer ev) (aio_watches s)" by (simp add: t_def transferred_def)
  have "map w_addr (aio_watches t) = map w_addr (aio_watches s)" by (simp add: aio tr)
  then have addrs: "distinct (map w_addr (aio_watches t))" using assms(1) by simp
  have "walk fuel aio_watches (\<lambda>w. fold_res (aio_event (w_addr w)) [ev]) (first_addr (aio_watches t)) t = Inl AssertFailed"
  proof (rule walk_asserts [OF addrs, where before = "[]" and idle = "transfer ev idle" and fd = "w_fd idle"])
    show "\<exists>owner \<in> set (aio_watches t). w_addr owner = ev_watch ev \<and> w_fd owner = w_fd idle"
      using assms(4-6) tr by (auto simp: aio)
  qed (use assms tr in \<open>auto simp: aio\<close>)
  then show ?thesis by (simp add: watch_handle_eventfd_def t_def Let_def)
qed

end
