(* ===== verification/Mask_Frames.thy ===== *)
theory Mask_Frames
  imports Event_Loop
begin

text \<open>
  What the operations on the masks may do to the state: they leave the part that moves
  messages alone, and they keep the tables in place, whatever a request asks for. The second
  is weaker than the invariants of the mask theories: a request for a long range breaks the
  one of the message masks, but no request changes the ids of an entry or takes its object
  away.
\<close>

section \<open>Results\<close>

text \<open>
  A condition on the result, if there is one: the weakest precondition of a computation. \<open>D\<close>
  says whether the computation may go on for ever; faults of other kinds are allowed.
\<close>

definition yields :: "bool \<Rightarrow> ('a \<Rightarrow> bool) \<Rightarrow> 'a res \<Rightarrow> bool" where
  "yields D Q m \<longleftrightarrow> (m = Inl Diverged \<longrightarrow> D) \<and> (\<forall>x. m = Inr x \<longrightarrow> Q x)"

lemma yields_simps [simp]:
  "yields D Q (Inl e) = (e = Diverged \<longrightarrow> D)" "yields D Q (Inr x) = Q x"
  "yields D Q (andthen m f) = yields D (\<lambda>x. yields D Q (f x)) m"
  by (auto simp: yields_def andthen_eq_Inr andthen_eq_Inl)

lemma yieldsD: "yields D Q m \<Longrightarrow> m = Inr x \<Longrightarrow> Q x"
  by (simp add: yields_def)

lemma yields_ends: "yields False Q m \<Longrightarrow> m \<noteq> Inl Diverged"
  by (auto simp: yields_def)

lemma yields_mono: "yields D Q m \<Longrightarrow> (\<And>x. Q x \<Longrightarrow> R x) \<Longrightarrow> yields D R m"
  by (simp add: yields_def)

lemma yields_strengthen: "yields D Q m \<Longrightarrow> (\<And>x. m = Inr x \<Longrightarrow> Q x \<Longrightarrow> R x) \<Longrightarrow> yields D R m"
  by (simp add: yields_def)

lemma yields_any: "m \<noteq> Inl Diverged \<Longrightarrow> (\<And>x. m = Inr x \<Longrightarrow> Q x) \<Longrightarrow> yields D Q m"
  by (simp add: yields_def)

text \<open>Reads and copies of memory end, and do not change the state.\<close>

lemma ends_andthen: "andthen m f \<noteq> Inl Diverged \<longleftrightarrow> m \<noteq> Inl Diverged \<and> (\<forall>x. m = Inr x \<longrightarrow> f x \<noteq> Inl Diverged)"
  by (cases m) auto

lemma memory_ends:
  "rd8 m i \<noteq> Inl Diverged" "rd16 m i \<noteq> Inl Diverged" "rd32 m i \<noteq> Inl Diverged" "rd_bytes m i n \<noteq> Inl Diverged"
  "store d i xs \<noteq> Inl Diverged" "load d n \<noteq> Inl Diverged" "fill d v n \<noteq> Inl Diverged" "arr_read xs i \<noteq> Inl Diverged"
  "deref p \<noteq> Inl Diverged" "cstr m i \<noteq> Inl Diverged" "str_eq a b \<noteq> Inl Diverged" "watch_at k ws \<noteq> Inl Diverged"
  "mask_free mi \<noteq> Inl Diverged"
proof -
  show "deref p \<noteq> Inl Diverged" by (cases p) simp_all
qed (simp_all add: rd8_def rd16_def rd32_def rd_bytes_def store_def load_def fill_def arr_read_def cstr_def str_eq_def
    watch_at_def mask_free_def split: option.split pointer.split)

lemma reads_end:
  "rd32s m i n \<noteq> Inl Diverged" "rd_range m i \<noteq> Inl Diverged" "dispatch_key ptr \<noteq> Inl Diverged"
  "diag_id_name_at pf m n v \<noteq> Inl Diverged" "diag_cmd_get_log_range n s \<noteq> Inl Diverged" "dm_check_nhdlc_pkt m \<noteq> Inl Diverged"
proof -
  show "rd32s m i n \<noteq> Inl Diverged" by (induction n arbitrary: i) (simp_all add: ends_andthen memory_ends)
qed (simp_all add: rd_range_def dispatch_key_def diag_id_name_at_def diag_cmd_get_log_range_def dm_check_nhdlc_pkt_def
    ends_andthen memory_ends)

lemma tables_end:
  "copy_diag_ids es n k r \<noteq> Inl Diverged" "disable_log_items lt \<noteq> Inl Diverged" "set_all_msg_items w mt \<noteq> Inl Diverged"
proof -
  show "copy_diag_ids es n k r \<noteq> Inl Diverged"
    by (induction es arbitrary: n k r) (simp_all add: ends_andthen memory_ends)
  show "disable_log_items lt \<noteq> Inl Diverged" by (induction lt) (simp_all add: ends_andthen memory_ends)
  show "set_all_msg_items w mt \<noteq> Inl Diverged" by (induction mt) (simp_all add: ends_andthen memory_ends)
qed

lemma read_set_ends: "read_set ws s \<noteq> Inl Diverged"
  by (induction ws) (simp_all add: ends_andthen)

lemma find_res_ends: "(\<And>x. T x \<noteq> Inl Diverged) \<Longrightarrow> find_res T xs \<noteq> Inl Diverged"
  by (induction xs) (simp_all add: ends_andthen)

lemma devnodes_end:
  "devnode_get dev s \<noteq> Inl Diverged" "devnode_open opn rproc name s \<noteq> Inl Diverged"
  "open_channel opn rproc name other s \<noteq> Inl Diverged" "find_res (perif_named pname t) ps \<noteq> Inl Diverged"
proof -
  show "devnode_get dev s \<noteq> Inl Diverged"
    unfolding devnode_get_def by (rule find_res_ends) (rule memory_ends)
  show opened: "devnode_open opn rproc name s \<noteq> Inl Diverged" for name
    by (simp add: devnode_open_def ends_andthen find_res_ends memory_ends split: option.split)
  show "open_channel opn rproc name other s \<noteq> Inl Diverged" by (simp add: open_channel_def ends_andthen opened)
  show "find_res (perif_named pname t) ps \<noteq> Inl Diverged"
    by (rule find_res_ends) (simp add: perif_named_def ends_andthen memory_ends)
qed

lemmas yields_pure = memory_ends [THEN yields_any] reads_end [THEN yields_any] tables_end [THEN yields_any]
  read_set_ends [THEN yields_any] devnodes_end [THEN yields_any]

lemma deref_eq_Inr: "deref p = Inr x \<longleftrightarrow> p = Obj x"
  by (cases p) auto

lemma arr_read_eq_Inr: "arr_read xs i = Inr x \<longleftrightarrow> i < length xs \<and> x = xs ! i"
  by (auto simp: arr_read_def)

text \<open>
  The decoder needs a ring whose indices are in range in order to end, and then leaves one with
  fewer bytes. \<open>R\<close> says whether the rings of a state are considered at all.
\<close>

definition ring_ok :: "bool \<Rightarrow> circ_buf \<Rightarrow> bool" where
  "ring_ok R b \<longleftrightarrow> (R \<longrightarrow> circ_inv b)"

definition decodable :: "bool \<Rightarrow> nat \<Rightarrow> circ_buf \<Rightarrow> bool" where
  "decodable D n b \<longleftrightarrow> D \<or> circ_inv b \<and> circ_count b < n"

definition drained :: "nat \<Rightarrow> circ_buf \<Rightarrow> circ_buf \<Rightarrow> bool" where
  "drained n b b' \<longleftrightarrow> (circ_inv b \<longrightarrow> circ_inv b' \<and> circ_count b' < n)"

lemma ring_ok_simps [simp]: "ring_ok False b" "ring_ok R circ_empty" "ring_ok R (b\<lparr>buf := f\<rparr>) = ring_ok R b"
  using circ_empty_inv by (simp_all add: ring_ok_def) (simp add: circ_inv_def)

lemma decodable_ring: "D \<or> R \<Longrightarrow> ring_ok R b \<Longrightarrow> decodable D HDLC_BUF_SIZE b"
  using circ_count_less [of b] by (auto simp: ring_ok_def decodable_def)

lemma decodable_drained: "decodable D (Suc n) b \<Longrightarrow> drained (circ_count b) b b' \<Longrightarrow> decodable D n b'"
  by (auto simp: decodable_def drained_def)

lemma drained_ring: "drained n b b' \<Longrightarrow> ring_ok R b \<Longrightarrow> ring_ok R b'"
  by (auto simp: drained_def ring_ok_def)

lemma drained_refl: "circ_count b < n \<Longrightarrow> drained n b b"
  by (simp add: drained_def)

lemma drained_trans: "drained n b b1 \<Longrightarrow> drained k b1 b2 \<Longrightarrow> (circ_count b1 < n \<Longrightarrow> k \<le> m) \<Longrightarrow> drained m b b2"
  by (auto simp: drained_def)

lemma yields_decode:
  assumes "decodable D n b"
    and "\<And>d' b'. drained (max 1 (circ_count b)) b b' \<Longrightarrow> Q (None, d', b')"
    and "\<And>n d' b'. drained (circ_count b) b b' \<Longrightarrow> Q (Some n, d', b')"
  shows "yields D Q (hdlc_decode_one d b)"
proof (cases "circ_inv b")
  case inv: True
  have "Q (msg, d', b')" if res: "hdlc_decode_one d b = Inr (msg, d', b')" for msg d' b'
  proof -
    note prog = hdlc_decode_one_progress [OF inv, of d, THEN conjunct2, rule_format, OF res]
    show ?thesis
    proof (cases msg)
      case None
      have "drained (max 1 (circ_count b)) b b'"
        using prog length_contents [of b] by (cases "contents b = []") (auto simp: drained_def)
      with None show ?thesis by (simp add: assms(2))
    next
      case (Some n)
      with prog show ?thesis by (simp add: assms(3) drained_def)
    qed
  qed
  with hdlc_decode_one_progress [OF inv, of d] show ?thesis by (auto simp: yields_def)
next
  case False
  then have "Q (msg, d', b')" for msg d' b' using assms(2,3) by (cases msg) (simp_all add: drained_def)
  then show ?thesis using False assms(1) by (auto simp: yields_def decodable_def)
qed

lemma yields_circ_read:
  assumes "D \<or> R" and "ring_ok R b"
    and "\<And>r e b' es'. circ_read b es = Inr (r, e, b', es') \<Longrightarrow> ring_ok R b' \<Longrightarrow> Q (r, e, b', es')"
  shows "yields D Q (circ_read b es)"
proof (cases R)
  case True
  then have "circ_inv b" using assms(2) by (simp add: ring_ok_def)
  from circ_read_step [OF this, of es] show ?thesis
    by (auto simp: yields_def ring_ok_def intro!: assms(3))
qed (use assms(1) in \<open>auto simp: yields_def intro: assms(3)\<close>)

text \<open>A script that the receive loops come to the end of.\<close>

definition script_fits :: "bool \<Rightarrow> fd_event list \<Rightarrow> nat \<Rightarrow> bool" where
  "script_fits D es fuel \<longleftrightarrow> D \<or> Eof \<notin> set es \<and> script_size es < fuel"

definition ring_fits :: "bool \<Rightarrow> fd_event list \<Rightarrow> circ_buf \<Rightarrow> nat \<Rightarrow> bool" where
  "ring_fits D es b fuel \<longleftrightarrow>
     D \<or> Eof \<notin> set es \<and> script_size es + (if circ_space_to_end b = 0 then 1 else 0) < fuel"

lemma script_fits_read:
  "script_fits D es (Suc fuel) \<Longrightarrow> fd_read RAW_BUF_SIZE es = (Got bs, es') \<Longrightarrow> script_fits D es' fuel"
  using fd_read_progress [of es RAW_BUF_SIZE bs es'] by (fastforce simp: script_fits_def RAW_BUF_SIZE_def)

lemma ring_fits_read:
  assumes "D \<or> R" and "ring_fits D es b (Suc fuel)" and "ring_ok R b" and "circ_read b es = Inr (r, e, b1, es')"
    and "\<not> r < 0" and "drained (max 1 (circ_count b1)) b1 b'"
  shows "ring_fits D es' b' fuel"
proof (cases D)
  case False
  with assms(1-4,6) have fits: "Eof \<notin> set es" "script_size es + (if circ_space_to_end b = 0 then 1 else 0) < Suc fuel"
    and b: "circ_inv b" "circ_inv b'" "circ_count b' < max 1 (circ_count b1)"
    using circ_read_step [of b es] by (auto simp: ring_fits_def ring_ok_def drained_def)
  have "circ_count b' < HDLC_BUF_SIZE - 1" using b(3) circ_count_less [of b1] by (auto simp: HDLC_BUF_SIZE_def)
  from space_when_room [OF b(2) this] circ_read_progress [OF b(1) fits(1) assms(4)] fits(2) assms(4,5)
    circ_read_step [OF b(1), of es] show ?thesis
    by (auto simp: ring_fits_def split: if_splits)
qed (simp add: ring_fits_def)

definition data_ends :: "bool \<Rightarrow> fd_event list \<Rightarrow> bool" where
  "data_ends D es \<longleftrightarrow> D \<or> Eof \<notin> set es"

lemma data_fuel_fits:
  "script_fits D es (data_fuel es) = data_ends D es" "ring_fits D es b (data_fuel es) = data_ends D es"
  by (auto simp: data_ends_def script_fits_def ring_fits_def data_fuel_def script_size_def)

section \<open>Elementary changes\<close>

definition perif_flow :: "'z cntl_state_scheme \<Rightarrow> perif_id \<Rightarrow> flow_id option" where
  "perif_flow s = (\<lambda>p. case perifs s p of Obj perif \<Rightarrow> p_flow perif | _ \<Rightarrow> None)"

definition io_view ::
    "'z cntl_state_scheme \<Rightarrow>
     (queue_id \<Rightarrow> mbuf list) \<times> (flow_id \<Rightarrow> int) \<times> flow_id \<times> watch list \<times> nat \<times> (perif_id \<Rightarrow> flow_id option)" where
  "io_view s = (queues s, flows s, next_flow s, aio_watches s, length (clients s), perif_flow s)"

text \<open>The receive buffers of the clients and of the peripherals.\<close>

definition ring_view :: "'z cntl_state_scheme \<Rightarrow> circ_buf list \<times> (perif_id \<Rightarrow> circ_buf option)" where
  "ring_view s =
     (map cl_recv_buf (clients s), \<lambda>p. case perifs s p of Obj perif \<Rightarrow> Some (p_recv_buf perif) | _ \<Rightarrow> None)"

text \<open>All this, and the table of watches, stays; allocations may happen.\<close>

definition still :: "'z cntl_state_scheme \<Rightarrow> 'z cntl_state_scheme \<Rightarrow> bool" where
  "still s t \<longleftrightarrow> io_view t = io_view s \<and> ring_view t = ring_view s \<and> read_watches t = read_watches s \<and>
     alloc_no s \<le> alloc_no t"

lemma still_refl [simp]: "still s s"
  by (simp add: still_def)

section \<open>The tables stay in place\<close>

definition msg_entry_kept :: "nat \<Rightarrow> msg_mask_t \<Rightarrow> bool" where
  "msg_entry_kept i m \<longleftrightarrow> mm_ssid_first m = ssid_first_arr ! i \<and> mm_ssid_last m = ssid_last_arr ! i \<and>
     mm_range m = MAX_SSID_PER_RANGE \<and> (\<exists>p. mm_ptr m = Obj p)"

definition msg_table_kept :: "msg_mask_t list \<Rightarrow> bool" where
  "msg_table_kept tbl \<longleftrightarrow> length tbl = MSG_MASK_TBL_CNT \<and> (\<forall>i < MSG_MASK_TBL_CNT. msg_entry_kept i (tbl ! i))"

definition tables_wf :: "'z mask_state_scheme \<Rightarrow> bool" where
  "tables_wf s \<longleftrightarrow> mem_ok s \<and> log_masks_wf s \<and> event_masks_wf s \<and> build_masks_wf s \<and>
     (\<exists>tbl. mi_ptr (msg_mask s) = Obj tbl \<and> msg_table_kept tbl)"

lemma tables_wf_ready: "msg_masks_wf s \<Longrightarrow> log_masks_wf s \<Longrightarrow> event_masks_wf s \<Longrightarrow> build_masks_wf s \<Longrightarrow> tables_wf s"
  by (fastforce simp: tables_wf_def msg_masks_wf_def msg_table_wf_def msg_item_wf_def msg_table_kept_def msg_entry_kept_def)

lemma tables_set:
  "tables_wf s \<Longrightarrow> log_table_wf lt \<Longrightarrow> tables_wf (set_log_status st (set_log_table lt s))"
  "tables_wf s \<Longrightarrow> msg_table_kept mt \<Longrightarrow> tables_wf (set_msg_table mt s)"
  "tables_wf s \<Longrightarrow> tables_wf (set_msg_status st s)" "tables_wf s \<Longrightarrow> tables_wf (s\<lparr>alloc_no := k\<rparr>)"
  by (auto simp: tables_wf_def log_masks_wf_def event_masks_wf_def build_masks_wf_def set_log_status_def set_log_table_def
      set_msg_table_def set_msg_status_def mem_ok_def)

lemma disable_log_tables:
  assumes "tables_wf s" and "diag_cmd_disable_log s = Inr s'"
  shows "tables_wf s'"
proof -
  have "log_masks_wf s'" using disable_log_ok [of s] assms by (auto simp: tables_wf_def)
  with assms show ?thesis
    by (auto simp: diag_cmd_disable_log_def andthen_eq_Inr log_masks_wf_def intro!: tables_set)
qed

lemma set_log_mask_tables:
  assumes "tables_wf s" and "diag_cmd_set_log_mask e n p sz s = Inr (r, n', sz', s')"
  shows "tables_wf s'"
proof (cases "unat e < MAX_EQUIP_ID")
  case False
  with set_log_mask_unknown [of s e n p sz] assms show ?thesis by (auto simp: tables_wf_def)
next
  case True
  let ?size = "bits_to_bytes32 (log_capped n)"
  from assms(1) obtain tbl where tbl: "mi_ptr (log_mask s) = Obj tbl" "log_table_wf tbl"
    by (auto simp: tables_wf_def log_masks_wf_def)
  let ?m = "tbl ! unat e"
  from tbl True obtain q where q: "lm_ptr ?m = Obj q" "length q = 512" "lm_range_tools ?m = 512"
      "lm_range ?m = 512" "lm_equip_id ?m = of_nat (unat e)"
    by (auto simp: log_table_wf_def log_item_wf_def)
  have size: "\<not> ?size > 512" using log_size_le [OF log_capped_le, of n] by (simp add: word_less_nat_alt)
  have "diag_cmd_set_log_mask e n p sz s =
      andthen (rd_bytes p 0 (unat ?size)) (\<lambda>bits. andthen (store (replicate 512 0) 0 bits) (\<lambda>d.
        Inr (0, log_capped n, ?size, set_log_status DIAG_CTRL_MASK_VALID
          (set_log_table (tbl[unat e := ?m\<lparr>lm_num_items_tools := log_capped n, lm_ptr := Obj d\<rparr>]) s))))"
    using tbl True q size
    by (simp add: diag_cmd_set_log_mask_def log_index Let_def fill_ok flip: log_capped_def)
  with assms(2) obtain bits d where d: "store (replicate 512 0) 0 bits = Inr d"
    "s' = set_log_status DIAG_CTRL_MASK_VALID
       (set_log_table (tbl[unat e := ?m\<lparr>lm_num_items_tools := log_capped n, lm_ptr := Obj d\<rparr>]) s)"
    by (auto simp: andthen_eq_Inr)
  have "length d = 512" using d(1) by (auto simp: store_def split: if_splits)
  then have "log_item_wf (unat e) (?m\<lparr>lm_num_items_tools := log_capped n, lm_ptr := Obj d\<rparr>)"
    using q by (simp add: log_item_wf_def log_capped_le)
  from log_table_wf_update [OF tbl(2) True this] show ?thesis
    unfolding d(2) by (rule tables_set(1) [OF assms(1)])
qed

lemma msg_kept_update:
  "msg_table_kept tbl \<Longrightarrow> i < length tbl \<Longrightarrow> mm_ssid_first m = mm_ssid_first (tbl ! i) \<Longrightarrow>
   mm_ssid_last m = mm_ssid_last (tbl ! i) \<Longrightarrow> mm_range m = mm_range (tbl ! i) \<Longrightarrow> mm_ptr m = Obj p \<Longrightarrow>
   msg_table_kept (tbl[i := m])"
  by (auto simp: msg_table_kept_def msg_entry_kept_def nth_list_update)

lemma set_msg_mask_tables:
  assumes "tables_wf s" and "diag_cmd_set_msg_mask rng bits s = Inr (r, s')"
  shows "tables_wf s'"
proof -
  from assms(1) obtain tbl where tbl: "mi_ptr (msg_mask s) = Obj tbl" "msg_table_kept tbl" by (auto simp: tables_wf_def)
  let ?f = "ucast (ssid_first rng) :: u32"
  show ?thesis
  proof (cases "msg_slot ?f 0 (map mm_ssid_first tbl)")
    case None
    with assms tbl show ?thesis by (simp add: diag_cmd_set_msg_mask_def Let_def)
  next
    case (Some i)
    then have i: "i < length tbl" using msg_slot_Some [OF Some] by simp
    with tbl(2) obtain q where q: "mm_ptr (tbl ! i) = Obj q" by (auto simp: msg_table_kept_def msg_entry_kept_def)
    have copy: "tables_wf t'" if "msg_copy i item f num bits tbl t = Inr (r, t')" "tables_wf t" "mm_ptr item = Obj q'"
        "mm_ssid_first item = mm_ssid_first (tbl ! i)" "mm_ssid_last item = mm_ssid_last (tbl ! i)"
        "mm_range item = mm_range (tbl ! i)" for item f num t t' q'
      using that msg_kept_update [OF tbl(2) i]
      by (auto simp: msg_copy_def Let_def andthen_eq_Inr split: if_splits intro!: tables_set)
    show ?thesis
      using assms tbl(1) Some q msg_kept_update [OF tbl(2) i]
      by (auto simp: diag_cmd_set_msg_mask_def Let_def realloc32_def andthen_eq_Inr split: if_splits option.splits
          intro!: tables_set elim!: copy)
  qed
qed

lemma set_all_msg_items_kept:
  "set_all_msg_items w ms = Inr ms' \<Longrightarrow>
   list_all2 (\<lambda>m m'. \<exists>p. m' = m\<lparr>mm_ptr := Obj p\<rparr>) ms ms'"
  by (induction ms arbitrary: ms') (auto simp: andthen_eq_Inr)

lemma set_all_msg_mask_tables:
  assumes "tables_wf s" and "diag_cmd_set_all_msg_mask w s = Inr s'"
  shows "tables_wf s'"
proof -
  from assms obtain tbl tbl' st where tbl: "mi_ptr (msg_mask s) = Obj tbl" "msg_table_kept tbl"
    "set_all_msg_items w tbl = Inr tbl'" "s' = set_msg_status st (set_msg_table tbl' s)"
    by (auto simp: tables_wf_def diag_cmd_set_all_msg_mask_def andthen_eq_Inr)
  have "msg_table_kept tbl'"
    using set_all_msg_items_kept [OF tbl(3)] tbl(2)
    by (auto simp: msg_table_kept_def list_all2_conv_all_nth msg_entry_kept_def)
  with assms(1) tbl(4) show ?thesis by (auto intro!: tables_set)
qed

lemma event_tables:
  assumes "tables_wf s" and "mi_ptr (event_mask t) = Obj p" and "mi_mask_len (event_mask t) = int (length p)"
    and "bits_to_bytes16 (event_max_num_bits t) \<le> length p"
    and "alloc_ok t = alloc_ok s" and "log_mask t = log_mask s" and "msg_mask t = msg_mask s"
    and "msg_bt_mask t = msg_bt_mask s"
  shows "tables_wf t"
  using assms by (simp add: tables_wf_def log_masks_wf_def event_masks_wf_def build_masks_wf_def mem_ok_def)

lemma update_event_mask_tables:
  assumes "tables_wf s" and "diag_cmd_update_event_mask n p s = Inr (r, s')"
  shows "tables_wf s'"
proof (cases "rd_bytes p 0 (bits_to_bytes16 n)")
  case (Inr bits)
  from assms(1) have wf: "event_masks_wf s" "mem_ok s" by (simp_all add: tables_wf_def)
  have "event_masks_wf s'" using update_event_mask_ok [OF wf Inr] assms(2) by (auto simp: event_updated_def)
  with assms wf(2) show ?thesis
    by (auto simp: diag_cmd_update_event_mask_def realloc_def Let_def andthen_eq_Inr event_masks_wf_def
        split: if_splits pointer.splits option.splits intro!: event_tables [OF assms(1)])
next
  case (Inl f)
  with assms show ?thesis
    by (auto simp: diag_cmd_update_event_mask_def realloc_def Let_def andthen_eq_Inr tables_wf_def
        split: if_splits pointer.splits option.splits)
qed

lemma toggle_events_tables:
  assumes "tables_wf s" and "diag_cmd_toggle_events b s = Inr s'"
  shows "tables_wf s'"
proof -
  have "event_masks_wf s'" using toggle_events_ok [of s b] assms by (auto simp: tables_wf_def)
  with assms(2) show ?thesis
    by (auto simp: diag_cmd_toggle_events_def andthen_eq_Inr event_masks_wf_def intro!: event_tables [OF assms(1)])
qed

text \<open>The tables after \<^verbatim>\<open>diag_masks_init\<close>; it succeeds when memory does not run out.\<close>

lemma masks_init_tables:
  assumes "mem_ok s" and "diag_masks_init s = Inr (r, s')"
  shows "tables_wf s'"
  using masks_init_ready [OF assms(1)] assms(2) by (auto intro: tables_wf_ready)

section \<open>What moves messages is left alone\<close>

locale mask_frame =
  fixes P :: "'z usb_state_scheme \<Rightarrow> bool"
  assumes view: "still s s' \<Longrightarrow> P s \<Longrightarrow> P s'"
begin

lemma alloc [simp]: "P s \<Longrightarrow> alloc_no s \<le> k \<Longrightarrow> P (s\<lparr>alloc_no := k\<rparr>)"
  by (rule view) (simp_all add: still_def io_view_def ring_view_def perif_flow_def)

lemma same_both: "still s t \<Longrightarrow> still t s \<Longrightarrow> P t = P s"
  using view by blast

lemma same [simp]:
  "P (s\<lparr>msg_mask := x1\<rparr>) = P s" "P (s\<lparr>msg_bt_mask := x2\<rparr>) = P s"
  "P (s\<lparr>log_mask := x3\<rparr>) = P s" "P (s\<lparr>event_mask := x4\<rparr>) = P s" "P (s\<lparr>event_max_num_bits := x5\<rparr>) = P s"
  by (rule same_both; simp add: still_def io_view_def ring_view_def perif_flow_def)+

lemma set_tables_same [simp]:
  "P (set_log_table t s) = P s" "P (set_log_status st s) = P s"
  "P (set_msg_table tm s) = P s" "P (set_msg_status st s) = P s"
  by (simp_all add: set_log_table_def set_log_status_def set_msg_table_def set_msg_status_def)

lemma diag_cmd_disable_log:
  assumes "P s" and post: "\<And>s'. P s' \<Longrightarrow> Q s'"
  shows "yields D Q (diag_cmd_disable_log s)"
  using assms(1) by (auto simp: diag_cmd_disable_log_def intro!: yields_pure post)

lemma diag_cmd_set_log_mask:
  assumes "P s" and post: "\<And>r n z s'. P s' \<Longrightarrow> Q (r, n, z, s')"
  shows "yields D Q (diag_cmd_set_log_mask e n bits z s)"
  using assms(1)
  by (auto simp: diag_cmd_set_log_mask_def realloc_def Let_def split: option.splits intro!: yields_pure post)

lemma msg_copy:
  assumes "P s" and post: "\<And>r s'. P s' \<Longrightarrow> Q (r, s')"
  shows "yields D Q (msg_copy i item first num bits tbl s)"
  using assms(1) by (auto simp: msg_copy_def Let_def intro!: yields_pure post)

lemma diag_cmd_set_msg_mask:
  assumes "P s" and post: "\<And>r s'. P s' \<Longrightarrow> Q (r, s')"
  shows "yields D Q (diag_cmd_set_msg_mask rng bits s)"
  using assms(1)
  by (auto simp: diag_cmd_set_msg_mask_def realloc32_def Let_def split: option.splits intro!: yields_pure msg_copy post)

lemma diag_cmd_set_all_msg_mask:
  assumes "P s" and post: "\<And>s'. P s' \<Longrightarrow> Q s'"
  shows "yields D Q (diag_cmd_set_all_msg_mask w s)"
  using assms(1) by (auto simp: diag_cmd_set_all_msg_mask_def intro!: yields_pure post)

lemma diag_cmd_update_event_mask:
  assumes "P s" and post: "\<And>r s'. P s' \<Longrightarrow> Q (r, s')"
  shows "yields D Q (diag_cmd_update_event_mask n bits s)"
  using assms(1)
  by (auto simp: diag_cmd_update_event_mask_def realloc_def Let_def split: option.splits pointer.splits
      intro!: yields_pure post)

lemma diag_cmd_toggle_events:
  assumes "P s" and post: "\<And>s'. P s' \<Longrightarrow> Q s'"
  shows "yields D Q (diag_cmd_toggle_events b s)"
  using assms(1) by (auto simp: diag_cmd_toggle_events_def intro!: yields_pure post)

lemma diag_mask_init: "diag_mask_init mi n k z s = (r, mi', t) \<Longrightarrow> P s \<Longrightarrow> P t"
  by (auto simp: diag_mask_init_def malloc_def Let_def split: if_splits)

lemma create_msg_masks:
  assumes "P s" and post: "\<And>r ms s'. P s' \<Longrightarrow> Q (r, ms, s')"
  shows "yields D Q (create_msg_masks i ms s)"
proof -
  have entry: "yields D R (diag_create_msg_mask_table_entry i m s)" if "P s" "\<And>r m' s'. P s' \<Longrightarrow> R (r, m', s')" for R i m s
    using that(1)
    by (auto simp: diag_create_msg_mask_table_entry_def malloc_def Let_def intro!: yields_pure that(2))
  show ?thesis
    using assms
  proof (induction ms arbitrary: i s Q)
    case (Cons m ms)
    show ?case
      using Cons.prems(1) by (auto intro!: entry Cons.IH Cons.prems(2))
  qed simp
qed

lemma create_log_masks:
  assumes "P s" and post: "\<And>r ms s'. P s' \<Longrightarrow> Q (r, ms, s')"
  shows "yields D Q (create_log_masks i ms s)"
  using assms
  by (induction ms arbitrary: i s Q) (auto simp: malloc_def Let_def intro!: yields_pure)

lemma mask_inits:
  assumes "P s" and post: "\<And>r s'. P s' \<Longrightarrow> Q (r, s')"
  shows "yields D Q (diag_msg_mask_init s)" "yields D Q (diag_build_time_mask_init s)" "yields D Q (diag_log_mask_init s)"
    "yields D Q (diag_event_mask_init s)"
  using assms(1)
  by (auto simp: diag_msg_mask_init_def diag_create_msg_mask_table_def diag_build_time_mask_init_def
      diag_create_build_time_mask_def diag_log_mask_init_def diag_create_log_mask_table_def diag_event_mask_init_def
      Let_def split: prod.splits pointer.splits dest!: diag_mask_init intro!: yields_pure create_msg_masks create_log_masks post)

lemma diag_masks_exit:
  assumes "P s" and post: "\<And>s'. P s' \<Longrightarrow> Q s'"
  shows "yields D Q (diag_masks_exit s)"
  using assms(1)
  by (auto simp: diag_masks_exit_def diag_msg_mask_exit_def diag_build_time_mask_exit_def diag_log_mask_exit_def
      diag_event_mask_exit_def intro!: yields_pure post)

lemma diag_masks_init:
  assumes "P s" and post: "\<And>r s'. P s' \<Longrightarrow> Q (r, s')"
  shows "yields D Q (diag_masks_init s)"
  using assms(1) by (auto simp: diag_masks_init_def Let_def intro!: mask_inits diag_masks_exit post)

end

text \<open>So each of them leaves the view as it was.\<close>

interpretation framed: mask_frame "still s" for s
  by unfold_locales (simp add: still_def)

end
