(* ===== verification/Handler_Frames.thy ===== *)
theory Handler_Frames
  imports Mask_Frames
begin

text \<open>
  What every part of the router may do to the part of the state that moves messages: the
  queues, the flow control counts, the watches that write and read them, the number of
  clients and the flow of each peripheral. A predicate that the few elementary changes keep
  is kept by every callback, by a turn of the event loop and by the start of the router;
  this is proved once, in the locale below, function by function.
\<close>

text \<open>With the tables of masks, which few operations change.\<close>

definition frame_view ::
    "'z cntl_state_scheme \<Rightarrow>
     ((queue_id \<Rightarrow> mbuf list) \<times> (flow_id \<Rightarrow> int) \<times> flow_id \<times> watch list \<times> nat \<times> (perif_id \<Rightarrow> flow_id option)) \<times>
     (nat \<Rightarrow> bool) \<times> msg_mask_t list mask_info \<times> msg_mask_t list mask_info \<times> log_mask_t list mask_info \<times>
     u8 list mask_info \<times> u16 \<times> (circ_buf list \<times> (perif_id \<Rightarrow> circ_buf option)) \<times> watch list \<times> nat" where
  "frame_view s =
     (io_view s, alloc_ok s, msg_mask s, msg_bt_mask s, log_mask s, event_mask s, event_max_num_bits s, ring_view s,
      read_watches s, alloc_no s)"

definition flow_known :: "flow_id option \<Rightarrow> 'z flow_state_scheme \<Rightarrow> bool" where
  "flow_known flow s \<longleftrightarrow> (case flow of None \<Rightarrow> True | Some f \<Rightarrow> f < next_flow s)"

text \<open>Only clients are sent messages that count against a flow.\<close>

definition may_push :: "queue_id \<Rightarrow> flow_id option \<Rightarrow> 'z dm_state_scheme \<Rightarrow> bool" where
  "may_push q flow s \<longleftrightarrow> flow_known flow s \<and>
     (case q of ClientOutq c \<Rightarrow> c < length (clients s) | _ \<Rightarrow> flow = None)"

text \<open>The queue of a client that is not there yet, or of a peripheral or USB handle.\<close>

definition fresh_queue :: "queue_id \<Rightarrow> 'z dm_state_scheme \<Rightarrow> bool" where
  "fresh_queue q s \<longleftrightarrow> (case q of ClientOutq c \<Rightarrow> length (clients s) \<le> c | _ \<Rightarrow> True)"

definition watch_shape :: "watch \<Rightarrow> bool" where
  "watch_shape w \<longleftrightarrow>
     (case w_complete w of
        Some AioFreeWrite \<Rightarrow> w_is_write w \<and> w_queue w \<noteq> None
      | Some (AioFfsRecv h) \<Rightarrow> \<not> w_is_write w \<and> w_queue w = Some (UsbOutq h)
      | None \<Rightarrow> False)"

text \<open>The message that goes back to a USB handle's queue is empty.\<close>

definition usb_sized :: "queue_id \<Rightarrow> mbuf \<Rightarrow> bool" where
  "usb_sized q m \<longleftrightarrow> (case q of UsbOutq h \<Rightarrow> unat (m_offset m) < HDLC_BUF_SIZE | _ \<Rightarrow> True)"

text \<open>
  \<open>D\<close> says whether loops over received bytes may go on for ever, \<open>R\<close> whether rings are part of
  the predicate; they have to be if loops are to end. \<open>A\<close> and \<open>B\<close> say which watches may be added to the two tables.
\<close>

locale io_pred =
  fixes P :: "'z usb_state_scheme \<Rightarrow> bool" and D :: bool and R :: bool and A :: "read_cb \<Rightarrow> bool" and B :: "queue_id \<Rightarrow> bool"
  assumes mode: "D \<or> R"
    and view: "frame_view s' = frame_view s \<Longrightarrow> P s' \<longleftrightarrow> P s"
    and client_ring: "P s \<Longrightarrow> c < length (clients s) \<Longrightarrow> ring_ok R (client_buf c s)"
    and perif_ring: "P s \<Longrightarrow> perifs s p = Obj perif \<Longrightarrow> ring_ok R (p_recv_buf perif)"
    and alloc: "P s \<Longrightarrow> alloc_no s \<le> k \<Longrightarrow> P (s\<lparr>alloc_no := k\<rparr>)"
    and tables: "P s \<Longrightarrow> still s s' \<Longrightarrow> (tables_wf s \<Longrightarrow> tables_wf s') \<Longrightarrow> P s'"
    and push: "P s \<Longrightarrow> may_push q (m_flow m) s \<Longrightarrow> usb_sized q m \<Longrightarrow> P (enqueue q m (watch_flow_inc (m_flow m) s))"
    and known: "P s \<Longrightarrow> flow_known (perif_flow s p) s"
    and new_flow: "P s \<Longrightarrow> P (s\<lparr>flows := (flows s)(next_flow s := 0), next_flow := Suc (next_flow s)\<rparr>)"
    and new_perif: "P s \<Longrightarrow> flow_known (p_flow perif) s \<Longrightarrow> ring_ok R (p_recv_buf perif) \<Longrightarrow>
      P (s\<lparr>perifs := (perifs s)(p := Obj perif)\<rparr>)"
    and free_perif: "P s \<Longrightarrow> P (s\<lparr>perifs := (perifs s)(p := Freed)\<rparr>)"
    and empty_queue: "P s \<Longrightarrow> fresh_queue q s \<Longrightarrow>
      ms = [] \<or> (\<exists>h. q = UsbOutq h) \<and> (\<forall>m \<in> set ms. m_flow m = None \<and> m_offset m = 0) \<Longrightarrow>
      P (s\<lparr>queues := (queues s)(q := ms)\<rparr>)"
    and new_watch: "P s \<Longrightarrow> w_queue w = Some q \<Longrightarrow> B q \<Longrightarrow> fresh_queue q s \<Longrightarrow> w_pending w = None \<Longrightarrow> watch_shape w \<Longrightarrow>
      w_addr w = alloc_no s \<Longrightarrow> P (s\<lparr>alloc_no := Suc (alloc_no s), aio_watches := aio_watches s @ [w]\<rparr>)"
    and no_watch: "P s \<Longrightarrow> P (s\<lparr>aio_watches := filter T (aio_watches s)\<rparr>)"
    and new_reader: "P s \<Longrightarrow> w_cb w = Some cb \<Longrightarrow> A cb \<Longrightarrow> w_addr w = alloc_no s \<Longrightarrow>
      P (s\<lparr>alloc_no := Suc (alloc_no s), read_watches := read_watches s @ [w]\<rparr>)"
    and no_reader: "P s \<Longrightarrow> P (s\<lparr>read_watches := filter T (read_watches s)\<rparr>)"
    and new_client: "P s \<Longrightarrow> ring_ok R (cl_recv_buf cl) \<Longrightarrow> P (s\<lparr>clients := clients s @ [cl]\<rparr>)"
    and new_ring: "P s \<Longrightarrow> c < length (clients s) \<Longrightarrow> ring_ok R b \<Longrightarrow> P (set_client_buf c b s)"
begin

lemma same [simp]:
  "P (s\<lparr>clock := x1\<rparr>) = P s" "P (s\<lparr>timers := x2\<rparr>) = P s"
  "P (s\<lparr>quit_watches := x4\<rparr>) = P s" "P (s\<lparr>do_watch_quit := x5\<rparr>) = P s"
  "P (s\<lparr>bad_cmd_counter := y1\<rparr>) = P s"
  "P (s\<lparr>next_perif := y2\<rparr>) = P s" "P (s\<lparr>peripherals := y3\<rparr>) = P s" "P (s\<lparr>diag_cmds := y4\<rparr>) = P s"
  "P (s\<lparr>diag_ids := y5\<rparr>) = P s" "P (s\<lparr>diag_id_static := y6\<rparr>) = P s" "P (s\<lparr>common_cmds := y7\<rparr>) = P s"
  "P (s\<lparr>fallback_cmds := y8\<rparr>) = P s" "P (s\<lparr>devnodes := y9\<rparr>) = P s" "P (s\<lparr>qrtr_calls := z0\<rparr>) = P s"
  "P (s\<lparr>usb_handles := z1\<rparr>) = P s"
  by (rule view; simp add: frame_view_def io_view_def perif_flow_def ring_view_def)+

declare alloc [simp]

lemma same_clients: "map cl_recv_buf cs = map cl_recv_buf (clients s) \<Longrightarrow> P (s\<lparr>clients := cs\<rparr>) = P s"
  by (rule view) (auto simp: frame_view_def io_view_def perif_flow_def ring_view_def dest: map_eq_imp_length_eq)

lemma set_client_same [simp]: "(\<And>cl. cl_recv_buf (f cl) = cl_recv_buf cl) \<Longrightarrow> P (set_client c f s) = P s"
  unfolding set_client_def
  by (rule same_clients) (cases "c < length (clients s)"; simp add: map_update list_update_same_conv list_update_beyond)

lemma set_encode_type_same [simp]: "P (set_encode_type ty s) = P s"
  by (simp add: set_encode_type_def same_clients comp_def if_distrib [of cl_recv_buf] cong: if_cong)

lemma fold_yields:
  "(\<And>x s. x \<in> set xs \<Longrightarrow> I s \<Longrightarrow> yields D I (f x s)) \<Longrightarrow> I s \<Longrightarrow> (\<And>s'. I s' \<Longrightarrow> Q s') \<Longrightarrow> yields D Q (fold_res f xs s)"
proof (induction xs arbitrary: s)
  case (Cons x xs)
  have "yields D I (f x s)" using Cons.prems by simp
  then show ?case
    by (auto elim!: yields_mono intro!: Cons.IH Cons.prems)
qed simp

section \<open>Queues and clients\<close>

definition kept :: "'z usb_state_scheme \<Rightarrow> 'z usb_state_scheme \<Rightarrow> bool" where
  "kept s s' \<longleftrightarrow> next_flow s' = next_flow s \<and> length (clients s') = length (clients s)"

lemma kept_refl [simp]: "kept s s"
  by (simp add: kept_def)

lemma kept_trans: "kept s t \<Longrightarrow> kept t u \<Longrightarrow> kept s u"
  by (simp add: kept_def)

lemma kept_flow_known: "kept s s' \<Longrightarrow> flow_known flow s' = flow_known flow s"
  by (simp add: kept_def flow_known_def split: option.splits)

lemma kept_simps [simp]:
  "kept s (t\<lparr>alloc_no := k\<rparr>) = kept s t" "kept (s\<lparr>alloc_no := k\<rparr>) t = kept s t"
  "kept s (enqueue q m t) = kept s t" "kept s (watch_flow_inc f t) = kept s t"
  by (auto simp: kept_def enqueue_def watch_flow_inc_def split: option.splits)

lemma may_push_alloc [simp]: "may_push q f (s\<lparr>alloc_no := k\<rparr>) = may_push q f s"
  by (simp add: may_push_def flow_known_def split: option.splits queue_id.splits)

lemma flow_known_alloc [simp]: "flow_known f (s\<lparr>alloc_no := k\<rparr>) = flow_known f s"
  by (simp add: flow_known_def split: option.splits)

lemma pushes: "P s \<Longrightarrow> may_push q flow s \<Longrightarrow> m_flow m = flow \<Longrightarrow> \<forall>h. q \<noteq> UsbOutq h \<Longrightarrow> P (enqueue q m (watch_flow_inc flow s))"
  using push [of s q m] by (simp add: usb_sized_def split: queue_id.splits)

lemma queue_push_flow:
  assumes "P s" and "may_push q flow s" and "\<forall>h. q \<noteq> UsbOutq h" and post: "\<And>s'. P s' \<Longrightarrow> kept s s' \<Longrightarrow> Q s'"
  shows "yields D Q (queue_push_flow q msg flow s)"
  using assms(1-3)
  by (auto simp: queue_push_flow_def mbuf_alloc_eq split: option.splits prod.splits intro!: yields_pure pushes post)

lemma queue_push:
  "P s \<Longrightarrow> (\<And>c. q \<noteq> ClientOutq c) \<Longrightarrow> (\<And>h. q \<noteq> UsbOutq h) \<Longrightarrow> (\<And>s'. P s' \<Longrightarrow> kept s s' \<Longrightarrow> Q s') \<Longrightarrow> yields D Q (queue_push q msg s)"
  unfolding queue_push_def
  by (rule queue_push_flow) (auto simp: may_push_def flow_known_def split: queue_id.splits)

lemma queue_push_nhdlc_flow:
  assumes "P s" and "may_push q flow s" and "\<forall>h. q \<noteq> UsbOutq h" and post: "\<And>s'. P s' \<Longrightarrow> kept s s' \<Longrightarrow> Q s'"
  shows "yields D Q (queue_push_nhdlc_flow q msg flow s)"
  using assms(1-3)
  by (auto simp: queue_push_nhdlc_flow_def mbuf_alloc_eq Let_def split: option.splits prod.splits
      intro!: yields_pure pushes post)

lemma hdlc_enqueue_flow:
  assumes "P s" and "may_push q flow s" and "\<forall>h. q \<noteq> UsbOutq h" and post: "\<And>s'. P s' \<Longrightarrow> kept s s' \<Longrightarrow> Q s'"
  shows "yields D Q (hdlc_enqueue_flow q msg flow s)"
  using assms(1-3)
  by (auto simp: hdlc_enqueue_flow_def hdlc_encode_spec split: option.splits prod.splits intro!: queue_push_flow post)

lemma hdlc_enqueue:
  "P s \<Longrightarrow> (\<And>c. q \<noteq> ClientOutq c) \<Longrightarrow> (\<And>h. q \<noteq> UsbOutq h) \<Longrightarrow> (\<And>s'. P s' \<Longrightarrow> kept s s' \<Longrightarrow> Q s') \<Longrightarrow> yields D Q (hdlc_enqueue q msg s)"
  unfolding hdlc_enqueue_def
  by (rule hdlc_enqueue_flow) (auto simp: may_push_def flow_known_def split: queue_id.splits)

lemma dm_send_flow:
  assumes "P s" and "flow_known flow s" and post: "\<And>r s'. P s' \<Longrightarrow> kept s s' \<Longrightarrow> Q (r, s')"
  shows "yields D Q (dm_send_flow dm msg flow s)"
  using assms(1,2)
  by (auto simp: dm_send_flow_def may_push_def arr_read_eq_Inr split: option.splits
      intro!: yields_pure queue_push_flow hdlc_enqueue_flow queue_push_nhdlc_flow post)

lemma dm_send: "P s \<Longrightarrow> (\<And>r s'. P s' \<Longrightarrow> kept s s' \<Longrightarrow> Q (r, s')) \<Longrightarrow> yields D Q (dm_send dm msg s)"
  unfolding dm_send_def by (rule dm_send_flow) (simp_all add: flow_known_def)

lemma dm_broadcast:
  assumes "P s" and "flow_known flow s" and "\<And>s'. P s' \<Longrightarrow> kept s s' \<Longrightarrow> Q s'"
  shows "yields D Q (dm_broadcast msg flow s)"
  unfolding dm_broadcast_def
  by (rule fold_yields [where I = "\<lambda>t. P t \<and> kept s t"])
    (use assms in \<open>auto simp: kept_flow_known intro!: dm_send_flow elim: kept_trans\<close>)

lemma broadcast_from:
  assumes "P s" and "flow_known flow s" and post: "\<And>s'. P s' \<Longrightarrow> kept s s' \<Longrightarrow> Q s'"
  shows "yields D Q (broadcast_from m n flow s)"
  using assms(1,2) by (auto simp: broadcast_from_def intro!: yields_pure dm_broadcast post)

lemma non_hdlc_recv:
  assumes "P s" and "flow_known flow s" and post: "\<And>s'. P s' \<Longrightarrow> kept s s' \<Longrightarrow> Q s'"
  shows "yields D Q (non_hdlc_recv m n flow s)"
  using assms(1,2) by (auto simp: non_hdlc_recv_def intro!: yields_pure broadcast_from post)

section \<open>Masks\<close>

text \<open>An operation on the tables, by what the mask theories say of it.\<close>

lemma by_tables:
  assumes "P s" and "yields D (\<lambda>r. still s (st r)) m"
    and "\<And>r. tables_wf s \<Longrightarrow> m = Inr r \<Longrightarrow> tables_wf (st r)" and "\<And>r. P (st r) \<Longrightarrow> Q r"
  shows "yields D Q m"
  using tables [OF assms(1)] assms(2-4) by (auto simp: yields_def)

lemma diag_cmd_disable_log:
  assumes "P s" and post: "\<And>s'. P s' \<Longrightarrow> Q s'"
  shows "yields D Q (diag_cmd_disable_log s)"
  by (rule by_tables [where st = "\<lambda>r. r", OF assms(1)]) (auto intro!: framed.diag_cmd_disable_log intro: disable_log_tables post)

lemma diag_cmd_set_log_mask:
  assumes "P s" and post: "\<And>r n z s'. P s' \<Longrightarrow> Q (r, n, z, s')"
  shows "yields D Q (diag_cmd_set_log_mask e n bits z s)"
  by (rule by_tables [where st = "\<lambda>(_, _, _, t). t", OF assms(1)]) (auto intro!: framed.diag_cmd_set_log_mask intro: set_log_mask_tables post)

lemma diag_cmd_get_log_mask:
  assumes "P s" and post: "\<And>r n out z s'. P s' \<Longrightarrow> Q (r, n, out, z, s')"
  shows "yields D Q (diag_cmd_get_log_mask e n bits z s)"
  using assms(1)
  by (auto simp: diag_cmd_get_log_mask_def malloc_def Let_def split: option.splits intro!: yields_pure post)

lemma diag_cmd_get_ssid_range:
  assumes "P s" and post: "\<And>n out s'. P s' \<Longrightarrow> Q (n, out, s')"
  shows "yields D Q (diag_cmd_get_ssid_range s)"
  using assms(1)
  by (auto simp: diag_cmd_get_ssid_range_def malloc_def Let_def split: option.splits intro!: yields_pure post)

lemma diag_cmd_get_build_mask:
  assumes "P s" and post: "\<And>r rng out s'. P s' \<Longrightarrow> Q (r, rng, out, s')"
  shows "yields D Q (diag_cmd_get_build_mask rng out s)"
  using assms(1)
  by (auto simp: diag_cmd_get_build_mask_def malloc_def Let_def split: option.splits intro!: yields_pure post)

lemma diag_cmd_get_msg_mask:
  assumes "P s" and post: "\<And>r rng out s'. P s' \<Longrightarrow> Q (r, rng, out, s')"
  shows "yields D Q (diag_cmd_get_msg_mask rng out s)"
  using assms(1)
  by (auto simp: diag_cmd_get_msg_mask_def malloc_def Let_def split: option.splits intro!: yields_pure post)

lemma diag_cmd_set_msg_mask:
  assumes "P s" and post: "\<And>r s'. P s' \<Longrightarrow> Q (r, s')"
  shows "yields D Q (diag_cmd_set_msg_mask rng bits s)"
  by (rule by_tables [where st = "snd", OF assms(1)]) (auto intro!: framed.diag_cmd_set_msg_mask intro: set_msg_mask_tables post)

lemma diag_cmd_set_all_msg_mask:
  assumes "P s" and post: "\<And>s'. P s' \<Longrightarrow> Q s'"
  shows "yields D Q (diag_cmd_set_all_msg_mask w s)"
  by (rule by_tables [where st = "\<lambda>r. r", OF assms(1)]) (auto intro!: framed.diag_cmd_set_all_msg_mask intro: set_all_msg_mask_tables post)

lemma diag_cmd_get_event_mask:
  assumes "P s" and post: "\<And>r out s'. P s' \<Longrightarrow> Q (r, out, s')"
  shows "yields D Q (diag_cmd_get_event_mask n out s)"
  using assms(1)
  by (auto simp: diag_cmd_get_event_mask_def malloc_def Let_def split: option.splits intro!: yields_pure post)

lemma diag_cmd_update_event_mask:
  assumes "P s" and post: "\<And>r s'. P s' \<Longrightarrow> Q (r, s')"
  shows "yields D Q (diag_cmd_update_event_mask n bits s)"
  by (rule by_tables [where st = "snd", OF assms(1)]) (auto intro!: framed.diag_cmd_update_event_mask intro: update_event_mask_tables post)

lemma diag_cmd_toggle_events:
  assumes "P s" and post: "\<And>s'. P s' \<Longrightarrow> Q s'"
  shows "yields D Q (diag_cmd_toggle_events b s)"
  by (rule by_tables [where st = "\<lambda>r. r", OF assms(1)]) (auto intro!: framed.diag_cmd_toggle_events intro: toggle_events_tables post)

section \<open>The control channel\<close>

lemma set_perif_same:
  "perifs s p = Obj old \<Longrightarrow> p_flow perif = p_flow old \<Longrightarrow> p_recv_buf perif = p_recv_buf old \<Longrightarrow> P (set_perif p perif s) = P s"
  by (rule view) (auto simp: frame_view_def io_view_def perif_flow_def ring_view_def set_perif_def)

lemma register_ranges:
  assumes "P s" and post: "\<And>r s'. P s' \<Longrightarrow> Q (r, s')"
  shows "yields D Q (register_ranges p pkt i n s)"
  using assms(1)
  by (induction n arbitrary: i s) (auto simp: malloc_def Let_def split: option.splits intro!: yields_pure post)

lemma deregister_ranges:
  assumes "P s" and post: "\<And>r s'. P s' \<Longrightarrow> Q (r, s')"
  shows "yields D Q (deregister_ranges p pkt i n s)"
  using assms(1) by (induction n arbitrary: i s) (auto simp: Let_def intro!: yields_pure post)

lemma diag_cntl_close_same [simp]: "P (diag_cntl_close p s) = P s"
  by (simp add: diag_cntl_close_def)

lemma diag_cntl_send_log_mask:
  assumes "P s" and post: "\<And>s'. P s' \<Longrightarrow> Q s'"
  shows "yields D Q (diag_cntl_send_log_mask p e s)"
  using assms(1)
  by (auto simp: diag_cntl_send_log_mask_def alloca_def Let_def split: option.splits
      intro!: yields_pure diag_cmd_get_log_mask queue_push post)

lemma diag_cntl_send_msg_mask:
  assumes "P s" and post: "\<And>r s'. P s' \<Longrightarrow> Q (r, s')"
  shows "yields D Q (diag_cntl_send_msg_mask p rng s)"
  using assms(1)
  by (auto simp: diag_cntl_send_msg_mask_def alloca_def Let_def split: option.splits
      intro!: yields_pure diag_cmd_get_msg_mask queue_push post)

lemma diag_cntl_send_masks:
  assumes "P s" and "\<And>s'. P s' \<Longrightarrow> Q s'"
  shows "yields D Q (diag_cntl_send_masks p s)"
  unfolding diag_cntl_send_masks_def
  by (rule fold_yields [where I = P]) (use assms in \<open>auto intro!: diag_cntl_send_msg_mask\<close>)

lemma diag_cntl_send_event_mask:
  assumes "P s" and post: "\<And>s'. P s' \<Longrightarrow> Q s'"
  shows "yields D Q (diag_cntl_send_event_mask p s)"
  using assms(1)
  by (auto simp: diag_cntl_send_event_mask_def alloca_def Let_def split: option.splits
      intro!: yields_pure diag_cmd_get_event_mask queue_push post)

lemma diag_cntl_set_diag_mode:
  assumes "P s" and post: "\<And>s'. P s' \<Longrightarrow> Q s'"
  shows "yields D Q (diag_cntl_set_diag_mode p real_time s)"
  using assms(1) by (auto simp: diag_cntl_set_diag_mode_def Let_def intro!: yields_pure queue_push post)

lemma diag_cntl_set_buffering_mode:
  assumes "P s" and post: "\<And>s'. P s' \<Longrightarrow> Q s'"
  shows "yields D Q (diag_cntl_set_buffering_mode p mode s)"
  using assms(1) by (auto simp: diag_cntl_set_buffering_mode_def Let_def intro!: yields_pure queue_push post)

lemma diag_cntl_send_feature_mask:
  assumes "P s" and post: "\<And>s'. P s' \<Longrightarrow> Q s'"
  shows "yields D Q (diag_cntl_send_feature_mask p features s)"
  using assms(1)
  by (auto simp: diag_cntl_send_feature_mask_def alloca_def Let_def
      intro!: yields_pure queue_push diag_cntl_send_masks diag_cntl_set_diag_mode diag_cntl_set_buffering_mode post)

lemma diag_cntl_feature_mask:
  assumes "P s" and post: "\<And>r s'. P s' \<Longrightarrow> Q (r, s')"
  shows "yields D Q (diag_cntl_feature_mask p pkt s)"
  using assms(1)
  by (auto simp: diag_cntl_feature_mask_def Let_def deref_eq_Inr set_perif_same
      intro!: yields_pure diag_cntl_send_feature_mask post)

lemma register_diag_id_same: "register_diag_id i name n s = (r, s') \<Longrightarrow> P s \<Longrightarrow> P s'"
  by (auto simp: register_diag_id_def malloc_def split: option.splits if_splits)

lemma diag_cntl_process_diag_id:
  assumes "P s" and post: "\<And>r s'. P s' \<Longrightarrow> Q (r, s')"
  shows "yields D Q (diag_cntl_process_diag_id p pkt n s)"
  using assms(1)
  by (auto simp: diag_cntl_process_diag_id_def Let_def split: option.splits prod.splits
      dest!: register_diag_id_same intro!: yields_pure queue_push post)

lemma diag_cntl_handle:
  assumes "P s" and post: "\<And>r s'. P s' \<Longrightarrow> Q (r, s')"
  shows "yields D Q (diag_cntl_handle p cmd pkt n s)"
  using assms(1)
  by (auto simp: diag_cntl_handle_def diag_cntl_register_def diag_cntl_deregister_def
      intro!: yields_pure register_ranges deregister_ranges diag_cntl_feature_mask diag_cntl_process_diag_id post)

lemma diag_cntl_recv:
  assumes "P s" and post: "\<And>r s'. P s' \<Longrightarrow> Q (r, s')"
  shows "yields D Q (diag_cntl_recv p rb n s)"
proof -
  have "P s \<Longrightarrow> yields D Q (diag_cntl_recv_from p rb n offset s)" for offset
  proof (induction p rb n offset s rule: diag_cntl_recv_from.induct)
    case (1 p rb n offset s)
    have step: "yields D T (diag_cntl_handle p cmd pkt n s)"
      if "\<And>r t. diag_cntl_handle p cmd pkt n s = Inr (r, t) \<Longrightarrow> P t \<Longrightarrow> T (r, t)" for T cmd pkt
      by (rule yields_strengthen [OF diag_cntl_handle [OF 1(2), where Q = "\<lambda>(_, t). P t"]]) (use that in auto)
    show ?case
      by (subst diag_cntl_recv_from.simps) (use 1 in \<open>auto intro!: yields_pure step post\<close>)
  qed
  then show ?thesis using assms(1) by (simp add: diag_cntl_recv_def)
qed

section \<open>Peripherals and commands\<close>

lemma watch_remove_fd [simp]: "P s \<Longrightarrow> P (watch_remove_fd fd s)"
  using no_watch [OF no_reader [of s "\<lambda>w. w_fd w \<noteq> fd"], of "\<lambda>w. w_fd w \<noteq> fd"]
  by (simp add: watch_remove_fd_def)

lemma watch_remove_writeq [simp]: "P s \<Longrightarrow> P (watch_remove_writeq fd s)"
  using no_watch [of s "\<lambda>w. w_fd w \<noteq> fd"] by (simp add: watch_remove_writeq_def)

lemma peripheral_send:
  assumes "P s" and post: "\<And>r s'. P s' \<Longrightarrow> Q (r, s')"
  shows "yields D Q (peripheral_send p msg s)"
  using assms(1)
  by (auto simp: peripheral_send_def perif_rpmsg_send_def qrtr_perif_send_def Let_def split: option.splits perif_ops.splits
      intro!: yields_pure queue_push hdlc_enqueue post)

lemma peripheral_close:
  assumes "P s" and post: "\<And>s'. P s' \<Longrightarrow> Q s'"
  shows "yields D Q (peripheral_close p s)"
proof -
  have "P (t\<lparr>peripherals := ps, perifs := (perifs t)(p := Freed)\<rparr>)" if "P t" for t :: "'z usb_state_scheme" and ps
    using free_perif [of "t\<lparr>peripherals := ps\<rparr>" p] that by simp
  then show ?thesis
    using assms(1)
    by (auto simp: peripheral_close_def perif_rpmsg_close_def qrtr_perif_close_def Let_def split: perif_ops.splits
        intro!: yields_pure post)
qed

lemma peripheral_broadcast_event_mask:
  assumes "P s" and "\<And>s'. P s' \<Longrightarrow> Q s'"
  shows "yields D Q (peripheral_broadcast_event_mask s)"
  unfolding peripheral_broadcast_event_mask_def
  by (rule fold_yields [where I = P]) (use assms in \<open>auto intro!: diag_cntl_send_event_mask\<close>)

lemma peripheral_broadcast_log_mask:
  assumes "P s" and "\<And>s'. P s' \<Longrightarrow> Q s'"
  shows "yields D Q (peripheral_broadcast_log_mask e s)"
  unfolding peripheral_broadcast_log_mask_def
  by (rule fold_yields [where I = P]) (use assms in \<open>auto intro!: diag_cntl_send_log_mask\<close>)

lemma peripheral_broadcast_msg_mask:
  assumes "P s" and post: "\<And>r s'. P s' \<Longrightarrow> Q (r, s')"
  shows "yields D Q (peripheral_broadcast_msg_mask rng s)"
  unfolding peripheral_broadcast_msg_mask_def
  by (rule fold_yields [where I = "\<lambda>(_, s). P s"])
    (use assms in \<open>auto intro!: diag_cntl_send_msg_mask\<close>)

lemma respond:
  assumes "P s" and post: "\<And>r s'. P s' \<Longrightarrow> Q (r, s')"
  shows "yields D Q (respond client resp s)"
  using assms(1) by (auto simp: respond_def intro!: dm_send post)

lemmas answering = yields_pure respond peripheral_broadcast_event_mask peripheral_broadcast_log_mask
  peripheral_broadcast_msg_mask

lemma handle_logging_configuration:
  assumes "P s" and post: "\<And>r s'. P s' \<Longrightarrow> Q (r, s')"
  shows "yields D Q (handle_logging_configuration client req len s)"
  using assms(1)
  by (auto simp: handle_logging_configuration_def log_disable_def log_get_range_def log_set_mask_def log_get_mask_def
      malloc_def Let_def split: option.splits
      intro!: answering diag_cmd_disable_log diag_cmd_set_log_mask diag_cmd_get_log_mask post)

lemma handle_extended_message_configuration:
  assumes "P s" and post: "\<And>r s'. P s' \<Longrightarrow> Q (r, s')"
  shows "yields D Q (handle_extended_message_configuration client req len s)"
  using assms(1)
  by (auto simp: handle_extended_message_configuration_def msg_get_ssid_range_def msg_get_build_mask_def msg_get_mask_def
      msg_set_mask_def msg_set_all_def malloc_def alloca_def Let_def split: option.splits
      intro!: answering diag_cmd_get_ssid_range diag_cmd_get_build_mask diag_cmd_get_msg_mask diag_cmd_set_msg_mask
        diag_cmd_set_all_msg_mask post)

lemma handle_events:
  assumes "P s" and post: "\<And>r s'. P s' \<Longrightarrow> Q (r, s')"
  shows "yields D Q (handle_event_get_mask client req len s)" "yields D Q (handle_event_set_mask client req len s)"
    "yields D Q (handle_event_report_control client req len s)"
  using assms(1)
  by (auto simp: handle_event_get_mask_def handle_event_set_mask_def handle_event_report_control_def malloc_def Let_def
      split: option.splits
      intro!: answering diag_cmd_get_event_mask diag_cmd_update_event_mask diag_cmd_toggle_events post)

lemma handle_apps:
  assumes "P s" and post: "\<And>r s'. P s' \<Longrightarrow> Q (r, s')"
  shows "yields D Q (handle_diag_version client req len s)" "yields D Q (handle_diag_version_no client req len s)"
    "yields D Q (handle_extended_build_id client req len s)" "yields D Q (handle_keep_alive client req len s)"
    "yields D Q (handle_diag_id client req len s)" "yields D Q (handle_hdlc_disable_cmd client req len s)"
  using assms(1)
  by (auto simp: handle_diag_version_def handle_diag_version_no_def handle_extended_build_id_def handle_keep_alive_def
      handle_diag_id_def handle_hdlc_disable_cmd_def alloca_def Let_def intro!: yields_pure dm_send post)

lemma run_cb:
  assumes "P s" and "\<And>r s'. P s' \<Longrightarrow> Q (r, s')"
  shows "yields D Q (run_cb cb client req len s)"
  using assms
  by (cases cb) (simp_all add: run_cb_def handle_logging_configuration handle_extended_message_configuration
      handle_events handle_apps)

lemma call_cb:
  assumes "P s" and "\<And>r s'. P s' \<Longrightarrow> Q (r, s')"
  shows "yields D Q (call_cb dc client req len s)"
  using assms by (auto simp: call_cb_def split: option.splits intro!: run_cb)

lemma dispatch_cmds:
  assumes "P s" and post: "\<And>r s'. P s' \<Longrightarrow> Q (r, s')"
  shows "yields D Q (dispatch_cmds client ptr len key dcs handled s)"
  using assms(1)
  by (induction dcs arbitrary: handled s)
    (auto split: option.splits intro!: yields_pure call_cb peripheral_send post)

lemma calloc_or_exit:
  assumes "P s" and post: "\<And>s'. P s' \<Longrightarrow> kept s s' \<Longrightarrow> Q s'"
  shows "yields D Q (calloc_or_exit n s)"
  using assms(1) by (auto simp: calloc_or_exit_def malloc_def intro!: post)

lemma diag_client_handle_command:
  assumes "P s" and post: "\<And>r s'. P s' \<Longrightarrow> Q (r, s')"
  shows "yields D Q (diag_client_handle_command client data len s)"
  using assms(1)
  by (auto simp: diag_client_handle_command_def diag_cmd_dispatch_def diag_rsp_bad_command_def split: option.splits
      intro!: yields_pure call_cb dispatch_cmds calloc_or_exit dm_send post)

section \<open>Receiving from clients\<close>

lemma set_ring [simp]: "P s \<Longrightarrow> ring_ok R b \<Longrightarrow> P (set_client_buf c b s)"
  using new_ring [of s c b]
  by (cases "c < length (clients s)") (simp_all add: set_client_buf_def set_client_def list_update_beyond)

lemma dm_recv_frames:
  assumes "P s" and "decodable D fuel b" and post: "\<And>r b' s'. P s' \<Longrightarrow> drained (Suc (circ_count b)) b b' \<Longrightarrow> Q (r, b', s')"
  shows "yields D Q (dm_recv_frames fuel c d b s)"
  using assms
proof (induction fuel arbitrary: d b s)
  case (Suc fuel)
  have more: "yields D Q (dm_recv_frames fuel c d' b1 t)" if "P t" "drained (circ_count b) b b1" for d' b1 t
  proof (rule Suc.IH [OF that(1)])
    show "decodable D fuel b1" by (rule decodable_drained [OF Suc.prems(2) that(2)])
    show "Q (r, b', s')" if "P s'" "drained (Suc (circ_count b1)) b1 b'" for r b' s'
      by (rule Suc.prems(3) [OF that(1)]) (rule drained_trans [OF \<open>drained (circ_count b) b b1\<close> that(2)]; simp)
  qed
  have last: "Q (0, b1, s)" if "drained (max 1 (circ_count b)) b b1" for b1
    by (rule Suc.prems(3) [OF Suc.prems(1)]) (use that in \<open>auto simp: drained_def\<close>)
  show ?case
    using Suc.prems(1,2) by (auto split: option.split intro!: yields_decode diag_client_handle_command more last)
qed (simp add: decodable_def)

lemma watch_add_timer:
  assumes "P s" and post: "\<And>s'. P s' \<Longrightarrow> Q s'"
  shows "yields D Q (watch_add_timer cb n r s)"
  using assms(1) by (auto simp: watch_add_timer_def intro!: calloc_or_exit post)

lemma dm_recv_nhdlc:
  assumes "P s" and post: "\<And>r s'. P s' \<Longrightarrow> Q (r, b, s')"
  shows "yields D Q (dm_recv_nhdlc c b s)"
  using assms(1)
  by (auto simp: dm_recv_nhdlc_def diag_start_hdlc_recovery_def Let_def
      intro!: yields_pure diag_client_handle_command watch_add_timer post)

lemma dm_decode_data:
  assumes "P s" and "decodable D HDLC_BUF_SIZE b" and post: "\<And>r b' s'. P s' \<Longrightarrow> drained (Suc (circ_count b)) b b' \<Longrightarrow> Q (r, b', s')"
  shows "yields D Q (dm_decode_data c b s)"
  using assms(1,2) drained_refl [of b]
  by (auto simp: dm_decode_data_def dm_recv_hdlc_def intro!: yields_pure dm_recv_frames dm_recv_nhdlc post)

lemma dm_recv_raw_loop:
  assumes "P s" and post: "\<And>r es s'. P s' \<Longrightarrow> Q (r, es, s')"
  shows "yields D Q (dm_recv_raw_loop c fd old es s)"
  using assms(1)
proof (induction c fd old es s rule: dm_recv_raw_loop.induct)
  case (1 c fd old es s)
  have step: "yields D T (diag_client_handle_command (Some c) m n s)"
    if "\<And>r t. diag_client_handle_command (Some c) m n s = Inr (r, t) \<Longrightarrow> P t \<Longrightarrow> T (r, t)" for T m n
    by (rule yields_strengthen [OF diag_client_handle_command [OF 1(2), where Q = "\<lambda>(_, t). P t"]]) (use that in auto)
  obtain got rest where "fd_read RAW_BUF_SIZE es = (got, rest)" by (cases "fd_read RAW_BUF_SIZE es")
  then show ?case
    by (subst dm_recv_raw_loop.simps) (use 1 in \<open>auto simp: Let_def split: read_result.splits intro!: step post\<close>)
qed

lemma set_drained: "P s \<Longrightarrow> drained n b b' \<Longrightarrow> ring_ok R b \<Longrightarrow> P (set_client_buf c b' s)"
  by (rule set_ring) (auto elim: drained_ring)

lemma dm_recv:
  assumes "P s" and post: "\<And>r es s'. P s' \<Longrightarrow> Q (r, es, s')"
  shows "yields D Q (dm_recv dm es s)"
  using assms(1)
  by (auto simp: dm_recv_def dm_recv_raw_def dm_recv_encoded_def alloca_def Let_def arr_read_eq_Inr client_ring
      split: option.splits
      intro!: yields_pure yields_circ_read [OF mode] dm_recv_raw_loop dm_decode_data decodable_ring [OF mode] post)
    (erule set_drained; assumption)+

section \<open>Receiving from peripherals\<close>

lemma set_perif_known:
  "P s \<Longrightarrow> flow_known (p_flow perif) s \<Longrightarrow> ring_ok R (p_recv_buf perif) \<Longrightarrow> P (set_perif p perif s)"
  unfolding set_perif_def by (rule new_perif)

lemma perif_flow_known: "P s \<Longrightarrow> perifs s p = Obj perif \<Longrightarrow> flow_known (p_flow perif) s"
  using known [of s p] by (simp add: perif_flow_def)

lemma diag_cmd_recv:
  assumes "P s" and post: "\<And>r es s'. P s' \<Longrightarrow> Q (r, es, s')"
  shows "yields D Q (diag_cmd_recv p es s)"
proof -
  have "flow_known None t" for t :: "'z usb_state_scheme" by (simp add: flow_known_def)
  then show ?thesis
    using assms(1)
    by (auto simp: diag_cmd_recv_def alloca_def Let_def split: read_result.splits
        intro!: peripheral_close non_hdlc_recv post)
qed

lemma data_frames:
  assumes "P s" and "flow_known flow s" and "decodable D fuel b"
    and post: "\<And>d' b' s'. P s' \<Longrightarrow> kept s s' \<Longrightarrow> drained (max 1 (circ_count b)) b b' \<Longrightarrow> Q (d', b', s')"
  shows "yields D Q (data_frames fuel flow d b s)"
  using assms
proof (induction fuel arbitrary: d b s)
  case (Suc fuel)
  have more: "yields D Q (data_frames fuel flow d' b1 t)" if "P t" "kept s t" "drained (circ_count b) b b1" for d' b1 t
  proof (rule Suc.IH)
    show "decodable D fuel b1" by (rule decodable_drained [OF Suc.prems(3) that(3)])
    fix d'' b'' s'
    assume *: "P s'" "kept t s'" "drained (max 1 (circ_count b1)) b1 b''"
    have "drained (max 1 (circ_count b)) b b''" by (rule drained_trans [OF that(3) *(3)]) simp
    with * that(2) show "Q (d'', b'', s')" by (intro Suc.prems(4)) (auto intro: kept_trans)
  qed (use that Suc.prems in \<open>auto simp: kept_flow_known\<close>)
  show ?case
    using Suc.prems(1-3)
    by (auto split: option.splits intro!: yields_decode broadcast_from more Suc.prems(4))
qed (simp add: decodable_def)

lemma data_recv_hdlc_loop:
  assumes "P s" and "\<And>perif. perifs s p = Obj perif \<Longrightarrow> ring_fits D es (p_recv_buf perif) fuel" and "D \<or> 0 < fuel"
    and post: "\<And>r es s'. P s' \<Longrightarrow> Q (r, es, s')"
  shows "yields D Q (data_recv_hdlc_loop fuel p es s)"
  using assms(1-3)
proof (induction fuel arbitrary: es s)
  case (Suc fuel)
  have round: "yields D Q (data_recv_hdlc_loop fuel p es' (set_perif p perif' t))"
    if "P (set_perif p perif' t)" "ring_fits D es' (p_recv_buf perif') fuel" for es' perif' t
    by (rule Suc.IH) (use that in \<open>auto simp: set_perif_def ring_fits_def\<close>)
  show ?case
  proof (cases "perifs s p")
    case (Obj perif)
    note known = perif_flow_known [OF Suc.prems(1) Obj] and ring = perif_ring [OF Suc.prems(1) Obj]
    note fits = ring_fits_read [OF mode Suc.prems(2) [OF Obj] ring]
    have "yields D (\<lambda>x. yields D Q (case x of (d, b, t) \<Rightarrow>
          data_recv_hdlc_loop fuel p es' (set_perif p (perif\<lparr>p_recv_buf := b, p_recv_decoder := d\<rparr>) t)))
        (data_frames HDLC_BUF_SIZE (p_flow perif) (p_recv_decoder perif) b s)"
      if "circ_read (p_recv_buf perif) es = Inr (r, e, b, es')" "\<not> r < 0" "ring_ok R b" for r e b es'
      using Suc.prems(1) known decodable_ring [OF mode that(3)] that(3) fits [OF that(1,2)]
      by (auto simp: kept_flow_known intro!: data_frames round set_perif_known elim: drained_ring)
    then show ?thesis
      using Suc.prems(1) known ring Obj by (auto intro!: yields_circ_read [OF mode] set_perif_known post)
  qed simp_all
qed simp

lemma data_recv_raw_loop:
  assumes "P s" and "script_fits D es fuel" and post: "\<And>r es s'. P s' \<Longrightarrow> Q (r, es, s')"
  shows "yields D Q (data_recv_raw_loop fuel p es s)"
  using assms(1,2)
proof (induction fuel arbitrary: es s)
  case (Suc fuel)
  obtain got es' where rd: "fd_read RAW_BUF_SIZE es = (got, es')" by (cases "fd_read RAW_BUF_SIZE es")
  from Suc.prems(1) script_fits_read [OF Suc.prems(2)] rd show ?case
    by (auto simp: Let_def deref_eq_Inr perif_flow_known split: read_result.splits
        intro!: yields_pure dm_broadcast post Suc.IH)
qed (simp add: script_fits_def)

lemma diag_data_recv:
  assumes "P s" and "data_ends D es" and post: "\<And>r es s'. P s' \<Longrightarrow> Q (r, es, s')"
  shows "yields D Q (diag_data_recv p es s)"
proof -
  have "0 < data_fuel es" by (simp add: data_fuel_def)
  with assms(1,2) show ?thesis
    by (auto simp: diag_data_recv_def diag_data_recv_raw_def diag_data_recv_hdlc_def data_fuel_fits
        intro!: yields_pure data_recv_raw_loop data_recv_hdlc_loop peripheral_close post)
qed

lemma rpmsg_perif_cntl_recv:
  assumes "P s" and post: "\<And>r es s'. P s' \<Longrightarrow> Q (r, es, s')"
  shows "yields D Q (rpmsg_perif_cntl_recv p es s)"
  using assms(1)
  by (auto simp: rpmsg_perif_cntl_recv_def alloca_def Let_def split: read_result.splits
      intro!: peripheral_close diag_cntl_recv post)

section \<open>New watches and peripherals\<close>

lemma fresh_queue_kept: "kept s s' \<Longrightarrow> fresh_queue q s' = fresh_queue q s"
  by (simp add: kept_def fresh_queue_def split: queue_id.splits)

lemma watch_add_readfd:
  assumes "P s" and "A cb" and post: "\<And>s'. P s' \<Longrightarrow> kept s s' \<Longrightarrow> Q s'"
  shows "yields D Q (watch_add_readfd fd cb flow s)"
proof -
  let ?w = "watch_zero\<lparr>w_addr := alloc_no s, w_fd := fd, w_cb := Some cb, w_flow := flow\<rparr>"
  let ?s = "s\<lparr>alloc_no := Suc (alloc_no s), read_watches := read_watches s @ [?w]\<rparr>"
  have "P ?s" by (rule new_reader [OF assms(1) _ assms(2)]) simp_all
  then have "Q ?s" by (rule post) (simp add: kept_def)
  then show ?thesis by (simp add: watch_add_readfd_def calloc_or_exit_def malloc_def)
qed

lemma watch_added:
  assumes "P s" and "B q" and "fresh_queue q s" and "w_queue w = Some q" and "w_pending w = None" and "watch_shape w"
    and "w_addr w = alloc_no s" and post: "\<And>s'. P s' \<Longrightarrow> kept s s' \<Longrightarrow> Q s'"
  shows "yields D Q (andthen (calloc_or_exit n s) (\<lambda>t. Inr (t\<lparr>aio_watches := aio_watches t @ [w]\<rparr>)))"
  using new_watch [OF assms(1,4,2,3,5-7)] by (auto simp: calloc_or_exit_def malloc_def kept_def intro!: post)

lemma watch_add_writeq:
  "P s \<Longrightarrow> B q \<Longrightarrow> fresh_queue q s \<Longrightarrow> (\<And>s'. P s' \<Longrightarrow> kept s s' \<Longrightarrow> Q s') \<Longrightarrow> yields D Q (watch_add_writeq fd q s)"
  unfolding watch_add_writeq_def by (rule watch_added [where q = q]) (simp_all add: watch_zero_def watch_shape_def)

lemma watch_add_readq:
  "P s \<Longrightarrow> B (UsbOutq h) \<Longrightarrow> (\<And>s'. P s' \<Longrightarrow> kept s s' \<Longrightarrow> Q s') \<Longrightarrow>
   yields D Q (watch_add_readq fd (UsbOutq h) (AioFfsRecv h) s)"
  unfolding watch_add_readq_def
  by (rule watch_added [where q = "UsbOutq h"]) (simp_all add: fresh_queue_def watch_zero_def watch_shape_def)

lemma flow_new:
  assumes "P s" and "watch_flow_new s = (flow, t)"
  shows "P t" and "flow_known flow t"
proof -
  have "P (s\<lparr>alloc_no := Suc (alloc_no s)\<rparr>)" using assms(1) by simp
  from this new_flow [OF this] show "P t"
    using assms(2) by (simp add: watch_flow_new_def malloc_def split: if_splits)
  show "flow_known flow t"
    using assms(2) by (auto simp: watch_flow_new_def malloc_def flow_known_def split: if_splits)
qed

lemma strdup_same:
  assumes "strdup str s = (name, t)"
  shows "P s \<Longrightarrow> P t" and "next_flow t = next_flow s"
proof -
  have t: "t = s\<lparr>alloc_no := Suc (alloc_no s)\<rparr>" using assms by (simp add: strdup_def malloc_def split: if_splits)
  show "P s \<Longrightarrow> P t" by (simp add: t)
  show "next_flow t = next_flow s" by (simp add: t)
qed

text \<open>The allocations with which both kinds of peripherals begin.\<close>

lemma flow_and_name:
  assumes "P s" and "watch_flow_new s = (flow, t)" and "strdup str t = (name, u)"
  shows "P u" and "flow_known flow u"
proof -
  show "P u" by (rule strdup_same(1) [OF assms(3)]) (rule flow_new [OF assms(1,2)])
  show "flow_known flow u"
    using flow_new(2) [OF assms(1,2)] strdup_same(2) [OF assms(3)] by (simp add: flow_known_def split: option.splits)
qed

lemma perif_queues:
  assumes "P s"
  shows "P (s\<lparr>queues := (queues s)(PerifCmdq p := [], PerifCntlq p := [], PerifDataq p := [])\<rparr>)"
proof -
  let ?a = "s\<lparr>queues := (queues s)(PerifCmdq p := [])\<rparr>"
  let ?b = "?a\<lparr>queues := (queues ?a)(PerifCntlq p := [])\<rparr>"
  have "P ?a" by (rule empty_queue) (simp_all add: assms fresh_queue_def)
  then have "P ?b" by (rule empty_queue) (simp_all add: fresh_queue_def)
  then have "P (?b\<lparr>queues := (queues ?b)(PerifDataq p := [])\<rparr>)" by (rule empty_queue) (simp_all add: fresh_queue_def)
  then show ?thesis by simp
qed

lemma perif_made:
  assumes "P s" and "flow_known (p_flow perif) s" and "ring_ok R (p_recv_buf perif)"
  shows "P (s\<lparr>queues := (queues s)(PerifCmdq p := [], PerifCntlq p := [], PerifDataq p := []),
              perifs := (perifs s)(p := Obj perif)\<rparr>)"
proof -
  have "flow_known (p_flow perif)
      (s\<lparr>queues := (queues s)(PerifCmdq p := [], PerifCntlq p := [], PerifDataq p := [])\<rparr>)"
    using assms(2) by (simp add: flow_known_def split: option.splits)
  from set_perif_known [OF perif_queues [OF assms(1)] this assms(3)] show ?thesis by (simp add: set_perif_def)
qed

lemma peripheral_create:
  assumes "P s" and post: "\<And>r s'. P s' \<Longrightarrow> Q (r, s')"
  shows "yields D Q (peripheral_create rproc channel s)"
proof -
  let ?s = "s\<lparr>alloc_no := Suc (alloc_no s)\<rparr>"
  obtain flow t where t: "watch_flow_new ?s = (flow, t)" by (cases "watch_flow_new ?s")
  obtain name u where u: "strdup rproc t = (name, u)" by (cases "strdup rproc t")
  have "P ?s" using assms(1) by simp
  from flow_and_name [OF this t u] show ?thesis
    using assms(1)
    by (auto simp: peripheral_create_def malloc_def Let_def t u intro!: yields_pure perif_made watch_add_timer post)
qed

section \<open>Devices behind rpmsg\<close>

lemma devnode_add:
  assumes "P s" and post: "\<And>s'. P s' \<Longrightarrow> Q s'"
  shows "yields D Q (devnode_add dev name rproc s)"
  using assms(1)
  by (auto simp: devnode_add_def malloc_def strdup_def Let_def split: option.splits intro!: yields_pure post)

lemma devnode_remove:
  assumes "P s" and post: "\<And>s'. P s' \<Longrightarrow> Q s'"
  shows "yields D Q (devnode_remove dev s)"
  using assms(1) by (auto simp: devnode_remove_def split: option.splits intro!: yields_pure post)

lemma udev_add:
  assumes "P s" and post: "\<And>s'. P s' \<Longrightarrow> Q s'"
  shows "yields D Q (udev_add dev name rproc s)"
  using assms(1) by (auto simp: udev_add_def intro!: devnode_add peripheral_create post)

lemma peripheral_udev_update:
  assumes "P s" and post: "\<And>r s'. P s' \<Longrightarrow> Q (r, s')"
  shows "yields D Q (peripheral_udev_update dev s)"
  using assms(1)
  by (auto simp: peripheral_udev_update_def split: option.splits intro!: udev_add devnode_remove post)

lemma rpmsg_enumerate:
  assumes "P s" and post: "\<And>s'. P s' \<Longrightarrow> Q s'"
  shows "yields D Q (rpmsg_enumerate dev s)"
  using assms(1) by (auto simp: rpmsg_enumerate_def split: option.splits intro!: udev_add post)

lemma peripheral_rpmsg_init:
  assumes "P s" and post: "\<And>r s'. P s' \<Longrightarrow> Q (r, s')"
    and "\<forall>cb. A cb"
  shows "yields D Q (peripheral_rpmsg_init ok mon devs s)"
proof -
  have "yields D P (fold_res rpmsg_enumerate devs s)"
    by (rule fold_yields [where I = P]) (use assms(1,3) in \<open>auto intro!: rpmsg_enumerate\<close>)
  then show ?thesis
    using assms(3)
    by (auto simp: peripheral_rpmsg_init_def intro!: watch_add_readfd post elim!: yields_mono)
qed

lemma fresh_perif_queues [simp]:
  "fresh_queue (PerifCmdq p) s" "fresh_queue (PerifCntlq p) s" "fresh_queue (PerifDataq p) s"
  by (simp_all add: fresh_queue_def)

lemma peripheral_open:
  assumes "P s" and post: "\<And>s'. P s' \<Longrightarrow> Q s'"
    and "\<forall>cb. A cb" and "\<forall>q. B q"
  shows "yields D Q (peripheral_open opn p s)"
  using assms(1,3,4)
  by (auto simp: peripheral_open_def Let_def deref_eq_Inr set_perif_same
      intro!: yields_pure watch_add_writeq watch_add_readfd diag_cntl_send_masks post)

section \<open>Devices on QRTR\<close>

lemma flow_known_frames [simp]:
  "flow_known f (watch_remove_writeq fd s) = flow_known f s" "flow_known f (set_perif p perif s) = flow_known f s"
  by (simp_all add: flow_known_def watch_remove_writeq_def set_perif_def split: option.splits)

lemma qrtr_cntl_recv:
  assumes "P s" and post: "\<And>r s'. P s' \<Longrightarrow> Q (r, s')"
    and "\<forall>q. B q"
  shows "yields D Q (qrtr_cntl_recv decode p ev s)"
  using assms(1,3)
  by (auto simp: qrtr_cntl_recv_def alloca_def Let_def deref_eq_Inr perif_flow_known [OF assms(1)] perif_ring [OF assms(1)] 
      split: recv_event.splits sum.splits qrtr_type.splits
      intro!: yields_pure watch_add_writeq diag_cntl_recv set_perif_known post)

lemma qrtr_cmd_recv:
  assumes "P s" and post: "\<And>r s'. P s' \<Longrightarrow> Q (r, s')"
    and "\<forall>q. B q"
  shows "yields D Q (qrtr_cmd_recv decode connected p ev s)"
proof -
  have "flow_known None t" for t :: "'z usb_state_scheme" by (simp add: flow_known_def)
  then show ?thesis
    using assms(1,3)
    by (auto simp: qrtr_cmd_recv_def Let_def deref_eq_Inr perif_flow_known [OF assms(1)] perif_ring [OF assms(1)] 
        split: recv_event.splits sum.splits qrtr_type.splits
        intro!: yields_pure watch_remove_writeq set_perif_known non_hdlc_recv watch_add_writeq post)
qed

lemma qrtr_data_recv:
  assumes "P s" and post: "\<And>r s'. P s' \<Longrightarrow> Q (r, s')"
    and "\<forall>q. B q"
  shows "yields D Q (qrtr_data_recv decode p ev s)"
  using assms(1,3)
  by (auto simp: qrtr_data_recv_def alloca_def Let_def deref_eq_Inr perif_flow_known [OF assms(1)] perif_ring [OF assms(1)]  kept_flow_known
      split: recv_event.splits sum.splits qrtr_type.splits
      intro!: yields_pure watch_add_writeq non_hdlc_recv set_perif_known post)

lemma qrtr_perif_init_subsystem:
  assumes "P s" and post: "\<And>r s'. P s' \<Longrightarrow> Q (r, s')"
    and "\<forall>cb. A cb"
  shows "yields D Q (qrtr_perif_init_subsystem opn str base s)"
proof -
  let ?s = "s\<lparr>alloc_no := Suc (alloc_no s)\<rparr>"
  obtain flow t where t: "watch_flow_new ?s = (flow, t)" by (cases "watch_flow_new ?s")
  obtain name u where u: "strdup str t = (name, u)" by (cases "strdup str t")
  have "P ?s" using assms(1,3) by simp
  from flow_and_name [OF this t u] show ?thesis
    using assms(1,3)
    by (auto simp: qrtr_perif_init_subsystem_def malloc_def Let_def t u intro!: perif_made watch_add_readfd post)
qed

lemma peripheral_qrtr_init:
  assumes "P s" and post: "\<And>r s'. P s' \<Longrightarrow> Q (r, s')"
    and "\<forall>cb. A cb"
  shows "yields D Q (peripheral_qrtr_init opn s)"
proof -
  have "yields D P (fold_res (\<lambda>(i, name, base) s.
      andthen (qrtr_perif_init_subsystem (opn i) name base s) (\<lambda>(_, s). Inr s))
    (zip [0..<length qrtr_subsystems] qrtr_subsystems) s)"
    by (rule fold_yields [where I = P]) (use assms(1,3) in \<open>auto intro!: qrtr_perif_init_subsystem\<close>)
  then show ?thesis by (auto simp: peripheral_qrtr_init_def intro!: post elim!: yields_mono)
qed

section \<open>Transports\<close>

lemma dm_add:
  assumes "P s" and post: "\<And>c s'. P s' \<Longrightarrow> Q (c, s')"
    and "\<forall>c. A (CbDmRecv c)" and "\<forall>q. B q"
  shows "yields D Q (dm_add name in_fd out_fd enc s)"
proof -
  have new: "P (t\<lparr>queues := (queues t)(ClientOutq (length (clients t)) := [])\<rparr>)" if "P t" for t
    by (rule empty_queue [OF that]) (simp_all add: fresh_queue_def)
  have fresh: "fresh_queue (ClientOutq (length (clients t))) t'" if "length (clients t') = length (clients t)" for t t' :: "'z usb_state_scheme"
    using that by (simp add: fresh_queue_def)
  show ?thesis
    using assms(1,3,4)
    by (auto simp: dm_add_def Let_def kept_def
        intro!: calloc_or_exit watch_add_readfd watch_add_writeq new_client post new fresh)
qed

lemma dm_enable_same [simp]: "P (dm_enable c s) = P s" "P (dm_disable c s) = P s"
  by (simp_all add: dm_enable_def dm_disable_def)

lemma unix_listen:
  assumes "P s" and post: "\<And>r s'. P s' \<Longrightarrow> Q (r, s')"
    and "\<forall>c. A (CbDmRecv c)" and "\<forall>q. B q"
  shows "yields D Q (unix_listen client nonblock s)"
  using assms(1,3,4) by (auto simp: unix_listen_def intro!: dm_add post)

lemma ep0_recv:
  assumes "P s" and post: "\<And>r s'. P s' \<Longrightarrow> Q (r, s')"
    and "\<forall>q. B q"
  shows "yields D Q (ep0_recv h ev s)"
  using assms(1,3)
  by (auto simp: ep0_recv_def split: option.splits ffs_event.splits intro!: yields_pure watch_add_readq post)

lemma diag_ffs_recv:
  assumes "P s" and "m_flow m = None" and "D \<or> unat (m_offset m) < HDLC_BUF_SIZE" and post: "\<And>s'. P s' \<Longrightarrow> Q s'"
  shows "yields D Q (diag_ffs_recv h m s)"
proof -
  have "P (enqueue (UsbOutq h) (m\<lparr>m_offset := 0\<rparr>) t)" if "P t" for t
    using push [OF that, of "UsbOutq h" "m\<lparr>m_offset := 0\<rparr>"] assms(2)
    by (simp add: may_push_def flow_known_def watch_flow_inc_def usb_sized_def HDLC_BUF_SIZE_def)
  moreover have "decodable D HDLC_BUF_SIZE \<lparr>buf = f, head = m_offset m, tail = 0\<rparr>" for f
    using assms(3) circ_count_less by (auto simp: decodable_def circ_inv_def)
  ultimately show ?thesis
    using assms(1) by (auto simp: diag_ffs_recv_def Let_def split: option.splits intro!: yields_pure dm_decode_data post)
qed

section \<open>Callbacks\<close>

lemma read_callback:
  assumes "P s" and post: "\<And>r s'. P s' \<Longrightarrow> Q (r, s')"
    and "cb = CbUnixListen \<longrightarrow> (\<forall>c. A (CbDmRecv c))" and "\<forall>q. B q"
    and "\<forall>p. cb = CbRpmsgData p \<longrightarrow> data_ends D (an_reads an)"
  shows "yields D Q (read_callback decode an cb s)"
  using assms(1,3,4,5)
  by (auto simp: read_callback_def split: read_cb.splits
      intro!: dm_recv unix_listen peripheral_udev_update ep0_recv rpmsg_perif_cntl_recv diag_data_recv diag_cmd_recv
        qrtr_cntl_recv qrtr_cmd_recv qrtr_data_recv post)

lemma timer_callback:
  assumes "P s" and post: "\<And>s'. P s' \<Longrightarrow> Q s'"
    and "\<forall>cb. A cb" and "\<forall>q. B q"
  shows "yields D Q (timer_callback opn cb s)"
  using assms(1,3,4)
  by (auto simp: timer_callback_def diag_hdlc_reset_def split: timer_cb.splits intro!: peripheral_open post)

end

end
