(* ===== verification/Loop_Invariants.thy ===== *)
theory Loop_Invariants
  imports Handler_Frames
begin

text \<open>
  From the callbacks to the whole program: a predicate that submitting and completing
  requests keep as well is an invariant of every run of the event loop, from the start of
  the router on.
\<close>

text \<open>A transfer that does not fill the whole buffer; one that does is the end of the router.\<close>

definition event_fits :: "bool \<Rightarrow> io_event \<Rightarrow> bool" where
  "event_fits D ev \<longleftrightarrow> D \<or> ev_res ev < int HDLC_BUF_SIZE"

lemma poll_aio_ends: "poll_aio acc ws qs \<noteq> Inl Diverged"
proof (induction ws arbitrary: qs)
  case (Cons w ws)
  have "watch_poll_aio (acc (w_addr w)) w q \<noteq> Inl Diverged" for q
    using watch_poll_aio_safe [of "acc (w_addr w)" w q] by auto
  with Cons.IH show ?case by (simp add: ends_andthen split: option.split)
qed simp

locale event_pred = io_pred P D R A B for P :: "'z usb_state_scheme \<Rightarrow> bool" and D R A B +
  assumes written: "P s \<Longrightarrow> w \<in> set (aio_watches s) \<Longrightarrow> w_pending w = Some m \<Longrightarrow> w_complete w = Some AioFreeWrite \<Longrightarrow>
      P (set_pending (w_addr w) None (watch_free_write_aio m s))"
    and unpended: "P s \<Longrightarrow> P (set_pending a None s)"
    and read_flow: "P s \<Longrightarrow> w \<in> set (aio_watches s) \<Longrightarrow> w_pending w = Some m \<Longrightarrow>
      w_complete w = Some (AioFfsRecv h) \<Longrightarrow> m_flow m = None \<and> (D \<or> unat (m_offset m) < HDLC_BUF_SIZE)"
begin

lemma watch_at_Inr: "watch_at a ws = Inr w \<Longrightarrow> w \<in> set ws \<and> w_addr w = a"
  by (auto simp: watch_at_def find_Some_iff split: option.splits)

lemma aio_event:
  assumes "P s" and "event_fits D ev"
  shows "yields D P (aio_event a ev s)"
proof -
  have "yields D P (andthen (aio_callback cb m' s) (\<lambda>s. andthen (watch_at a (aio_watches s)) (\<lambda>_. Inr (set_pending a None s))))"
    if w: "watch_at a (aio_watches s) = Inr w" "w_pending w = Some m" "w_complete w = Some cb"
      "m' = m \<or> 0 \<le> ev_res ev \<and> m' = m\<lparr>m_offset := of_int (ev_res ev)\<rparr>" for w m m' cb
  proof (cases cb)
    case AioFreeWrite
    have "watch_free_write_aio m' s = watch_free_write_aio m s" using w(4) by (auto simp: watch_free_write_aio_def)
    then show ?thesis
      using written [OF assms(1), of w m] watch_at_Inr [OF w(1)] w AioFreeWrite
      by (auto simp: aio_callback_def intro!: yields_pure)
  next
    case (AioFfsRecv h)
    have m: "m_flow m = None" "D \<or> unat (m_offset m) < HDLC_BUF_SIZE"
      using read_flow [OF assms(1), of w m h] watch_at_Inr [OF w(1)] w AioFfsRecv by simp_all
    have "D \<or> unat (m_offset m') < HDLC_BUF_SIZE" "m_flow m' = None"
      using m w(4) assms(2) by (auto simp: event_fits_def HDLC_BUF_SIZE_def unsigned_of_int take_bit_int_eq_self nat_less_iff)
    then show ?thesis
      using assms(1) by (auto simp: aio_callback_def AioFfsRecv intro!: yields_pure diag_ffs_recv unpended)
  qed
  then show ?thesis
    using assms(1) by (auto simp: aio_event_def Let_def split: option.splits intro!: yields_pure)
qed

lemma watch_read:
  assumes "P s" and "\<And>p. w_cb w = Some (CbRpmsgData p) \<Longrightarrow> data_ends D (an_reads (an (w_fd w) (w_addr w)))"
    and "w_cb w = Some CbUnixListen \<longrightarrow> (\<forall>c. A (CbDmRecv c))" and "\<forall>q. B q"
  shows "yields D P (watch_read decode rfds an w s)"
  using assms by (auto simp: watch_read_def split: option.splits intro!: yields_pure read_callback no_reader)

end

locale loop_pred = event_pred P D R "\<lambda>_. True" "\<lambda>_. True" for P :: "'z usb_state_scheme \<Rightarrow> bool" and D R +
  assumes polled: "P s \<Longrightarrow> poll_aio acc (aio_watches s) (queues s) = Inr (ws, qs) \<Longrightarrow>
      P (s\<lparr>queues := qs, aio_watches := ws\<rparr>)"
    and read_in: "P s \<Longrightarrow> P (transferred evs s)"
begin

lemma watch_poll:
  assumes "P s" and post: "\<And>s'. P s' \<Longrightarrow> Q s'"
  shows "yields D Q (watch_poll acc s)"
  using polled [OF assms(1)] by (auto simp: watch_poll_def intro!: post yields_any [OF poll_aio_ends])

lemma watch_expire:
  assumes "P s" and post: "\<And>s'. P s' \<Longrightarrow> Q s'"
  shows "yields D Q (watch_expire opn tm s)"
  using assms(1) by (auto simp: watch_expire_def watch_free_timer_def intro!: timer_callback post)

lemma watch_finish:
  assumes "P s" and "\<And>s'. P s' \<Longrightarrow> Q s'"
  shows "yields D Q (watch_finish decode s)"
proof -
  have "data_ends D (an_reads no_answers)" by (simp add: data_ends_def no_answers_def)
  then show ?thesis
    unfolding watch_finish_def
    by (intro fold_yields [where I = P]) (use assms in \<open>auto split: option.splits intro!: read_callback\<close>)
qed

text \<open>Walks keep the predicate, whether or not they come to an end.\<close>

lemma walk_keeps:
  assumes d: D and "\<And>w s. P s \<Longrightarrow> yields D P (body w s)" and "P s"
  shows "yields D P (walk fuel table body a s)"
  using assms(2,3)
proof (induction fuel arbitrary: a s)
  case 0
  then show ?case using d by (cases a) simp_all
next
  case (Suc fuel)
  have "yields D (\<lambda>t. yields D P (walk fuel table body b t)) (body w s)" for w b
    by (rule yields_mono [OF Suc.prems(1) [OF Suc.prems(2)]]) (rule Suc.IH [OF Suc.prems(1)])
  with Suc.prems(2) show ?case by (cases a) (auto simp: Let_def intro!: yields_pure)
qed

lemma walked:
  "D \<Longrightarrow> (\<And>w s. P s \<Longrightarrow> yields D P (body w s)) \<Longrightarrow> P s \<Longrightarrow> (\<And>s'. P s' \<Longrightarrow> Q s') \<Longrightarrow>
   yields D Q (walk fuel table body a s)"
  by (rule yields_mono [OF walk_keeps])

lemma watch_handle_eventfd:
  assumes d: D and "P s" and post: "\<And>s'. P s' \<Longrightarrow> Q s'"
  shows "yields D Q (watch_handle_eventfd fuel evs s)"
proof -
  have fits: "event_fits D ev" for ev using d by (simp add: event_fits_def)
  have "yields D P (fold_res (aio_event (w_addr w)) es t)" if "P t" for w :: watch and es t
    by (rule fold_yields [where I = P]) (auto intro: aio_event that fits)
  then show ?thesis
    using assms(2) read_in by (auto simp: watch_handle_eventfd_def Let_def split: option.splits intro!: walked [OF d] post)
qed

lemma watch_turn:
  assumes d: D and "P s" and post: "\<And>r s'. P s' \<Longrightarrow> Q (r, s')"
  shows "yields D Q (watch_turn decode tn s)"
proof -
  have ends: "data_ends D es" for es using d by (simp add: data_ends_def)
  show ?thesis
    using assms(2)
    by (auto simp: watch_turn_def Let_def split: selected.splits option.splits
        intro!: yields_pure watch_poll watch_expire watch_handle_eventfd [OF d] walked [OF d] watch_read ends post)
qed

text \<open>Any number of turns.\<close>

lemma watch_run:
  assumes d: D and "P s" and post: "\<And>r s'. P s' \<Longrightarrow> Q (r, s')"
  shows "yields D Q (watch_run decode tns s)"
  using assms(2)
  by (induction tns arbitrary: s) (auto intro!: watch_turn [OF d] watch_finish post)

end

section \<open>The start of the router\<close>

context loop_pred
begin

lemma diag_masks_init:
  assumes "P s" and post: "\<And>r s'. P s' \<Longrightarrow> Q (r, s')"
  shows "yields D Q (diag_masks_init s)"
  by (rule by_tables [where st = snd, OF assms(1)])
    (auto intro!: framed.diag_masks_init intro: masks_init_tables post simp: tables_wf_def [of s])

lemma register_cmds:
  assumes "P s" and post: "\<And>s'. P s' \<Longrightarrow> Q s'"
  shows "yields D Q (register_common_cmds s)" "yields D Q (register_app_cmds s)"
  using assms(1)
  by (auto simp: register_common_cmds_def register_common_cmd_def register_app_cmds_def register_fallback_cmd_def
      register_fallback_subsys_cmd_def Let_def intro!: calloc_or_exit post)

lemma diag_sock_connect:
  assumes "P s" and post: "\<And>r s'. P s' \<Longrightarrow> Q (r, s')"
  shows "yields D Q (diag_sock_connect sock host conn nonblock s)"
  using assms(1) by (auto simp: diag_sock_connect_def split: sum.splits intro!: dm_add post)

lemma diag_uart_open:
  assumes "P s" and post: "\<And>r opts s'. P s' \<Longrightarrow> Q (r, opts, s')"
  shows "yields D Q (diag_uart_open baud opened flushed blocking saved tcset s)"
  using assms(1) by (auto simp: diag_uart_open_def Let_def split: sum.splits intro!: dm_add post)

lemma main_client:
  assumes "P s" and post: "\<And>s'. P s' \<Longrightarrow> Q s'"
  shows "yields D Q (main_client cfg env s)"
  using assms(1) by (auto simp: main_client_def intro!: diag_sock_connect diag_uart_open post)

lemma diag_usb_open:
  assumes "P s" and post: "\<And>r s'. P s' \<Longrightarrow> Q (r, s')"
  shows "yields D Q (diag_usb_open calls s)"
proof -
  have "P (t\<lparr>alloc_no := k, queues := (queues t)(UsbOutq h := [m])\<rparr>)" if "P t" "alloc_no t \<le> k" "m_flow m = None" "m_offset m = 0" for t k h m
    using empty_queue [of "t\<lparr>alloc_no := k\<rparr>" "UsbOutq h" "[m]"] that by (simp add: fresh_queue_def)
  then show ?thesis
    using assms(1)
    by (auto simp: diag_usb_open_def mbuf_alloc_eq Let_def intro!: calloc_or_exit watch_add_readfd dm_add post)
qed

lemma diag_main:
  assumes "P s" and post: "\<And>s'. P s' \<Longrightarrow> Q s'"
  shows "yields D Q (diag_main opts env s)"
  using assms(1)
  by (auto simp: diag_main_def diag_unix_open_def peripheral_init_def split: option.splits
      intro!: main_client diag_usb_open watch_add_readfd peripheral_rpmsg_init peripheral_qrtr_init diag_masks_init
        register_cmds post)

end

end
