(* ===== verification/Flow_Control.thy ===== *)
theory Flow_Control
  imports Loop_Invariants
begin

text \<open>
  Flow control over whole runs of the router. A peripheral's flow counts the messages of the
  peripheral that no client has taken yet. The invariant relates the count to the messages
  that are on queues or being written; it is an interpretation of the contract of the event
  loop, and so holds from the start of the router after any number of turns.
\<close>

section \<open>Messages that wait\<close>

definition flow_count :: "flow_id \<Rightarrow> mbuf list \<Rightarrow> nat" where
  "flow_count f ms = length (filter (\<lambda>m. m_flow m = Some f) ms)"

definition pending_flow :: "flow_id \<Rightarrow> watch \<Rightarrow> nat" where
  "pending_flow f w = (case w_pending w of None \<Rightarrow> 0 | Some m \<Rightarrow> if m_flow m = Some f then 1 else 0)"

text \<open>The messages of flow \<open>f\<close> on the queues of the first \<open>n\<close> clients and at the watches.\<close>

definition waiting :: "flow_id \<Rightarrow> nat \<Rightarrow> (queue_id \<Rightarrow> mbuf list) \<Rightarrow> watch list \<Rightarrow> nat" where
  "waiting f n qs ws = (\<Sum>c<n. flow_count f (qs (ClientOutq c))) + sum_list (map (pending_flow f) ws)"

definition outstanding :: "flow_id \<Rightarrow> 'z dm_state_scheme \<Rightarrow> nat" where
  "outstanding f s = waiting f (length (clients s)) (queues s) (aio_watches s)"

text \<open>Only clients are sent messages with a flow, and a client that is not there has none.\<close>

definition client_queue :: "queue_id \<Rightarrow> bool" where
  "client_queue q \<longleftrightarrow> (\<exists>c. q = ClientOutq c)"

definition queues_ok :: "nat \<Rightarrow> (queue_id \<Rightarrow> mbuf list) \<Rightarrow> bool" where
  "queues_ok n qs \<longleftrightarrow> (\<forall>q. \<not> client_queue q \<longrightarrow> (\<forall>m \<in> set (qs q). m_flow m = None)) \<and>
     (\<forall>c \<ge> n. qs (ClientOutq c) = [])"

definition watch_ok :: "watch \<Rightarrow> bool" where
  "watch_ok w \<longleftrightarrow> watch_shape w \<and>
     (\<forall>q m. w_queue w = Some q \<and> \<not> client_queue q \<and> w_pending w = Some m \<longrightarrow> m_flow m = None)"

definition flow_inv :: "'z cntl_state_scheme \<Rightarrow> bool" where
  "flow_inv s \<longleftrightarrow> queues_ok (length (clients s)) (queues s) \<and> (\<forall>w \<in> set (aio_watches s). watch_ok w) \<and>
     (\<forall>f. int (outstanding f s) \<le> flows s f) \<and> (\<forall>f \<ge> next_flow s. outstanding f s = 0) \<and>
     (\<forall>p. flow_known (perif_flow s p) s)"

lemma flow_count_simps [simp]:
  "flow_count f [] = 0" "flow_count f (m # ms) = (if m_flow m = Some f then 1 else 0) + flow_count f ms"
  "flow_count f (ms @ ms') = flow_count f ms + flow_count f ms'"
  by (simp_all add: flow_count_def)

lemma waiting_cong:
  "(\<And>c. c < n \<Longrightarrow> qs' (ClientOutq c) = qs (ClientOutq c)) \<Longrightarrow> waiting f n qs' ws = waiting f n qs ws"
  by (simp add: waiting_def)

text \<open>A change of one client's queue changes the sum by what the queue gains or loses.\<close>

lemma waiting_upd:
  assumes "c < n"
  shows "waiting f n (qs(ClientOutq c := ms)) ws + flow_count f (qs (ClientOutq c)) = waiting f n qs ws + flow_count f ms"
proof -
  have "(\<Sum>i<n. flow_count f ((qs(ClientOutq c := ms)) (ClientOutq i))) =
      flow_count f ms + (\<Sum>i \<in> {..<n} - {c}. flow_count f (qs (ClientOutq i)))"
    using assms by (subst sum.remove [of _ c]) auto
  moreover have "(\<Sum>i<n. flow_count f (qs (ClientOutq i))) =
      flow_count f (qs (ClientOutq c)) + (\<Sum>i \<in> {..<n} - {c}. flow_count f (qs (ClientOutq i)))"
    using assms by (subst sum.remove [of _ c]) auto
  ultimately show ?thesis by (simp add: waiting_def)
qed

lemma waiting_other: "\<not> client_queue q \<or> q = ClientOutq c \<and> n \<le> c \<Longrightarrow> waiting f n (qs(q := ms)) ws = waiting f n qs ws"
  by (rule waiting_cong) (auto simp: client_queue_def)

lemma waiting_Cons: "waiting f n qs (w # ws) = waiting f n qs ws + pending_flow f w"
  by (simp add: waiting_def)

section \<open>Submitting and completing\<close>

text \<open>Submitting moves messages from the queues to the watches.\<close>

lemma poll_aio_waiting:
  "poll_aio acc ws qs = Inr (ws', qs') \<Longrightarrow> queues_ok n qs \<Longrightarrow> \<forall>w \<in> set ws. watch_ok w \<Longrightarrow>
   queues_ok n qs' \<and> (\<forall>w \<in> set ws'. watch_ok w) \<and> waiting f n qs' ws' = waiting f n qs ws"
proof (induction ws arbitrary: qs ws' qs')
  case (Cons w ws)
  from Cons.prems(1) obtain q w1 rest ws1 where step: "w_queue w = Some q"
    "watch_poll_aio (acc (w_addr w)) w (qs q) = Inr (w1, rest)"
    "poll_aio acc ws (qs(q := rest)) = Inr (ws1, qs')" "ws' = w1 # ws1"
    by (auto simp: andthen_eq_Inr split: option.splits)
  have w: "watch_ok w" using Cons.prems(3) by simp
  have "queues_ok n (qs(q := rest)) \<and> watch_ok w1 \<and>
      waiting f n (qs(q := rest)) ws + pending_flow f w1 = waiting f n qs ws + pending_flow f w"
  proof (cases "qs q \<noteq> [] \<and> w_pending w = None \<and> acc (w_addr w)")
    case False
    then have "w1 = w" "rest = qs q"
      using step(2) by (auto simp: watch_poll_aio_def watch_submit_aio_def split: list.splits if_splits)
    with Cons.prems(2) w show ?thesis by simp
  next
    case True
    then obtain m where m: "qs q = m # rest" "w1 = w\<lparr>w_pending := Some m\<rparr>"
      using step(2) by (auto simp: watch_poll_aio_def watch_submit_aio_def split: list.splits if_splits)
    have "watch_ok w1"
      using w Cons.prems(2) m step(1) by (auto simp: watch_ok_def watch_shape_def queues_ok_def split: option.splits aio_done.splits)
    moreover have "queues_ok n (qs(q := rest))"
      using Cons.prems(2) m(1) by (auto simp: queues_ok_def)
    moreover have "waiting f n (qs(q := rest)) ws + pending_flow f w1 = waiting f n qs ws + pending_flow f w"
    proof (cases "client_queue q")
      case True
      then obtain c where c: "q = ClientOutq c" by (auto simp: client_queue_def)
      have "c < n" using Cons.prems(2) m(1) by (auto simp: queues_ok_def c not_less [symmetric])
      from waiting_upd [OF this, of f qs rest ws] m True \<open>qs q \<noteq> [] \<and> w_pending w = None \<and> acc (w_addr w)\<close>
      show ?thesis by (simp add: c pending_flow_def split: if_splits)
    next
      case False
      then have "m_flow m = None" using Cons.prems(2) m(1) by (auto simp: queues_ok_def)
      with False m True \<open>qs q \<noteq> [] \<and> w_pending w = None \<and> acc (w_addr w)\<close> show ?thesis
        by (simp add: waiting_other pending_flow_def)
    qed
    ultimately show ?thesis by simp
  qed
  with Cons.IH [OF step(3)] Cons.prems(3) show ?case by (auto simp: step(4) waiting_Cons simp del: fun_upd_apply)
qed simp

text \<open>Completing a request takes its message away from one watch at least.\<close>

lemma pending_removed:
  "sum_list (map (pending_flow f) (map (\<lambda>v. if w_addr v = a then v\<lparr>w_pending := None\<rparr> else v) ws)) \<le>
   sum_list (map (pending_flow f) ws)"
  by (induction ws) (auto simp: pending_flow_def)

lemma pending_taken:
  assumes "w \<in> set ws" and "w_pending w = Some m" and "m_flow m = Some f"
  shows "sum_list (map (pending_flow f) (map (\<lambda>v. if w_addr v = w_addr w then v\<lparr>w_pending := None\<rparr> else v) ws)) <
    sum_list (map (pending_flow f) ws)"
  using assms(1)
proof (induction ws)
  case (Cons v ws)
  show ?case
  proof (cases "v = w")
    case True
    have "pending_flow f w = 1" "pending_flow f (w\<lparr>w_pending := None\<rparr>) = 0"
      using assms(2,3) by (simp_all add: pending_flow_def)
    then show ?thesis using pending_removed [of f "w_addr w" ws] True by simp
  next
    case False
    then have "w \<in> set ws" using Cons.prems by simp
    from Cons.IH [OF this] show ?thesis by (auto simp: pending_flow_def)
  qed
qed simp

lemma waiting_pending:
  "sum_list (map (pending_flow f) ws') \<le> sum_list (map (pending_flow f) ws) \<Longrightarrow> waiting f n qs ws' \<le> waiting f n qs ws"
  by (simp add: waiting_def)

lemma watch_ok_unpended: "watch_ok w \<Longrightarrow> watch_ok (w\<lparr>w_pending := None\<rparr>)"
  by (simp add: watch_ok_def watch_shape_def split: option.splits aio_done.splits)

lemma flow_known_cong: "next_flow t = next_flow s \<Longrightarrow> flow_known flow t = flow_known flow s"
  by (simp add: flow_known_def split: option.splits)

lemma set_pending_fields [simp]:
  "queues (set_pending a m s) = queues s" "clients (set_pending a m s) = clients s" "flows (set_pending a m s) = flows s"
  "next_flow (set_pending a m s) = next_flow s" "perif_flow (set_pending a m s) = perif_flow s"
  by (simp_all add: set_pending_def perif_flow_def)

lemma flow_dec_fields [simp]:
  "queues (watch_free_write_aio m s) = queues s" "clients (watch_free_write_aio m s) = clients s"
  "next_flow (watch_free_write_aio m s) = next_flow s" "perif_flow (watch_free_write_aio m s) = perif_flow s"
  "aio_watches (watch_free_write_aio m s) = aio_watches s"
  by (simp_all add: watch_free_write_aio_def watch_flow_dec_def perif_flow_def split: option.splits)

lemma outstanding_unpended:
  "outstanding f (set_pending a None s) \<le> outstanding f s" for s :: "'z cntl_state_scheme"
  unfolding outstanding_def set_pending_fields
  by (rule waiting_pending) (simp add: set_pending_def pending_removed del: map_map)

lemma outstanding_written:
  fixes s :: "'z cntl_state_scheme"
  assumes "w \<in> set (aio_watches s)" and "w_pending w = Some m" and "m_flow m = Some f"
  shows "outstanding f (set_pending (w_addr w) None s) < outstanding f s"
  using pending_taken [OF assms]
  by (simp add: outstanding_def waiting_def set_pending_def del: map_map)

text \<open>The kernel changes the bytes of a message, not its flow.\<close>

lemma transfer_ok: "watch_ok (transfer ev w) = watch_ok w" "pending_flow f (transfer ev w) = pending_flow f w"
  by (auto simp: transfer_def watch_ok_def watch_shape_def pending_flow_def split: option.splits aio_done.splits)

lemma transfers_ok:
  "watch_ok (fold transfer evs w) = watch_ok w" "pending_flow f (fold transfer evs w) = pending_flow f w"
  by (induction evs arbitrary: w) (simp_all add: transfer_ok)

section \<open>The invariant\<close>

lemma flow_inv_pushed:
  assumes inv: "flow_inv s" and may: "may_push q (m_flow m) s"
  shows "flow_inv (enqueue q m (watch_flow_inc (m_flow m) s))"
proof -
  let ?s = "enqueue q m (watch_flow_inc (m_flow m) s)" and ?n = "length (clients s)"
  have fields: "clients ?s = clients s" "aio_watches ?s = aio_watches s" "next_flow ?s = next_flow s"
    "perif_flow ?s = perif_flow s" "queues ?s = (queues s)(q := queues s q @ [m])"
    by (simp_all add: enqueue_def watch_flow_inc_def perif_flow_def split: option.splits)
  have count: "outstanding f ?s = outstanding f s + (if m_flow m = Some f then 1 else 0)" for f
  proof (cases "client_queue q")
    case True
    then obtain c where c: "q = ClientOutq c" by (auto simp: client_queue_def)
    then have "c < ?n" using may by (simp add: may_push_def)
    from waiting_upd [OF this, of f "queues s" "queues s q @ [m]" "aio_watches s"]
    show ?thesis unfolding outstanding_def fields by (simp add: c)
  next
    case False
    then have "m_flow m = None" using may by (cases q) (auto simp: may_push_def client_queue_def)
    then show ?thesis using waiting_other [of q _ ?n f "queues s"] False unfolding outstanding_def fields by simp
  qed
  have flows: "flows ?s f = flows s f + (if m_flow m = Some f then 1 else 0)" for f
    by (simp add: enqueue_def watch_flow_inc_def split: option.splits)
  have "queues_ok ?n (queues ?s)"
    using inv may by (auto simp: flow_inv_def queues_ok_def fields may_push_def client_queue_def split: queue_id.splits)
  moreover have "int (outstanding f ?s) \<le> flows ?s f" for f
    using inv by (simp add: flow_inv_def count flows)
  moreover have "outstanding f ?s = 0" if "next_flow s \<le> f" for f
    using inv may that by (auto simp: flow_inv_def count may_push_def flow_known_def)
  ultimately show ?thesis
    using inv flow_known_cong [of ?s s] by (simp add: flow_inv_def fields)
qed

lemma flow_inv_written:
  fixes s :: "'z cntl_state_scheme"
  assumes inv: "flow_inv s" and w: "w \<in> set (aio_watches s)" "w_pending w = Some m"
  shows "flow_inv (set_pending (w_addr w) None (watch_free_write_aio m s))"
proof -
  let ?s = "set_pending (w_addr w) None (watch_free_write_aio m s)"
  have out: "outstanding f ?s = outstanding f (set_pending (w_addr w) None s)" for f
    by (simp add: outstanding_def set_pending_def)
  have "int (outstanding f ?s) \<le> flows ?s f" for f
  proof (cases "m_flow m = Some f")
    case True
    have "int (outstanding f s) \<le> flows s f" using inv by (simp add: flow_inv_def)
    with outstanding_written [OF w True] show ?thesis
      unfolding out by (auto simp: watch_free_write_aio_def watch_flow_dec_def True)
  next
    case False
    then have "flows ?s f = flows s f" by (auto simp: watch_free_write_aio_def watch_flow_dec_def split: option.splits)
    moreover have "int (outstanding f s) \<le> flows s f" using inv by (simp add: flow_inv_def)
    ultimately show ?thesis using outstanding_unpended [of f "w_addr w" s] unfolding out by simp
  qed
  moreover have "outstanding f ?s = 0" if "next_flow s \<le> f" for f
  proof -
    have "outstanding f s = 0" using inv that by (simp add: flow_inv_def)
    with outstanding_unpended [of f "w_addr w" s] show ?thesis unfolding out by simp
  qed
  moreover have "\<forall>v \<in> set (aio_watches ?s). watch_ok v"
    using inv by (auto simp: flow_inv_def set_pending_def watch_ok_unpended)
  moreover have "flow_known flow ?s = flow_known flow s" for flow by (rule flow_known_cong) simp
  ultimately show ?thesis using inv by (simp add: flow_inv_def)
qed

lemma flow_inv_cong: "io_view t = io_view s \<Longrightarrow> flow_inv t = flow_inv s"
  by (simp add: io_view_def flow_inv_def outstanding_def flow_known_def cong: option.case_cong)

lemma flow_inv_new_flow:
  assumes "flow_inv s"
  shows "flow_inv (s\<lparr>flows := (flows s)(next_flow s := 0), next_flow := Suc (next_flow s)\<rparr>)"
proof -
  have "flow_known flow s \<Longrightarrow> flow_known flow (s\<lparr>flows := (flows s)(next_flow s := 0), next_flow := Suc (next_flow s)\<rparr>)" for flow
    by (simp add: flow_known_def split: option.splits)
  then show ?thesis
    using assms by (simp add: flow_inv_def outstanding_def perif_flow_def)
qed

lemma flow_inv_aio:
  assumes "flow_inv s" and "\<forall>w \<in> set ws. watch_ok w"
    and "\<And>f. sum_list (map (pending_flow f) ws) \<le> sum_list (map (pending_flow f) (aio_watches s))"
  shows "flow_inv (s\<lparr>aio_watches := ws\<rparr>)"
proof -
  have le: "outstanding f (s\<lparr>aio_watches := ws\<rparr>) \<le> outstanding f s" for f
    unfolding outstanding_def using waiting_pending [OF assms(3)] by simp
  have "int (outstanding f (s\<lparr>aio_watches := ws\<rparr>)) \<le> flows s f" for f
  proof -
    have "int (outstanding f s) \<le> flows s f" using assms(1) by (simp add: flow_inv_def)
    with le [of f] show ?thesis by linarith
  qed
  moreover have "outstanding f (s\<lparr>aio_watches := ws\<rparr>) = 0" if "next_flow s \<le> f" for f
    using le [of f] assms(1) that by (simp add: flow_inv_def)
  moreover have "perif_flow (s\<lparr>aio_watches := ws\<rparr>) = perif_flow s" by (simp add: perif_flow_def)
  moreover have "flow_known flow (s\<lparr>aio_watches := ws\<rparr>) = flow_known flow s" for flow by (rule flow_known_cong) simp
  ultimately show ?thesis using assms(1,2) by (simp add: flow_inv_def)
qed

lemma pending_filter: "sum_list (map (pending_flow f) (filter T ws)) \<le> sum_list (map (pending_flow f) ws)"
  by (induction ws) auto

lemma flow_inv_queues:
  assumes "flow_inv s" and "queues_ok (length (clients s)) qs"
    and "\<And>f. waiting f (length (clients s)) qs ws = outstanding f s" and "\<forall>w \<in> set ws. watch_ok w"
  shows "flow_inv (s\<lparr>queues := qs, aio_watches := ws\<rparr>)"
proof -
  have "outstanding f (s\<lparr>queues := qs, aio_watches := ws\<rparr>) = outstanding f s" for f
    using assms(3) by (simp add: outstanding_def)
  moreover have "perif_flow (s\<lparr>queues := qs, aio_watches := ws\<rparr>) = perif_flow s" by (simp add: perif_flow_def)
  moreover have "flow_known flow (s\<lparr>queues := qs, aio_watches := ws\<rparr>) = flow_known flow s" for flow
    by (rule flow_known_cong) simp
  ultimately show ?thesis using assms(1,2,4) by (simp add: flow_inv_def)
qed

lemma flow_inv_empty_queue:
  assumes "flow_inv s" and "fresh_queue q s"
    and "ms = [] \<or> (\<exists>h. q = UsbOutq h) \<and> (\<forall>m \<in> set ms. m_flow m = None)"
  shows "flow_inv (s\<lparr>queues := (queues s)(q := ms)\<rparr>)"
proof -
  have "\<not> client_queue q \<or> (\<exists>c. q = ClientOutq c \<and> length (clients s) \<le> c)"
    using assms(2) by (auto simp: fresh_queue_def client_queue_def split: queue_id.splits)
  then have "waiting f (length (clients s)) ((queues s)(q := ms)) (aio_watches s) = outstanding f s" for f
    unfolding outstanding_def using waiting_other by blast
  moreover have "queues_ok (length (clients s)) ((queues s)(q := ms))"
    using assms by (auto simp: flow_inv_def queues_ok_def client_queue_def fresh_queue_def)
  moreover have "\<forall>w \<in> set (aio_watches s). watch_ok w" using assms(1) by (simp add: flow_inv_def)
  ultimately have "flow_inv (s\<lparr>queues := (queues s)(q := ms), aio_watches := aio_watches s\<rparr>)"
    by (intro flow_inv_queues [OF assms(1)])
  then show ?thesis by simp
qed

lemma flow_inv_new_client:
  assumes "flow_inv s"
  shows "flow_inv (s\<lparr>clients := clients s @ [cl]\<rparr>)"
proof -
  have "queues s (ClientOutq (length (clients s))) = []" using assms by (simp add: flow_inv_def queues_ok_def)
  then have "outstanding f (s\<lparr>clients := clients s @ [cl]\<rparr>) = outstanding f s" for f
    by (simp add: outstanding_def waiting_def)
  moreover have "perif_flow (s\<lparr>clients := clients s @ [cl]\<rparr>) = perif_flow s" by (simp add: perif_flow_def)
  moreover have "flow_known flow (s\<lparr>clients := clients s @ [cl]\<rparr>) = flow_known flow s" for flow
    by (rule flow_known_cong) simp
  ultimately show ?thesis using assms by (auto simp: flow_inv_def queues_ok_def)
qed

lemma io_view_frame [simp]:
  "io_view (s\<lparr>alloc_no := k\<rparr>) = io_view s" "io_view (s\<lparr>read_watches := ws\<rparr>) = io_view s"
  "io_view (set_client_buf c b s) = io_view s"
  by (simp_all add: io_view_def perif_flow_def set_client_buf_def set_client_def)

lemma flow_inv_frame [simp]:
  "flow_inv (s\<lparr>alloc_no := k\<rparr>) = flow_inv s" "flow_inv (s\<lparr>read_watches := ws\<rparr>) = flow_inv s"
  "flow_inv (set_client_buf c b s) = flow_inv s"
  by (rule flow_inv_cong, simp)+

lemma flow_inv_perif:
  fixes s :: "'z cntl_state_scheme"
  assumes "flow_inv s" and "\<And>perif. x = Obj perif \<Longrightarrow> flow_known (p_flow perif) s"
  shows "flow_inv (s\<lparr>perifs := (perifs s)(p := x)\<rparr>)"
proof -
  have "flow_known g (s\<lparr>perifs := (perifs s)(p := x)\<rparr>) = flow_known g s" for g by (rule flow_known_cong) simp
  moreover have "flow_known None s" by (simp add: flow_known_def)
  ultimately show ?thesis using assms by (auto simp: flow_inv_def outstanding_def perif_flow_def split: pointer.split)
qed

interpretation flow: loop_pred flow_inv True False
proof (unfold_locales, goal_cases)
  case (2 s' s)
  then have "io_view s' = io_view s" by (simp add: frame_view_def)
  then show ?case by (rule flow_inv_cong)
next
  case (6 s s')
  then have "io_view s' = io_view s" by (simp add: still_def)
  with 6 show ?case using flow_inv_cong by blast
next
  case (7 s q m)
  then show ?case by (intro flow_inv_pushed)
next
  case (8 s p)
  then show ?case by (simp add: flow_inv_def)
next
  case (9 s)
  then show ?case by (rule flow_inv_new_flow)
next
  case (10 s perif p)
  then show ?case by (intro flow_inv_perif) auto
next
  case (11 s p)
  then show ?case by (intro flow_inv_perif) auto
next
  case (12 s q ms)
  then show ?case by (intro flow_inv_empty_queue) auto
next
  case (13 s w q)
  then have "watch_ok w" by (simp add: watch_ok_def)
  moreover have "\<forall>w \<in> set (aio_watches s). watch_ok w" using 13(1) by (simp add: flow_inv_def)
  ultimately show ?case using 13(1,5) by (intro flow_inv_aio) (auto simp: pending_flow_def)
next
  case (14 s T)
  then show ?case by (intro flow_inv_aio) (auto simp: flow_inv_def pending_filter)
next
  case (17 s cl)
  then show ?case by (intro flow_inv_new_client)
next
  case (19 s w m)
  then show ?case by (intro flow_inv_written)
next
  case (20 s a)
  then show ?case
    unfolding set_pending_def by (intro flow_inv_aio pending_removed) (auto simp: flow_inv_def watch_ok_unpended)
next
  case (21 s w m h)
  then have "watch_ok w" by (simp add: flow_inv_def)
  with 21 show ?case by (simp add: watch_ok_def watch_shape_def client_queue_def)
next
  case (22 s acc ws qs)
  then have "queues_ok (length (clients s)) qs" "\<forall>w \<in> set ws. watch_ok w"
    "\<And>f. waiting f (length (clients s)) qs ws = outstanding f s"
    using poll_aio_waiting [OF 22(2), of "length (clients s)"] by (auto simp: flow_inv_def outstanding_def)
  then show ?case by (intro flow_inv_queues [OF 22(1)])
next
  case (23 s evs)
  then show ?case
    unfolding transferred_def by (intro flow_inv_aio) (auto simp: flow_inv_def transfers_ok comp_def)
qed simp_all

section \<open>From the start of the router\<close>

text \<open>The state before \<^verbatim>\<open>main\<close>: every static variable is zero and every list is empty.\<close>

definition initial :: "'z usb_state_scheme \<Rightarrow> bool" where
  "initial s \<longleftrightarrow>
     queues s = (\<lambda>_. []) \<and> flows s = (\<lambda>_. 0) \<and> aio_watches s = [] \<and> read_watches s = [] \<and> quit_watches s = [] \<and>
     timers s = [] \<and> clients s = [] \<and> perifs s = (\<lambda>_. Null) \<and> peripherals s = [] \<and> diag_cmds s = [] \<and>
     diag_ids s = [] \<and> common_cmds s = [] \<and> fallback_cmds s = [] \<and> devnodes s = [] \<and> qrtr_calls s = [] \<and>
     usb_handles s = [] \<and> \<not> do_watch_quit s \<and> next_perif s = 0 \<and>
     mi_ptr (msg_mask s) = Null \<and> mi_ptr (msg_bt_mask s) = Null \<and> mi_ptr (log_mask s) = Null \<and>
     mi_ptr (event_mask s) = Null"

text \<open>The whole of \<^verbatim>\<open>main\<close>: the start, and then the event loop.\<close>

definition router_main ::
    "opt list \<Rightarrow> environment \<Rightarrow> qrtr_decode \<Rightarrow> turn list \<Rightarrow> 'z usb_state_scheme \<Rightarrow> (bool \<times> 'z usb_state_scheme) res" where
  "router_main opts env decode tns s = andthen (diag_main opts env s) (watch_run decode tns)"

lemma flow_inv_initial: "initial s \<Longrightarrow> flow_inv s"
  by (simp add: initial_def flow_inv_def queues_ok_def outstanding_def waiting_def flow_known_def perif_flow_def)

lemma flow_inv_run:
  assumes "flow_inv s" and "watch_run decode tns s = Inr (r, s')"
  shows "flow_inv s'"
  using yieldsD [OF flow.watch_run [OF TrueI assms(1), where Q = "\<lambda>(_, t). flow_inv t"] assms(2)] by simp

lemma flow_inv_main:
  assumes "initial s" and "router_main opts env decode tns s = Inr (r, s')"
  shows "flow_inv s'"
proof -
  from assms(2) obtain t where t: "diag_main opts env s = Inr t" "watch_run decode tns t = Inr (r, s')"
    by (auto simp: router_main_def andthen_eq_Inr)
  have "flow_inv t"
    using yieldsD [OF flow.diag_main [OF flow_inv_initial [OF assms(1)], where Q = flow_inv] t(1)] by simp
  then show ?thesis using t(2) by (rule flow_inv_run)
qed

text \<open>A message that is being written is counted, so that its completion finds a positive count.\<close>

lemma pending_counted:
  fixes s :: "'z cntl_state_scheme"
  assumes "flow_inv s" and "w \<in> set (aio_watches s)" and "w_pending w = Some m" and "m_flow m = Some f"
  shows "0 < flows s f"
proof -
  have "outstanding f (set_pending (w_addr w) None s) < outstanding f s" by (rule outstanding_written [OF assms(2-4)])
  moreover have "int (outstanding f s) \<le> flows s f" using assms(1) by (simp add: flow_inv_def)
  ultimately show ?thesis by linarith
qed

section \<open>A client that went away\<close>

text \<open>Nothing writes the queue of the client any more, and what was on it stays there.\<close>

definition abandoned :: "client_id \<Rightarrow> mbuf list \<Rightarrow> 'z dm_state_scheme \<Rightarrow> bool" where
  "abandoned c ms s \<longleftrightarrow> c < length (clients s) \<and> (\<forall>w \<in> set (aio_watches s). w_queue w \<noteq> Some (ClientOutq c)) \<and>
     (\<exists>more. queues s (ClientOutq c) = ms @ more)"

lemma poll_aio_other:
  "poll_aio acc ws qs = Inr (ws', qs') \<Longrightarrow> \<forall>w \<in> set ws. w_queue w \<noteq> Some q \<Longrightarrow>
   qs' q = qs q \<and> (\<forall>w \<in> set ws'. w_queue w \<noteq> Some q)"
proof (induction ws arbitrary: qs ws' qs')
  case (Cons w ws)
  from Cons.prems(1) obtain r w1 rest ws1 where step: "w_queue w = Some r"
    "watch_poll_aio (acc (w_addr w)) w (qs r) = Inr (w1, rest)"
    "poll_aio acc ws (qs(r := rest)) = Inr (ws1, qs')" "ws' = w1 # ws1"
    by (auto simp: andthen_eq_Inr split: option.splits)
  have "w_queue w1 = w_queue w"
    using step(2) by (auto simp: watch_poll_aio_def watch_submit_aio_def split: if_splits list.splits)
  with Cons.IH [OF step(3)] Cons.prems(2) step(1,4) show ?case by auto
qed simp

lemma abandoned_cong: "io_view t = io_view s \<Longrightarrow> abandoned c ms t = abandoned c ms s"
  by (simp add: io_view_def abandoned_def)

lemma transfers_queue [simp]: "w_queue (fold transfer evs w) = w_queue w"
proof (induction evs arbitrary: w)
  case (Cons ev evs)
  then show ?case by (simp add: transfer_def)
qed simp

lemma abandoned_frame [simp]:
  "abandoned c ms (s\<lparr>alloc_no := k\<rparr>) = abandoned c ms s" "abandoned c ms (s\<lparr>read_watches := ws\<rparr>) = abandoned c ms s"
  "abandoned c ms (s\<lparr>perifs := ps\<rparr>) = abandoned c ms s"
  "abandoned c ms (set_client_buf d b s) = abandoned c ms s"
  by (simp_all add: abandoned_def set_client_buf_def set_client_def)

interpretation away: loop_pred "\<lambda>s. flow_inv s \<and> abandoned c ms s" True False for c ms
proof (unfold_locales, goal_cases)
  case (2 s' s)
  then have "io_view s' = io_view s" by (simp add: frame_view_def)
  then show ?case using flow_inv_cong abandoned_cong by blast
next
  case (6 s s')
  then have "io_view s' = io_view s" by (simp add: still_def)
  with 6 show ?case using flow_inv_cong abandoned_cong by blast
next
  case (7 s q m)
  then show ?case
    using flow.push [of s q m] by (auto simp: abandoned_def enqueue_def watch_flow_inc_def split: option.splits)
next
  case (8 s p)
  then show ?case using flow.known by blast
next
  case (9 s)
  then show ?case using flow.new_flow [of s] by (simp add: abandoned_def)
next
  case (10 s perif p)
  then show ?case using flow.new_perif [of s perif p] by simp
next
  case (11 s p)
  then show ?case using flow.free_perif [of s p] by simp
next
  case (12 s q qms)
  then have "q \<noteq> ClientOutq c" by (auto simp: fresh_queue_def abandoned_def)
  with 12 show ?case using flow.empty_queue [of s q qms] by (auto simp: abandoned_def)
next
  case (13 s w q)
  then have "q \<noteq> ClientOutq c" by (auto simp: fresh_queue_def abandoned_def)
  with 13 show ?case using flow.new_watch [of s w q] by (auto simp: abandoned_def)
next
  case (14 s T)
  then show ?case using flow.no_watch [of s T] by (auto simp: abandoned_def)
next
  case (17 s cl)
  then show ?case using flow.new_client [of s cl] by (simp add: abandoned_def)
next
  case (19 s w m)
  then show ?case using flow.written [of s w m] by (auto simp: abandoned_def set_pending_def)
next
  case (20 s a)
  then show ?case using flow.unpended [of s a] by (auto simp: abandoned_def set_pending_def)
next
  case (21 s w m h)
  then show ?case using flow.read_flow by blast
next
  case (22 s acc ws qs)
  then show ?case using flow.polled [OF _ 22(2)] poll_aio_other [OF 22(2), of "ClientOutq c"] by (auto simp: abandoned_def)
next
  case (23 s evs)
  then show ?case using flow.read_in [of s evs] by (auto simp: abandoned_def transferred_def)
qed simp_all

lemma abandoned_run:
  assumes "flow_inv s" and "abandoned c ms s" and "watch_run decode tns s = Inr (r, s')"
  shows "flow_inv s' \<and> abandoned c ms s'"
proof -
  have "flow_inv s \<and> abandoned c ms s" using assms(1,2) by simp
  from yieldsD [OF away.watch_run [OF TrueI this, where Q = "\<lambda>(_, t). flow_inv t \<and> abandoned c ms t"] assms(3)]
  show ?thesis by simp
qed

lemma abandoned_blocks:
  assumes "flow_inv s" and "abandoned c ms s" and "10 < flow_count f ms"
  shows "watch_flow_blocked (Some f) s"
proof -
  from assms(2) obtain rest where c: "c < length (clients s)" "queues s (ClientOutq c) = ms @ rest"
    by (auto simp: abandoned_def)
  have "flow_count f (queues s (ClientOutq c)) \<le> (\<Sum>i<length (clients s). flow_count f (queues s (ClientOutq i)))"
    using c(1) by (intro member_le_sum) auto
  then have "10 < outstanding f s" using assms(3) c(2) by (simp add: outstanding_def waiting_def)
  moreover have "int (outstanding f s) \<le> flows s f" using assms(1) by (simp add: flow_inv_def)
  ultimately show ?thesis by (simp add: watch_flow_blocked_def FLOW_WATERMARK_def)
qed

text \<open>Every message broadcast while the client is enabled stays on its queue.\<close>

lemma broadcasts_abandoned:
  fixes s :: "'z usb_state_scheme"
  assumes "dm_wf s" and "flow_inv s" and "c < length (clients s)" and "cl_enabled (clients s ! c)"
    and "\<forall>w \<in> set (aio_watches s). w_queue w \<noteq> Some (ClientOutq c)" and "f < next_flow s"
    and "fold_res (\<lambda>msg. dm_broadcast msg (Some f)) msgs s = Inr t"
  shows "flow_inv t \<and> abandoned c (queues t (ClientOutq c)) t \<and> length msgs \<le> flow_count f (queues t (ClientOutq c))"
proof -
  have "flow_inv t \<and> abandoned c (queues t (ClientOutq c)) t \<and>
      flow_count f (queues t (ClientOutq c)) = flow_count f (queues s (ClientOutq c)) + length msgs"
    using assms
  proof (induction msgs arbitrary: s)
    case Nil
    then show ?case by (simp add: abandoned_def)
  next
    case (Cons msg msgs)
    obtain u where u: "dm_broadcast msg (Some f) s = Inr u" "dm_wf u" "clients u = clients s" "queued s u"
      "\<And>q. queues u q = queues s q @ delivered (clients s) msg (Some f) [0..<length (clients s)] q"
      by (rule dm_broadcast_queued [OF Cons.prems(1), where msg = msg and flow = "Some f"]) blast
    have rest: "fold_res (\<lambda>msg. dm_broadcast msg (Some f)) msgs u = Inr t" using Cons.prems(7) u(1) by simp
    have "flow_known (Some f) s" using Cons.prems(6) by (simp add: flow_known_def)
    from yieldsD [OF flow.dm_broadcast [OF Cons.prems(2) this, where Q = "\<lambda>t. flow_inv t \<and> next_flow t = next_flow s"] u(1)]
    have inv: "flow_inv u" "next_flow u = next_flow s" by (simp_all add: flow.kept_def)
    have one: "queues u (ClientOutq c) = queues s (ClientOutq c) @ [mbuf_for (client_encode (clients s ! c) msg) (Some f)]"
      using u(5) [of "ClientOutq c"] Cons.prems(3,4) by (simp add: delivered_def)
    have aio: "aio_watches u = aio_watches s" using queued_watches [OF u(4)] by simp
    from Cons.IH [OF u(2) inv(1) _ _ _ _ rest] Cons.prems(3-6) show ?case
      by (simp add: u(3) aio one inv(2) mbuf_for_def)
  qed
  then show ?thesis by simp
qed

text \<open>
  A raw client on one descriptor that closes its connection: its watches are released, but
  it stays enabled.
\<close>

lemma disconnect_abandons:
  fixes s :: "'z usb_state_scheme"
  assumes c: "c < length (clients s)" "cl_encode_type (clients s ! c) = DIAG_ENCODE_RAW"
    and fds: "\<forall>w \<in> set (aio_watches s). w_queue w = Some (ClientOutq c) \<longrightarrow> w_fd w = cl_in_fd (clients s ! c)"
  shows "\<exists>t. dm_recv (Some c) [Eof] s = Inr (0, [Eof], t) \<and> clients t = clients s \<and> next_flow t = next_flow s \<and>
    dm_wf t = dm_wf s \<and> (\<forall>w \<in> set (aio_watches t). w_queue w \<noteq> Some (ClientOutq c))"
  using assms
  by (auto simp: dm_recv_def arr_read_def dm_recv_raw_def alloca_def Let_def dm_recv_raw_loop.simps [of c _ _ "[Eof]"]
      watch_remove_fd_def dm_wf_def mem_ok_def)

lemma gone_client_blocks:
  fixes s :: "'z usb_state_scheme"
  assumes wf: "dm_wf s" "flow_inv s" "f < next_flow s"
    and c: "c < length (clients s)" "cl_encode_type (clients s ! c) = DIAG_ENCODE_RAW" "cl_enabled (clients s ! c)"
    and fds: "\<forall>w \<in> set (aio_watches s). w_queue w = Some (ClientOutq c) \<longrightarrow> w_fd w = cl_in_fd (clients s ! c)"
    and gone: "dm_recv (Some c) [Eof] s = Inr (0, [Eof], t)"
    and sent: "fold_res (\<lambda>msg. dm_broadcast msg (Some f)) msgs t = Inr u" "10 < length msgs"
    and run: "watch_run decode tns u = Inr (r, v)"
  shows "watch_flow_blocked (Some f) v"
proof -
  obtain t' where "dm_recv (Some c) [Eof] s = Inr (0, [Eof], t')" "clients t' = clients s" "next_flow t' = next_flow s"
    "dm_wf t' = dm_wf s" "\<forall>w \<in> set (aio_watches t'). w_queue w \<noteq> Some (ClientOutq c)"
    using disconnect_abandons [OF c(1,2) fds] by blast
  with gone have t: "clients t = clients s" "next_flow t = next_flow s" "dm_wf t"
    "\<forall>w \<in> set (aio_watches t). w_queue w \<noteq> Some (ClientOutq c)" using wf(1) by auto
  have "flow_inv t" using yieldsD [OF flow.dm_recv [OF wf(2), where Q = "\<lambda>(_, _, t). flow_inv t"] gone] by simp
  from broadcasts_abandoned [OF t(3) this _ _ t(4) _ sent(1)] have
    u: "flow_inv u" "abandoned c (queues u (ClientOutq c)) u" "length msgs \<le> flow_count f (queues u (ClientOutq c))"
    using c wf(3) t by simp_all
  from abandoned_run [OF u(1,2) run] have v: "flow_inv v" "abandoned c (queues u (ClientOutq c)) v" by simp_all
  show ?thesis by (rule abandoned_blocks [OF v]) (use u(3) sent(2) in simp)
qed

section \<open>Descriptors that are not watched\<close>

text \<open>
  A turn does not ask anything of a descriptor of which every watch has a flow that is
  blocked: whatever there is to be read from it makes no difference.
\<close>

lemma watch_read_answers:
  assumes "\<And>fd. fd \<in> set rfds \<Longrightarrow> an fd = an' fd"
  shows "watch_read decode rfds an w s = watch_read decode rfds an' w s"
proof (cases "w_fd w \<in> set rfds")
  case True
  then have "an (w_fd w) = an' (w_fd w)" by (rule assms)
  then show ?thesis by (auto simp: watch_read_def split: option.splits)
qed (simp add: watch_read_def)

lemma turn_answers:
  assumes "\<And>fd. an fd \<noteq> tn_answers tn fd \<Longrightarrow>
    \<forall>w \<in> set (read_watches s). w_fd w = fd \<longrightarrow> watch_flow_blocked (w_flow w) s"
  shows "watch_turn decode (tn\<lparr>tn_answers := an\<rparr>) s = watch_turn decode tn s"
proof -
  have *: "watch_read decode (filter (\<lambda>fd. fd \<in> set rfds) fds) an =
      watch_read decode (filter (\<lambda>fd. fd \<in> set rfds) fds) (tn_answers tn)"
    if set: "read_set (read_watches s) (s\<lparr>clock := now\<rparr>) = Inr rfds" for rfds fds now
  proof (rule ext, rule ext, rule watch_read_answers)
    fix w t fd
    assume "fd \<in> set (filter (\<lambda>fd. fd \<in> set rfds) fds)"
    then obtain w where "w \<in> set (read_watches s)" "w_fd w = fd" "\<not> watch_flow_blocked (w_flow w) s"
      using read_set_unblocked [OF set] by (auto simp: watch_flow_blocked_def cong: option.case_cong)
    with assms [of fd] show "an fd = tn_answers tn fd" by blast
  qed
  have none: "watch_read decode [] an = watch_read decode [] (tn_answers tn)"
    by (rule ext, rule ext, rule watch_read_answers) simp
  show ?thesis
    by (cases "read_set (read_watches s) (s\<lparr>clock := tn_clock tn\<rparr>)"; cases "tn_select tn")
      (simp_all add: watch_turn_def Let_def none * cong: if_cong option.case_cong)
qed

end
