(* ===== verification/Loop_Faults.thy ===== *)
theory Loop_Faults
  imports Flow_Control
begin

text \<open>
  Sequences of callbacks and turns that end in a fault: what the handlers leave behind in the
  tables of the event loop, and what the loop then does with it.
\<close>

section \<open>Two servers\<close>

lemma poll_aio_append:
  "poll_aio acc (ws @ vs) qs =
    andthen (poll_aio acc ws qs) (\<lambda>(ws, qs). andthen (poll_aio acc vs qs) (\<lambda>(vs, qs). Inr (ws @ vs, qs)))"
proof (induction ws arbitrary: qs)
  case Nil
  then show ?case by (cases "poll_aio acc vs qs") auto
next
  case (Cons w ws)
  show ?case
  proof (cases "w_queue w")
    case (Some q)
    show ?thesis
    proof (cases "watch_poll_aio (acc (w_addr w)) w (qs q)")
      case (Inr r)
      obtain w' rest where r: "r = (w', rest)" by (cases r)
      show ?thesis
        using Some Inr Cons.IH [of "qs(q := rest)"]
        by (auto simp: r andthen_assoc case_prod_beta simp del: fun_upd_apply)
    qed (simp add: Some)
  qed simp
qed

text \<open>Each packet that announces a server adds a watch of its own for the command queue.\<close>

definition cmd_watch :: "nat \<Rightarrow> perif_id \<Rightarrow> peripheral \<Rightarrow> watch" where
  "cmd_watch a p perif =
     watch_zero\<lparr>w_addr := a, w_fd := p_cmd_fd perif, w_queue := Some (PerifCmdq p), w_complete := Some AioFreeWrite,
       w_is_write := True\<rparr>"

lemma new_server_adds_watch:
  assumes "mem_ok s" and "perifs s p = Obj perif" and "decode bs = Inr pkt" and "qp_type pkt = QrtrNewServer"
    and "\<not> (qp_node pkt = 0 \<and> qp_port pkt = 0)"
  shows "\<exists>t perif'. qrtr_cmd_recv decode True p (Recv bs) s = Inr (0, t) \<and> mem_ok t \<and> alloc_no t = Suc (alloc_no s) \<and>
    perifs t p = Obj perif' \<and> p_cmd_fd perif' = p_cmd_fd perif \<and> queues t = queues s \<and>
    aio_watches t = aio_watches s @ [cmd_watch (alloc_no s) p perif]"
proof -
  let ?ring = "p_recv_buf perif"
  let ?perif = "perif\<lparr>p_recv_buf := ?ring\<lparr>buf := byte (mem_msg bs HDLC_BUF_SIZE (buf ?ring))\<rparr>\<rparr>"
  let ?s = "set_perif p ?perif s"
  let ?t = "?s\<lparr>alloc_no := Suc (alloc_no s), aio_watches := aio_watches s @ [cmd_watch (alloc_no s) p perif]\<rparr>"
  have "alloc_ok s (alloc_no s)" using assms(1) by simp
  then have "watch_add_writeq (p_cmd_fd perif) (PerifCmdq p) ?s = Inr ?t"
    by (simp add: watch_add_writeq_def calloc_or_exit_def malloc_def set_perif_def cmd_watch_def)
  then have "qrtr_cmd_recv decode True p (Recv bs) s = Inr (0, ?t)"
    using assms(2-5) by (auto simp: qrtr_cmd_recv_def Let_def)
  moreover have "mem_ok ?t" using assms(1) by (simp add: mem_ok_def set_perif_def)
  moreover have "alloc_no ?t = Suc (alloc_no s)" "perifs ?t p = Obj ?perif" "p_cmd_fd ?perif = p_cmd_fd perif"
    "queues ?t = queues s" "aio_watches ?t = aio_watches s @ [cmd_watch (alloc_no s) p perif]"
    by (simp_all add: set_perif_def)
  ultimately show ?thesis by blast
qed

lemma submitted_fields: "submitted w w' \<Longrightarrow> w_addr w' = w_addr w \<and> w_fd w' = w_fd w"
  by (auto simp: submitted_def)

lemma two_servers_assert:
  assumes mem: "mem_ok s" and perif: "perifs s p = Obj perif"
    and pkt: "decode bs = Inr pkt" "qp_type pkt = QrtrNewServer" "\<not> (qp_node pkt = 0 \<and> qp_port pkt = 0)"
    and aio: "distinct (map w_addr (aio_watches s))"
      "\<forall>w \<in> set (aio_watches s). w_addr w < alloc_no s \<and> w_queue w \<noteq> None \<and> w_queue w \<noteq> Some (PerifCmdq p) \<and>
         w_fd w \<noteq> p_cmd_fd perif"
    and empty: "queues s (PerifCmdq p) = []" and res: "res \<noteq> - EAGAIN"
  shows "andthen (qrtr_cmd_recv decode True p (Recv bs) s) (\<lambda>(_, t).
         andthen (qrtr_cmd_recv decode True p (Recv bs) t) (\<lambda>(_, t).
         andthen (queue_push (PerifCmdq p) msg t) (\<lambda>t.
         andthen (watch_poll (\<lambda>_. True) t) (\<lambda>t.
           watch_handle_eventfd (walk_fuel t) (Some [\<lparr>ev_watch = alloc_no s, ev_res = res, ev_data = []\<rparr>]) t)))) =
    Inl AssertFailed"
proof -
  let ?q = "PerifCmdq p" and ?m = "mbuf_for msg None"
  let ?a = "cmd_watch (alloc_no s) p perif" and ?b = "cmd_watch (Suc (alloc_no s)) p perif"
  obtain t perif1 where t: "qrtr_cmd_recv decode True p (Recv bs) s = Inr (0, t)" "mem_ok t" "alloc_no t = Suc (alloc_no s)"
    "perifs t p = Obj perif1" "p_cmd_fd perif1 = p_cmd_fd perif" "queues t = queues s" "aio_watches t = aio_watches s @ [?a]"
    using new_server_adds_watch [of s p perif decode bs pkt] mem perif pkt by blast
  obtain u where u: "qrtr_cmd_recv decode True p (Recv bs) t = Inr (0, u)" "mem_ok u" "queues u = queues t"
    "aio_watches u = aio_watches t @ [cmd_watch (alloc_no t) p perif1]"
    using new_server_adds_watch [of t p perif1 decode bs pkt] t(2,4) pkt by blast
  have b: "cmd_watch (alloc_no t) p perif1 = ?b" by (simp add: cmd_watch_def t(3,5))
  define v where "v = pushed ?q msg None (bump 1 u)"
  have v: "queue_push ?q msg u = Inr v" "queues v ?q = [?m]" "aio_watches v = aio_watches s @ [?a, ?b]"
    using queue_push_flow_ok [OF u(2), of ?q msg None] empty
    by (simp_all add: v_def queue_push_def u(3,4) t(6,7) b pushed_def enqueue_def watch_flow_inc_def bump_def)
  have queues: "\<forall>w \<in> set (aio_watches s). w_queue w \<noteq> None" "\<forall>w \<in> set (aio_watches s). w_queue w \<noteq> Some ?q"
    using aio(2) by auto
  obtain ws qs where poll: "poll_aio (\<lambda>_. True) (aio_watches s) (queues v) = Inr (ws, qs)"
    "list_all2 submitted (aio_watches s) ws"
    using poll_aio_ok [OF queues(1)] by blast
  have "qs ?q = [?m]" using poll_aio_other [OF poll(1) queues(2)] v(2) by simp
  then have two: "poll_aio (\<lambda>_. True) [?a, ?b] qs = Inr ([?a\<lparr>w_pending := Some ?m\<rparr>, ?b], qs(?q := []))"
    by (simp add: cmd_watch_def watch_zero_def watch_poll_aio_def watch_submit_aio_def)
  define x where "x = v\<lparr>queues := qs(?q := []), aio_watches := ws @ [?a\<lparr>w_pending := Some ?m\<rparr>, ?b]\<rparr>"
  have x: "watch_poll (\<lambda>_. True) v = Inr x"
    using poll(1) two by (simp add: watch_poll_def v(3) poll_aio_append x_def)
  have same: "map w_addr ws = map w_addr (aio_watches s)" "map w_fd ws = map w_fd (aio_watches s)"
    using poll(2) submitted_fields by (auto simp: list_all2_conv_all_nth intro!: nth_equalityI)
  have "watch_handle_eventfd (walk_fuel x) (Some [\<lparr>ev_watch = alloc_no s, ev_res = res, ev_data = []\<rparr>]) x = Inl AssertFailed"
  proof (rule second_watch_asserts [where idle = ?b and owner = "?a\<lparr>w_pending := Some ?m\<rparr>"])
    have "alloc_no s \<notin> set (map w_addr ws)" "Suc (alloc_no s) \<notin> set (map w_addr ws)"
      using aio(2) unfolding same(1) by auto
    then show "distinct (map w_addr (aio_watches x))"
      using aio(1) same(1) by (simp add: x_def cmd_watch_def)
    have "p_cmd_fd perif \<notin> set (map w_fd ws)" using aio(2) unfolding same(2) by auto
    then have "\<forall>w \<in> set ws. w_fd w \<noteq> p_cmd_fd perif" by (auto simp: image_iff)
    then show "\<forall>w \<in> set (aio_watches x). w_fd w = w_fd ?b \<longrightarrow> w_is_write w \<and> w_complete w = Some AioFreeWrite"
      by (auto simp: x_def cmd_watch_def)
  qed (use res in \<open>simp_all add: x_def cmd_watch_def watch_zero_def walk_fuel_def\<close>)
  then show ?thesis by (simp add: t(1) u(1) v(1) x)
qed

section \<open>A client that closes while it is written to\<close>

text \<open>
  The watch is released with its control block; the request is still with the kernel, and
  its completion is looked up in the block.
\<close>

lemma disconnect_in_flight:
  assumes c: "c < length (clients s)" "cl_encode_type (clients s ! c) = DIAG_ENCODE_RAW"
    and w: "w \<in> set (aio_watches s)" "w_fd w = cl_in_fd (clients s ! c)" "distinct (map w_addr (aio_watches s))"
    and v: "v \<in> set (aio_watches s)" "w_fd v \<noteq> cl_in_fd (clients s ! c)"
    and ev: "ev_watch ev = w_addr w" and fuel: "0 < fuel"
  shows "andthen (dm_recv (Some c) [Eof] s) (\<lambda>(_, _, t). watch_handle_eventfd fuel (Some (ev # evs)) t) = Inl UseAfterFree"
proof -
  let ?fd = "cl_in_fd (clients s ! c)"
  obtain t where t: "dm_recv (Some c) [Eof] s = Inr (0, [Eof], t)"
    "aio_watches t = filter (\<lambda>w. w_fd w \<noteq> ?fd) (aio_watches s)"
    using c
    by (simp add: dm_recv_def arr_read_def dm_recv_raw_def alloca_def Let_def dm_recv_raw_loop.simps [of c _ _ "[Eof]"]
        watch_remove_fd_def)
  have "w_addr w \<notin> w_addr ` set (aio_watches t)"
  proof
    assume "w_addr w \<in> w_addr ` set (aio_watches t)"
    then obtain u where u: "u \<in> set (aio_watches s)" "w_fd u \<noteq> ?fd" "w_addr u = w_addr w" by (auto simp: t(2))
    then have "u = w" using w(1,3) by (meson distinct_map inj_onD)
    with u(2) w(2) show False by simp
  qed
  moreover have "aio_watches t \<noteq> []" using v by (auto simp: t(2) filter_empty_conv)
  ultimately show ?thesis using finished_after_release [of t ev fuel evs] ev fuel by (simp add: t(1))
qed

section \<open>A transfer that fills the ring\<close>

text \<open>
  With the head outside the ring the decoder never meets it, and reads the array round and
  round: \<open>unrolled\<close> is what it reads from the tail on.
\<close>

definition unrolled :: "circ_buf \<Rightarrow> nat \<Rightarrow> u8 list" where
  "unrolled b n = map (\<lambda>i. buf b ((unat (tail b) + i) mod HDLC_BUF_SIZE)) [0..<n]"

lemma unrolled_0 [simp]: "unrolled b 0 = []"
  by (simp add: unrolled_def)

lemma tail_pop: "unat (tail b) < HDLC_BUF_SIZE \<Longrightarrow> unat (tail (circ_pop b)) = (unat (tail b) + 1) mod HDLC_BUF_SIZE"
  by (simp add: circ_pop_def HDLC_BUF_SIZE_def unat_word_ariths)

lemma unrolled_Suc:
  assumes "unat (tail b) < HDLC_BUF_SIZE"
  shows "unrolled b (Suc n) = buf b (unat (tail b)) # unrolled (circ_pop b) n"
proof -
  have "(unat (tail b) + Suc i) mod HDLC_BUF_SIZE = (unat (tail (circ_pop b)) + i) mod HDLC_BUF_SIZE" for i
    unfolding tail_pop [OF assms] by (simp add: mod_add_left_eq)
  then show ?thesis
    using assms unfolding unrolled_def by (simp add: upt_conv_Cons map_Suc_upt [symmetric] del: upt_Suc)
qed

lemma unrolled_rotate:
  assumes "buf b' = buf b" and "unat (tail b') = (unat (tail b) + k) mod HDLC_BUF_SIZE"
  shows "unrolled b' HDLC_BUF_SIZE = rotate k (unrolled b HDLC_BUF_SIZE)"
proof (rule nth_equalityI)
  fix i assume "i < length (unrolled b' HDLC_BUF_SIZE)"
  then have i: "i < HDLC_BUF_SIZE" by (simp add: unrolled_def)
  have "(unat (tail b') + i) mod HDLC_BUF_SIZE = (unat (tail b) + (k + i) mod HDLC_BUF_SIZE) mod HDLC_BUF_SIZE"
    by (simp add: assms(2) mod_add_left_eq mod_add_right_eq add.assoc)
  moreover have "(k + i) mod HDLC_BUF_SIZE < HDLC_BUF_SIZE" by (simp add: HDLC_BUF_SIZE_def)
  ultimately show "unrolled b' HDLC_BUF_SIZE ! i = rotate k (unrolled b HDLC_BUF_SIZE) ! i"
    using i assms(1) by (simp add: unrolled_def nth_rotate)
qed (simp add: unrolled_def)

lemma only_escapes_scan:
  assumes "only_escapes b"
  shows "scan esc (unrolled b n) \<noteq> (ds, e, True, rest)"
proof -
  have "i mod HDLC_BUF_SIZE < HDLC_BUF_SIZE" for i by (simp add: HDLC_BUF_SIZE_def)
  then have "0x7e \<notin> set (unrolled b n)" using assms by (auto simp: only_escapes_def unrolled_def list_all_iff)
  from scan_no_delimiter [OF this, of esc] show ?thesis by auto
qed

lemma decode_loop_outside:
  assumes "HDLC_BUF_SIZE \<le> unat (head b)" and "unat (tail b) < HDLC_BUF_SIZE" and "raw d = Some r"
    and "scan (escape d) (unrolled b n) = (ds, e, True, rest)" and "r + length ds \<le> HDLC_BUF_SIZE"
  shows "\<exists>d' b'. hdlc_decode_loop d b = Inr (True, d', b') \<and> raw d' = Some (r + length ds) \<and>
    decoded_prefix d' (r + length ds) = decoded_prefix d r @ ds \<and> head b' = head b \<and> buf b' = buf b \<and>
    length rest \<le> n \<and> unat (tail b') = (unat (tail b) + (n - length rest)) mod HDLC_BUF_SIZE"
  using assms
proof (induction d b arbitrary: r ds n rule: hdlc_decode_loop.induct)
  case (1 d b)
  let ?ch = "buf b (unat (tail b))"
  have ne: "tail b \<noteq> head b" and tl: "\<not> HDLC_BUF_SIZE \<le> unat (tail b)" using "1.prems"(1,2) by auto
  have live: "\<not> only_escapes b" using "1.prems"(4) only_escapes_scan by blast
  obtain m where n: "n = Suc m" using "1.prems"(4) by (cases n) auto
  note unf = hdlc_decode_loop.simps [of d b, folded circ_pop_def] and un = unrolled_Suc [OF "1.prems"(2), of m, folded n]
  note IH = "1.IH" [OF ne tl live refl refl, folded circ_pop_def]
  note pop = tail_pop [OF "1.prems"(2)]
  then have bnd: "unat (tail (circ_pop b)) < HDLC_BUF_SIZE" by (simp add: HDLC_BUF_SIZE_def)
  have step: "(unat (tail (circ_pop b)) + (m - k)) mod HDLC_BUF_SIZE = (unat (tail b) + (n - k)) mod HDLC_BUF_SIZE"
    if km: "k \<le> m" for k
  proof -
    obtain j where "m = k + j" using le_Suc_ex [OF km] by blast
    then have "m - k = j" "n - k = 1 + j" using n by simp_all
    then show ?thesis by (simp only: pop mod_add_left_eq add.assoc)
  qed
  consider "?ch = 0x7e" | "?ch = 0x7d" | "?ch \<noteq> 0x7e" "?ch \<noteq> 0x7d" by blast
  then show ?case
  proof cases
    case 1
    then have "rest = unrolled (circ_pop b) m" "ds = []" using "1.prems"(4) un by simp_all
    with 1 ne tl live pop n "1.prems"(3) show ?thesis by (auto simp: unf unrolled_def)
  next
    case 2
    with IH(1) [of r m ds] "1.prems" ne tl live bnd un n step [of "length rest"] show ?thesis
      by (auto simp: unf decoded_prefix_def)
  next
    case 3
    obtain ds' where sc: "scan 0 (unrolled (circ_pop b) m) = (ds', e, True, rest)" and ds: "ds = (?ch XOR escape d) # ds'"
      using "1.prems"(4) un 3 by (auto split: prod.splits)
    have r: "\<not> HDLC_BUF_SIZE \<le> r" using "1.prems"(5) ds by simp
    let ?d = "d\<lparr>raw_buf := (raw_buf d)(r := ?ch XOR escape d), raw := Some (r + 1), escape := 0\<rparr>"
    have "hdlc_decode_loop d b = hdlc_decode_loop ?d (circ_pop b)"
      using ne tl live 3 "1.prems"(3) r by (simp add: unf)
    moreover have "decoded_prefix ?d (r + 1) = decoded_prefix d r @ [?ch XOR escape d]" by (simp add: decoded_prefix_def)
    ultimately show ?thesis
      using IH(2) [OF 3 "1.prems"(3) r, of "r + 1" m ds'] sc ds bnd "1.prems"(1,5) n step [of "length rest"] by auto
  qed
qed

lemma decode_one_outside:
  assumes "HDLC_BUF_SIZE \<le> unat (head b)" and "unat (tail b) < HDLC_BUF_SIZE" and "decoder_idle d"
    and "scan 0 (unrolled b n) = (ds, e, True, rest)" and "ds \<noteq> []" and "length ds \<le> HDLC_BUF_SIZE"
  shows "\<exists>d' b'. hdlc_decode_one d b = Inr (Some (of_nat (length ds) - 2), d', b') \<and> decoder_idle d' \<and>
    decoded_prefix d' (length ds) = ds \<and> head b' = head b \<and> buf b' = buf b \<and>
    length rest \<le> n \<and> unat (tail b') = (unat (tail b) + (n - length rest)) mod HDLC_BUF_SIZE"
proof -
  define d0 where "d0 = (case raw d of None \<Rightarrow> d\<lparr>raw := Some 0\<rparr> | Some _ \<Rightarrow> d)"
  have d0: "raw d0 = Some 0" "escape d0 = 0" using assms(3) by (auto simp: d0_def decoder_idle_def)
  obtain d1 b1 where "hdlc_decode_loop d0 b = Inr (True, d1, b1)" "raw d1 = Some (length ds)"
      "decoded_prefix d1 (length ds) = ds" "head b1 = head b" "buf b1 = buf b" "length rest \<le> n"
      "unat (tail b1) = (unat (tail b) + (n - length rest)) mod HDLC_BUF_SIZE"
    using decode_loop_outside [OF assms(1,2) d0(1), of n ds e rest] assms(4,6) d0(2)
    by (auto simp: decoded_prefix_def)
  then show ?thesis
    using assms(5) by (auto simp: hdlc_decode_one_def decoder_idle_def decoded_prefix_def simp flip: d0_def)
qed

text \<open>
  An array full of frames: the frames are handled one after the other, and after the last
  one comes the first again, whatever the number of rounds.
\<close>

definition cycled :: "nat \<Rightarrow> 'a list \<Rightarrow> 'a list" where
  "cycled n xs = map (\<lambda>i. xs ! (i mod length xs)) [0..<n]"

lemma length_cycled [simp]: "length (cycled n xs) = n"
  by (simp add: cycled_def)

lemma set_cycled: "xs \<noteq> [] \<Longrightarrow> set (cycled n xs) \<subseteq> set xs"
  by (auto simp: cycled_def)

lemma cycled_Suc: "cycled (Suc n) (x # xs) = x # cycled n (xs @ [x])"
proof -
  have "(x # xs) ! (Suc i mod length (x # xs)) = (xs @ [x]) ! (i mod length (xs @ [x]))" for i
    using nth_rotate1 [of "i mod length (x # xs)" "x # xs"] by (simp add: mod_Suc_eq)
  then show ?thesis by (simp add: cycled_def upt_conv_Cons map_Suc_upt [symmetric] del: upt_Suc)
qed

lemma recv_frames_around:
  assumes "HDLC_BUF_SIZE \<le> unat (head b)" and "unat (tail b) < HDLC_BUF_SIZE" and "decoder_idle d"
    and "unrolled b HDLC_BUF_SIZE = concat (map hdlc_encode_bytes ms)"
  shows "\<exists>reqs. list_all2 frame_request reqs (map (\<lambda>m. m @ fcs_bytes (crc_of m)) (cycled fuel ms)) \<and>
    (\<forall>s :: 'z router_state_scheme. dm_recv_frames fuel c d b s = andthen (handle_all c reqs s) (\<lambda>_. Inl Diverged))"
  using assms
proof (induction fuel arbitrary: d b ms)
  case 0
  then show ?case by (simp add: cycled_def)
next
  case (Suc fuel)
  have "length (unrolled b HDLC_BUF_SIZE) = HDLC_BUF_SIZE" by (simp add: unrolled_def)
  then have size: "length (concat (map hdlc_encode_bytes ms)) = HDLC_BUF_SIZE" by (simp add: Suc.prems(4))
  then obtain m ms' where ms: "ms = m # ms'" by (cases ms) (auto simp: HDLC_BUF_SIZE_def)
  let ?ds = "m @ fcs_bytes (crc_of m)" and ?rest = "concat (map hdlc_encode_bytes ms')"
  have sc: "scan 0 (unrolled b HDLC_BUF_SIZE) = (?ds, 0, True, ?rest)"
    using scan_encoded [of m ?rest] by (simp add: Suc.prems(4) ms)
  have len: "length ?ds \<le> HDLC_BUF_SIZE"
    using scan_length_decoded [OF scan_encoded [of m "[]"]] size ms by simp
  obtain d' b' where one: "hdlc_decode_one d b = Inr (Some (of_nat (length ?ds) - 2), d', b')" "decoder_idle d'"
      "decoded_prefix d' (length ?ds) = ?ds" "head b' = head b" "buf b' = buf b"
      "unat (tail b') = (unat (tail b) + (HDLC_BUF_SIZE - length ?rest)) mod HDLC_BUF_SIZE"
    using decode_one_outside [OF Suc.prems(1-3) sc _ len] by (auto simp: fcs_bytes_def)
  have "HDLC_BUF_SIZE - length ?rest = length (hdlc_encode_bytes m)" using size ms by simp
  with unrolled_rotate [OF one(5,6)] have around: "unrolled b' HDLC_BUF_SIZE = concat (map hdlc_encode_bytes (ms' @ [m]))"
    by (simp add: Suc.prems(4) ms rotate_append)
  have "unat (tail b') < HDLC_BUF_SIZE" unfolding one(6) by (simp add: HDLC_BUF_SIZE_def)
  with Suc.IH [OF _ _ one(2) around] Suc.prems(1) one(4) obtain reqs where
    more: "list_all2 frame_request reqs (map (\<lambda>m. m @ fcs_bytes (crc_of m)) (cycled fuel (ms' @ [m])))"
      "\<forall>s :: 'z router_state_scheme. dm_recv_frames fuel c d' b' s = andthen (handle_all c reqs s) (\<lambda>_. Inl Diverged)"
    by auto
  let ?r = "(\<lparr>cap = HDLC_BUF_SIZE, byte = raw_buf d'\<rparr>, unat (of_nat (length ?ds) - 2 :: u64))"
  have "frame_request ?r ?ds" using one(3) by (simp add: frame_request_def decoded_prefix_def)
  moreover have "dm_recv_frames (Suc fuel) c d b s = andthen (handle_all c (?r # reqs) s) (\<lambda>_. Inl Diverged)"
    for s :: "'z router_state_scheme"
    using more(2) by (cases "diag_client_handle_command (Some c) (fst ?r) (snd ?r) s") (auto simp: one(1))
  ultimately show ?case
    using more(1) unfolding ms cycled_Suc by (intro exI [of _ "?r # reqs"]) simp
qed

text \<open>The ring that the completion of a transfer builds on its stack.\<close>

definition ffs_ring :: "mbuf \<Rightarrow> circ_buf" where
  "ffs_ring mb =
     \<lparr>buf = (\<lambda>i. if i < unat (m_offset mb) then m_data mb ! i else 0), head = m_offset mb, tail = 0\<rparr>"

lemma full_ring_frames:
  fixes s :: "'z router_state_scheme"
  assumes "m_offset mb = of_nat HDLC_BUF_SIZE" and "m_data mb = concat (map hdlc_encode_bytes ms)"
    and "length (m_data mb) = HDLC_BUF_SIZE"
  shows "\<exists>reqs. list_all2 request_of reqs (cycled fuel ms) \<and>
    (\<forall>s :: 'z router_state_scheme.
       dm_recv_frames fuel c decoder_zero (ffs_ring mb) s = andthen (handle_all c reqs s) (\<lambda>_. Inl Diverged))"
proof -
  let ?b = "ffs_ring mb"
  have n: "unat (m_offset mb) = HDLC_BUF_SIZE" by (simp add: assms(1) HDLC_BUF_SIZE_def)
  have "unrolled ?b HDLC_BUF_SIZE = m_data mb"
    using assms(3) n by (intro nth_equalityI) (simp_all add: unrolled_def ffs_ring_def)
  then have un: "unrolled ?b HDLC_BUF_SIZE = concat (map hdlc_encode_bytes ms)" using assms(2) by simp
  have out: "HDLC_BUF_SIZE \<le> unat (head ?b)" "unat (tail ?b) < HDLC_BUF_SIZE"
    using n by (simp_all add: ffs_ring_def HDLC_BUF_SIZE_def)
  from recv_frames_around [OF out decoder_idle_zero un, of fuel c, where 'z = 'z] obtain reqs where
    reqs: "list_all2 frame_request reqs (map (\<lambda>m. m @ fcs_bytes (crc_of m)) (cycled fuel ms))"
      "\<forall>s :: 'z router_state_scheme. dm_recv_frames fuel c decoder_zero ?b s = andthen (handle_all c reqs s) (\<lambda>_. Inl Diverged)"
    by blast
  have ne: "ms \<noteq> []" using assms(2,3) by (auto simp: HDLC_BUF_SIZE_def)
  have "\<forall>m \<in> set (cycled fuel ms). m \<in> set ms" using set_cycled [OF ne, of fuel] by blast
  moreover have "length m < HDLC_BUF_SIZE" if "m \<in> set ms" for m
  proof -
    have "length (hdlc_encode_bytes m) \<le> HDLC_BUF_SIZE"
      using split_list [OF that] assms(2,3) by auto
    with scan_length_decoded [OF scan_encoded [of m "[]"]] show ?thesis by simp
  qed
  ultimately have "list_all2 request_of reqs (cycled fuel ms)"
    by (intro frame_requests_messages [OF reqs(1)]) blast
  with reqs(2) show ?thesis by blast
qed

lemma full_transfer:
  assumes "h < length (usb_handles s)" and "usb_dm (usb_handles s ! h) = Some c" and "c < length (clients s)"
    and "cl_encode_type (clients s ! c) = DIAG_ENCODE_HDLC"
    and "m_offset mb = of_nat HDLC_BUF_SIZE" and "length (m_data mb) = HDLC_BUF_SIZE"
  shows "diag_ffs_recv h mb s =
    andthen (dm_recv_frames HDLC_BUF_SIZE c decoder_zero (ffs_ring mb) s) (\<lambda>(_, _, s). Inr (enqueue (UsbOutq h) (mb\<lparr>m_offset := 0\<rparr>) s))"
proof -
  have n: "unat (m_offset mb) = HDLC_BUF_SIZE" by (simp add: assms(5) HDLC_BUF_SIZE_def)
  moreover have "load (m_data mb) HDLC_BUF_SIZE = Inr (m_data mb)" using assms(6) by (simp add: load_def)
  ultimately show ?thesis
    using assms(1-4) by (simp add: diag_ffs_recv_def arr_read_def Let_def dm_decode_data_def dm_recv_hdlc_def ffs_ring_def cong: if_cong)
qed

end
