(* ===== verification/Boot.thy ===== *)
theory Boot
  imports Flow_Control
begin

text \<open>
  The start of the router succeeds: with memory and descriptors at hand, \<^verbatim>\<open>main\<close> reaches the
  event loop, and there the invariants of all handlers hold: every client is well-formed, the
  mask tables are in place, every peripheral is an object with a name, and the tables of
  commands are those that the handlers are registered in.
\<close>

section \<open>Computations that succeed\<close>

text \<open>There is a result, and it has the property: the total counterpart of \<^const>\<open>yields\<close>.\<close>

definition succeeds :: "('a \<Rightarrow> bool) \<Rightarrow> 'a res \<Rightarrow> bool" where
  "succeeds Q m \<longleftrightarrow> (\<exists>x. m = Inr x \<and> Q x)"

lemma succeeds_simps [simp]:
  "\<not> succeeds Q (Inl e)" "succeeds Q (Inr x) = Q x"
  "succeeds Q (andthen m f) = succeeds (\<lambda>x. succeeds Q (f x)) m"
  by (cases m; auto simp: succeeds_def)+

lemma succeeds_mono: "succeeds P m \<Longrightarrow> (\<And>x. P x \<Longrightarrow> Q x) \<Longrightarrow> succeeds Q m"
  by (auto simp: succeeds_def)

lemma succeeds_fold:
  assumes "P s" and "\<And>x t. x \<in> set xs \<Longrightarrow> P t \<Longrightarrow> succeeds P (f x t)"
  shows "succeeds P (fold_res f xs s)"
  using assms
proof (induction xs arbitrary: s)
  case (Cons x xs)
  from Cons.prems obtain t where "f x s = Inr t" "P t" by (auto simp: succeeds_def)
  with Cons show ?case by simp
qed simp

section \<open>What holds during the start\<close>

definition booting :: "'z rpmsg_state_scheme \<Rightarrow> bool" where
  "booting s \<longleftrightarrow> dm_wf s \<and> devnodes_wf s \<and> perifs_named s \<and> diag_cmds s = [] \<and> common_cmds s = [] \<and>
     fallback_cmds s = []"

lemmas booting_defs = booting_def dm_wf_def mem_ok_def devnodes_wf_def perifs_named_def perifs_wf_def perif_name_def

definition boot_view ::
    "'z rpmsg_state_scheme \<Rightarrow>
     (nat \<Rightarrow> bool) \<times> diag_client list \<times> devnode list \<times> (perif_id \<Rightarrow> peripheral pointer) \<times> perif_id list \<times> perif_id \<times>
     diag_cmd list \<times> diag_cmd list \<times> diag_cmd list" where
  "boot_view s =
     (alloc_ok s, clients s, devnodes s, perifs s, peripherals s, next_perif s, diag_cmds s, common_cmds s, fallback_cmds s)"

lemma booting_cong: "boot_view t = boot_view s \<Longrightarrow> booting t = booting s"
  by (simp add: boot_view_def booting_defs)

lemma booting_mem [simp]: "booting s \<Longrightarrow> mem_ok s"
  by (simp add: booting_def dm_wf_def)

lemma add_watch_view:
  assumes "mem_ok s"
  shows "\<exists>t. watch_add_readfd fd cb flow s = Inr t \<and> boot_view t = boot_view s"
    "\<exists>t. watch_add_writeq fd q s = Inr t \<and> boot_view t = boot_view s"
  by (simp_all add: watch_add_readfd_def watch_add_writeq_def calloc_ok [OF assms] boot_view_def)

lemma add_watches_boot:
  assumes "booting s" and post: "\<And>s'. booting s' \<Longrightarrow> boot_view s' = boot_view s \<Longrightarrow> Q s'"
  shows "succeeds Q (watch_add_readfd fd cb flow s)" "succeeds Q (watch_add_writeq fd q s)"
proof -
  have "booting t" if "boot_view t = boot_view s" for t
    using booting_cong [OF that] assms(1) by simp
  then show "succeeds Q (watch_add_readfd fd cb flow s)" "succeeds Q (watch_add_writeq fd q s)"
    using add_watch_view [OF booting_mem [OF assms(1)]] post by (metis succeeds_def)+
qed

lemma booting_clients: "booting s \<Longrightarrow> \<forall>cl \<in> set cls. client_wf cl \<Longrightarrow> booting (s\<lparr>clients := cls\<rparr>)"
  by (simp add: booting_defs)

lemma booting_frame [simp]:
  "booting (s\<lparr>queues := qs\<rparr>) = booting s" "booting (s\<lparr>alloc_no := k\<rparr>) = booting s"
  by (rule booting_cong, simp add: boot_view_def)+

lemma dm_add_boot:
  assumes "booting s" and post: "\<And>c s'. booting s' \<Longrightarrow> c < length (clients s') \<Longrightarrow> Q (c, s')"
  shows "succeeds Q (dm_add name in_fd out_fd enc s)"
proof -
  have wf: "\<forall>cl \<in> set (clients s). client_wf cl" using assms(1) by (simp add: booting_def dm_wf_def)
  show ?thesis
    unfolding dm_add_def calloc_ok [OF booting_mem [OF assms(1)]]
    by (use assms(1) wf in \<open>auto simp: Let_def client_wf_def boot_view_def intro!: add_watches_boot post booting_clients\<close>)
qed

lemma dm_enable_boot: "booting s \<Longrightarrow> c < length (clients s) \<Longrightarrow> booting (dm_enable c s)"
  unfolding dm_enable_def set_client_def
  by (rule booting_clients) (auto simp: booting_def dm_wf_def client_wf_def dest!: set_update_subset_insert [THEN subsetD])

section \<open>Transports\<close>

text \<open>The descriptor that the options name can be opened and set up.\<close>

definition client_opens :: "config \<Rightarrow> environment \<Rightarrow> bool" where
  "client_opens cfg env \<longleftrightarrow>
     (if host_address cfg \<noteq> None then
        (\<exists>fd h c n. (env_sock env, env_host env, env_connect env, env_nonblock env) = (Inr fd, Inr h, Inr c, Inr n) \<and> 0 \<le> fd)
      else if uartdev cfg \<noteq> None then
        check_baudrate (of_int (baudrate cfg)) \<noteq> 0 \<and>
        (\<exists>fd f b t n. (env_uart_open env, env_uart_flush env, env_uart_blocking env, env_uart_saved env, env_uart_set env) =
           (Inr fd, Inr f, Inr b, Inr t, Inr n) \<and> 0 \<le> fd)
      else True)"

lemma main_client_boot:
  assumes "booting s" and "client_opens cfg env" and post: "\<And>s'. booting s' \<Longrightarrow> Q s'"
  shows "succeeds Q (main_client cfg env s)"
proof -
  have add: "succeeds (\<lambda>r. Q (dm_enable (fst r) (snd r))) (dm_add name fd fd enc s)" for name fd enc
    by (rule dm_add_boot [OF assms(1)]) (auto intro: dm_enable_boot post)
  consider "host_address cfg \<noteq> None" | "host_address cfg = None" "uartdev cfg \<noteq> None"
    | "host_address cfg = None" "uartdev cfg = None" by blast
  then show ?thesis
  proof cases
    case 1
    with assms(2) obtain fd h c n where "env_sock env = Inr fd" "env_host env = Inr h" "env_connect env = Inr c"
      "env_nonblock env = Inr n" "0 \<le> fd" by (auto simp: client_opens_def)
    with 1 add [of "''DIAG CLIENT''" fd True] show ?thesis
      by (simp add: main_client_def diag_sock_connect_def not_less case_prod_beta)
  next
    case 2
    with assms(2) obtain fd f b t n where "env_uart_open env = Inr fd" "env_uart_flush env = Inr f"
      "env_uart_blocking env = Inr b" "env_uart_saved env = Inr t" "env_uart_set env = Inr n" "0 \<le> fd"
      "check_baudrate (of_int (baudrate cfg)) \<noteq> 0" by (auto simp: client_opens_def)
    with 2 add [of "''UART client''" fd True] show ?thesis
      by (simp add: main_client_def diag_uart_open_def Let_def not_less case_prod_beta)
  next
    case 3
    with assms(1) post show ?thesis by (simp add: main_client_def)
  qed
qed

lemma diag_usb_open_boot:
  assumes "booting s" and post: "\<And>r s'. booting s' \<Longrightarrow> Q (r, s')"
  shows "succeeds Q (diag_usb_open calls s)"
proof -
  have "booting (t\<lparr>usb_handles := hs\<rparr>) = booting t" for hs and t :: "'a usb_state_scheme"
    by (rule booting_cong) (simp add: boot_view_def)
  moreover have "booting (t\<lparr>queues := qs, usb_handles := hs\<rparr>) = booting t" for qs hs and t :: "'a usb_state_scheme"
    by (rule booting_cong) (simp add: boot_view_def)
  moreover have "booting (t\<lparr>alloc_no := k, queues := qs, usb_handles := hs\<rparr>) = booting t" for k qs hs and t :: "'a usb_state_scheme"
    by (rule booting_cong) (simp add: boot_view_def)
  ultimately show ?thesis
    using assms(1)
    by (auto simp: diag_usb_open_def calloc_ok mbuf_alloc_eq Let_def intro!: add_watches_boot dm_add_boot post)
qed

section \<open>Peripherals\<close>

lemma peripheral_create_boot:
  assumes "booting s" and post: "\<And>s'. booting s' \<Longrightarrow> Q (0, s')"
  shows "succeeds Q (peripheral_create rproc channel s)"
proof (cases "primary_channel channel \<and> rproc \<notin> set (perif_names s)")
  case False
  with assms show ?thesis using peripheral_create_known [of s channel rproc] by (auto simp: booting_def)
next
  case True
  from assms(1) have wf: "perifs_named s" "mem_ok s" by (simp_all add: booting_def)
  obtain k t where new: "peripheral_create rproc channel s =
    Inr (0, s\<lparr>alloc_no := k, flows := (flows s)(next_flow s := 0), next_flow := Suc (next_flow s),
      timers := timers s @ [t],
      queues := (queues s)(PerifCmdq (next_perif s) := [], PerifCntlq (next_perif s) := [], PerifDataq (next_perif s) := []),
      perifs := (perifs s)(next_perif s := Obj (new_perif rproc (next_flow s))), next_perif := Suc (next_perif s),
      peripherals := peripherals s @ [next_perif s]\<rparr>)" (is "_ = Inr (0, ?s)")
    by (rule peripheral_create_new [OF wf]) (use True in auto)
  have fresh: "next_perif s \<notin> set (peripherals s)" using wf(1) by (auto simp: perifs_named_def)
  have "perifs_named ?s"
    using wf(1) fresh
    by (auto simp: perifs_named_def perifs_wf_def perif_name_def new_perif_def less_Suc_eq)
  then have "booting ?s" using assms(1) by (simp add: booting_def dm_wf_def devnodes_wf_def mem_ok_def)
  with new post show ?thesis by simp
qed

lemma udev_add_boot:
  assumes "booting s" and post: "\<And>s'. booting s' \<Longrightarrow> Q s'"
  shows "succeeds Q (udev_add dev name rproc s)"
proof -
  from assms(1) have wf: "devnodes_wf s" "mem_ok s" by (simp_all add: booting_def)
  obtain k nodes where add: "devnode_add dev name rproc s = Inr (s\<lparr>alloc_no := k, devnodes := nodes\<rparr>)"
    "devnodes_wf (s\<lparr>alloc_no := k, devnodes := nodes\<rparr>)"
    by (rule devnode_add_ok [OF wf, of dev name rproc])
  have "booting (s\<lparr>alloc_no := k, devnodes := nodes\<rparr>)"
    using assms(1) add(2) by (simp add: booting_def dm_wf_def mem_ok_def)
  then show ?thesis by (auto simp: udev_add_def add(1) intro!: peripheral_create_boot post)
qed

lemma peripheral_rpmsg_init_boot:
  assumes "booting s" and post: "\<And>s'. booting s' \<Longrightarrow> Q (0, s')"
  shows "succeeds Q (peripheral_rpmsg_init True mon devs s)"
proof -
  have "succeeds booting (fold_res rpmsg_enumerate devs s)"
    by (rule succeeds_fold, rule assms(1)) (auto simp: rpmsg_enumerate_def split: option.splits intro!: udev_add_boot)
  then obtain t where "fold_res rpmsg_enumerate devs s = Inr t" "booting t" by (auto simp: succeeds_def)
  then show ?thesis by (auto simp: peripheral_rpmsg_init_def intro!: add_watches_boot post)
qed

lemma qrtr_perif_init_subsystem_boot:
  assumes "booting s" and "\<forall>i. 0 \<le> opn i" and post: "\<And>s'. booting s' \<Longrightarrow> Q (0, s')"
  shows "succeeds Q (qrtr_perif_init_subsystem opn name base s)"
proof -
  let ?p = "next_perif s"
  have fds: "0 \<le> opn 0" "0 \<le> opn 1" "0 \<le> opn 2" "0 \<le> opn 3" using assms(2) by simp_all
  have flow: "watch_flow_new (s\<lparr>alloc_no := k\<rparr>) = (Some (next_flow s), s\<lparr>alloc_no := Suc k,
      flows := (flows s)(next_flow s := 0), next_flow := Suc (next_flow s)\<rparr>)" for k
    using assms(1) by (subst watch_flow_new_ok) simp_all
  have boot: "booting (s\<lparr>flows := fs, next_flow := n, alloc_no := k, queues := qs, perifs := (perifs s)(?p := Obj perif),
      next_perif := Suc ?p, qrtr_calls := cs\<rparr>)" (is "booting ?t")
    if "p_name perif = Some name" for k fs n qs perif cs
    using assms(1) that by (auto simp: booting_defs less_Suc_eq)
  have last: "booting (t\<lparr>peripherals := peripherals t @ [?p]\<rparr>)"
    if "boot_view t = boot_view (s\<lparr>flows := fs, next_flow := n, alloc_no := k, queues := qs,
        perifs := (perifs s)(?p := Obj perif), next_perif := Suc ?p, qrtr_calls := cs\<rparr>)"
      "p_name perif = Some name" for perif k fs n qs cs and t :: "'a qrtr_state_scheme"
  proof -
    have t: "alloc_ok t = alloc_ok s" "clients t = clients s" "devnodes t = devnodes s" "perifs t = (perifs s)(?p := Obj perif)"
      "peripherals t = peripherals s" "next_perif t = Suc ?p" "diag_cmds t = diag_cmds s" "common_cmds t = common_cmds s"
      "fallback_cmds t = fallback_cmds s"
      using that(1) by (simp_all add: boot_view_def)
    show ?thesis using assms(1) that(2) by (auto simp: booting_defs t less_Suc_eq)
  qed
  have mem: "mem_ok (s\<lparr>alloc_no := k, flows := fs, next_flow := n\<rparr>)" for k fs n
    using assms(1) by (simp add: booting_defs)
  show ?thesis
    using fds assms(1)
    by (auto simp: qrtr_perif_init_subsystem_def malloc_ok flow strdup_ok [OF mem] Let_def not_less
        intro!: add_watches_boot boot post last)
qed

lemma peripheral_init_boot:
  assumes "booting s" and "env_udev env" and "\<forall>i j. 0 \<le> env_qrtr env i j" and post: "\<And>s'. booting s' \<Longrightarrow> Q (0, s')"
  shows "succeeds Q (peripheral_init env s)"
proof -
  have fold: "succeeds booting (fold_res (\<lambda>(i, name, base) s.
         andthen (qrtr_perif_init_subsystem (env_qrtr env i) name base s) (\<lambda>(_, s). Inr s)) xs t)"
    if "booting t" for xs and t :: "'a qrtr_state_scheme"
    by (rule succeeds_fold, rule that) (use assms(3) in \<open>auto intro!: qrtr_perif_init_subsystem_boot\<close>)
  have "succeeds Q (andthen (peripheral_qrtr_init (env_qrtr env) t) (\<lambda>(_, s). Inr (0, s)))"
    if "booting t" for t :: "'a qrtr_state_scheme"
    using succeeds_mono [OF fold [OF that, where xs = "zip [0..<length qrtr_subsystems] qrtr_subsystems"]] post
    by (simp add: peripheral_qrtr_init_def)
  then show ?thesis
    using assms(1,2) by (auto simp: peripheral_init_def intro!: peripheral_rpmsg_init_boot)
qed

section \<open>The state at the first turn of the loop\<close>

definition env_opens :: "config \<Rightarrow> environment \<Rightarrow> bool" where
  "env_opens cfg env \<longleftrightarrow> client_opens cfg env \<and> 0 \<le> env_unix env \<and> 0 \<le> env_unix_bind env \<and> 0 \<le> env_unix_listen env \<and>
     env_udev env \<and> (\<forall>i j. 0 \<le> env_qrtr env i j)"

lemma initial_boots: "initial s \<Longrightarrow> mem_ok s \<Longrightarrow> booting s"
  by (simp add: initial_def booting_defs)

lemma unmasked_view:
  fixes s s' :: "'z rpmsg_state_scheme"
  assumes "mask_state.more s' = mask_state.more s"
  shows "clients s' = clients s" "perifs s' = perifs s" "peripherals s' = peripherals s" "diag_cmds s' = diag_cmds s"
    "common_cmds s' = common_cmds s" "fallback_cmds s' = fallback_cmds s"
  using assms by (cases s; cases s'; simp)+

lemma register_cmds_boot:
  assumes "mem_ok s"
  shows "fallback_cmds s = [] \<Longrightarrow> \<exists>k. register_app_cmds s = Inr (s\<lparr>alloc_no := k, fallback_cmds := fallback_table\<rparr>)"
    "common_cmds s = [] \<Longrightarrow> \<exists>k. register_common_cmds s = Inr (s\<lparr>alloc_no := k, common_cmds := common_table\<rparr>)"
proof -
  have ok: "mem_ok (s\<lparr>alloc_no := k, fallback_cmds := cs\<rparr>)" "mem_ok (s\<lparr>alloc_no := k, common_cmds := cs\<rparr>)" for k cs
    using assms by (simp_all add: mem_ok_def)
  show "\<exists>k. register_app_cmds s = Inr (s\<lparr>alloc_no := k, fallback_cmds := fallback_table\<rparr>)" if "fallback_cmds s = []"
    using assms ok that
    by (auto simp: register_app_cmds_def register_fallback_cmd_def register_fallback_subsys_cmd_def calloc_ok
        fallback_table_def own_cmd_def Let_def)
  show "\<exists>k. register_common_cmds s = Inr (s\<lparr>alloc_no := k, common_cmds := common_table\<rparr>)" if "common_cmds s = []"
    using assms ok that
    by (auto simp: register_common_cmds_def register_common_cmd_def calloc_ok common_table_def own_cmd_def Let_def)
qed

text \<open>The mask tables and the tables of commands, on a state that is otherwise complete.\<close>

lemma tables_boot:
  fixes s :: "'z rpmsg_state_scheme"
  assumes "booting s"
  shows "\<exists>s1 s2 s'. diag_masks_init s = Inr (0, s1) \<and> register_app_cmds s1 = Inr s2 \<and> register_common_cmds s2 = Inr s' \<and>
    masks_ready s' \<and> cmds_live s' \<and> common_cmds s' = common_table \<and> fallback_cmds s' = fallback_table"
proof -
  obtain s1 where s1: "diag_masks_init s = Inr (0, s1)" "log_masks_wf s1" "msg_masks_wf s1" "event_masks_wf s1"
    "build_masks_wf s1" "mask_state.more s1 = mask_state.more s"
    using masks_init_ready [OF booting_mem [OF assms]] by blast
  note more = unmasked_view [OF s1(6)]
  have mem: "mem_ok s1" using s1(3) by (simp add: msg_masks_wf_def)
  have ready: "masks_ready s1" "cmds_live s1"
    using assms s1 mem by (simp_all add: masks_ready_def booting_def perifs_named_def dm_wf_def perifs_wf_def cmds_live_def more)
  obtain k where app: "register_app_cmds s1 = Inr (s1\<lparr>alloc_no := k, fallback_cmds := fallback_table\<rparr>)"
    using register_cmds_boot(1) [OF mem] assms by (auto simp: booting_def more)
  have "mem_ok (s1\<lparr>alloc_no := k, fallback_cmds := fallback_table\<rparr>)" using mem by (simp add: mem_ok_def)
  from register_cmds_boot(2) [OF this] obtain j where
    com: "register_common_cmds (s1\<lparr>alloc_no := k, fallback_cmds := fallback_table\<rparr>) =
       Inr (s1\<lparr>fallback_cmds := fallback_table, alloc_no := j, common_cmds := common_table\<rparr>)"
    using assms by (auto simp: booting_def more)
  have "masks_ready (s1\<lparr>fallback_cmds := fallback_table, alloc_no := j, common_cmds := common_table\<rparr>)"
    using ready(1)
    by (simp add: masks_ready_def dm_wf_def mem_ok_def perifs_wf_def log_masks_wf_def msg_masks_wf_def event_masks_wf_def
        build_masks_wf_def)
  moreover have "cmds_live (s1\<lparr>fallback_cmds := fallback_table, alloc_no := j, common_cmds := common_table\<rparr>)"
    using ready(2) by (simp add: cmds_live_def)
  ultimately show ?thesis using s1(1) app com by (intro exI conjI) (assumption | simp)+
qed

lemma main_boots:
  assumes "initial s" and "mem_ok s" and "parse_opts opts config_default = Some cfg" and "env_opens cfg env"
  shows "\<exists>s'. diag_main opts env s = Inr s' \<and> masks_ready s' \<and> cmds_live s' \<and> common_cmds s' = common_table \<and>
    fallback_cmds s' = fallback_table"
proof -
  let ?Q = "\<lambda>t. masks_ready t \<and> cmds_live t \<and> common_cmds t = common_table \<and> fallback_cmds t = fallback_table"
  have tables: "succeeds ?Q (andthen (diag_masks_init t) (\<lambda>(_, t). andthen (register_app_cmds t) register_common_cmds))"
    if "booting t" for t :: "'a usb_state_scheme"
    using tables_boot [OF that] by auto
  have perifs: "succeeds ?Q (andthen (peripheral_init env t) (\<lambda>(_, t).
      andthen (diag_masks_init t) (\<lambda>(_, t). andthen (register_app_cmds t) register_common_cmds)))"
    if "booting t" for t :: "'a usb_state_scheme"
    unfolding succeeds_simps(3)
    by (rule peripheral_init_boot [OF that]) (use assms(4) tables in \<open>auto simp: env_opens_def\<close>)
  have unix: "succeeds ?Q (andthen (diag_unix_open (env_unix env) (env_unix_bind env) (env_unix_listen env) t) (\<lambda>(ret, t).
      if ret < 0 then Inl Exited else andthen (peripheral_init env t) (\<lambda>(_, t).
      andthen (diag_masks_init t) (\<lambda>(_, t). andthen (register_app_cmds t) register_common_cmds))))"
    if t: "booting t" for t :: "'a usb_state_scheme"
  proof -
    obtain u where "watch_add_readfd (env_unix env) CbUnixListen None t = Inr u" "booting u"
      using add_watches_boot(1) [OF t, where Q = booting] unfolding succeeds_def by blast
    then show ?thesis using perifs [of u] assms(4) by (simp add: diag_unix_open_def env_opens_def)
  qed
  have "succeeds ?Q (diag_main opts env s)"
    unfolding diag_main_def assms(3) option.case
    using initial_boots [OF assms(1,2)] assms(4) unix
    by (auto simp: env_opens_def intro!: main_client_boot diag_usb_open_boot)
  then show ?thesis by (simp add: succeeds_def)
qed

section \<open>The tables of masks in every reachable state\<close>

lemma tables_wf_cong:
  "alloc_ok t = alloc_ok s \<Longrightarrow> msg_mask t = msg_mask s \<Longrightarrow> msg_bt_mask t = msg_bt_mask s \<Longrightarrow> log_mask t = log_mask s \<Longrightarrow>
   event_mask t = event_mask s \<Longrightarrow> event_max_num_bits t = event_max_num_bits s \<Longrightarrow> tables_wf t = tables_wf s"
  by (simp add: tables_wf_def log_masks_wf_def event_masks_wf_def build_masks_wf_def mem_ok_def)

lemma tables_wf_frame [simp]:
  "tables_wf (s\<lparr>queues := x1\<rparr>) = tables_wf s" "tables_wf (s\<lparr>aio_watches := x2\<rparr>) = tables_wf s"
  "tables_wf (s\<lparr>clients := x3\<rparr>) = tables_wf s" "tables_wf (s\<lparr>perifs := x4\<rparr>) = tables_wf s"
  "tables_wf (s\<lparr>flows := x5, next_flow := x6\<rparr>) = tables_wf s"
  "tables_wf (s\<lparr>aio_watches := x2, queues := x1\<rparr>) = tables_wf s" "tables_wf (s\<lparr>read_watches := x7\<rparr>) = tables_wf s"
  "tables_wf (s\<lparr>alloc_no := x8\<rparr>) = tables_wf s" "tables_wf (set_client_buf c b s) = tables_wf s"
  by (rule tables_wf_cong; simp add: set_client_buf_def set_client_def)+

text \<open>They are in place, and memory does not run out; flows are known, as in every reachable state.\<close>

interpretation masks: loop_pred "\<lambda>s. flow_inv s \<and> tables_wf s" True False
proof (unfold_locales, goal_cases)
  case (2 s' s)
  then have "tables_wf s' = tables_wf s" by (intro tables_wf_cong) (simp_all add: frame_view_def)
  moreover have "flow_inv s' = flow_inv s" using 2 by (intro flow_inv_cong) (simp add: frame_view_def)
  ultimately show ?case by simp
next
  case (6 s s')
  then have "io_view s' = io_view s" by (simp add: still_def)
  with 6 show ?case using flow_inv_cong by blast
next
  case (7 s q m)
  have "tables_wf (enqueue q m (watch_flow_inc (m_flow m) s)) = tables_wf s"
    by (rule tables_wf_cong) (auto simp: enqueue_def watch_flow_inc_def split: option.splits)
  with 7 show ?case using flow.push by blast
next
  case (8 s p)
  then show ?case using flow.known by blast
next
  case (9 s)
  then show ?case using flow.new_flow [of s] by simp
next
  case (10 s perif p)
  then show ?case using flow.new_perif [of s perif p] by simp
next
  case (11 s p)
  then show ?case using flow.free_perif [of s p] by simp
next
  case (12 s q ms)
  then show ?case using flow.empty_queue [of s q ms] by simp
next
  case (13 s w q)
  then show ?case using flow.new_watch [of s w q] by simp
next
  case (14 s T)
  then show ?case using flow.no_watch [of s T] by simp
next
  case (17 s cl)
  then show ?case using flow.new_client [of s cl] by simp
next
  case (19 s w m)
  have "tables_wf (set_pending (w_addr w) None (watch_free_write_aio m s)) = tables_wf s"
    by (rule tables_wf_cong)
      (auto simp: set_pending_def watch_free_write_aio_def watch_flow_dec_def split: option.splits)
  with 19 show ?case using flow.written [of s w m] by simp
next
  case (20 s a)
  then show ?case using flow.unpended [of s a] by (simp add: set_pending_def)
next
  case (21 s w m h)
  then show ?case using flow.read_flow by blast
next
  case (22 s acc ws qs)
  then show ?case using flow.polled [OF _ 22(2)] by simp
next
  case (23 s evs)
  then show ?case using flow.read_in [of s evs] by (simp add: transferred_def)
qed simp_all

lemma tables_run:
  assumes "flow_inv s" and "tables_wf s" and "watch_run decode tns s = Inr (r, s')"
  shows "tables_wf s'"
proof -
  have "flow_inv s \<and> tables_wf s" using assms(1,2) by simp
  from yieldsD [OF masks.watch_run [OF TrueI this, where Q = "\<lambda>(_, t). flow_inv t \<and> tables_wf t"] assms(3)]
  show ?thesis by simp
qed

text \<open>From the start of the program on: the router that has started keeps its tables.\<close>

lemma tables_main:
  assumes "initial s" and "mem_ok s" and "parse_opts opts config_default = Some cfg" and "env_opens cfg env"
    and "router_main opts env decode tns s = Inr (r, s')"
  shows "tables_wf s'"
proof -
  obtain t where t: "diag_main opts env s = Inr t" "masks_ready t"
    using main_boots [OF assms(1-4)] by blast
  have run: "watch_run decode tns t = Inr (r, s')" using assms(5) t(1) by (simp add: router_main_def)
  have "flow_inv t" using yieldsD [OF flow.diag_main [OF flow_inv_initial [OF assms(1)], where Q = flow_inv] t(1)] by simp
  moreover have "tables_wf t" using t(2) by (auto simp: masks_ready_def intro: tables_wf_ready)
  ultimately show ?thesis using run by (rule tables_run)
qed

end
