(* ===== verification/Scenario.thy ===== *)
theory Scenario
  imports Loop_Faults Boot
begin

text \<open>
  A concrete router at rest, at which the properties are instantiated: a raw and an HDLC
  client, one peripheral with its three channels open and one command registered, the masks
  as initialisation leaves them, and memory that never runs out.
\<close>

definition raw_client :: diag_client where
  "raw_client =
     \<lparr>cl_name = ''UNIX'', cl_in_fd = 10, cl_out_fd = 10, cl_encode_type = DIAG_ENCODE_RAW,
      cl_hdlc_reset = False, cl_enabled = True, cl_recv_buf = circ_empty\<rparr>"

definition hdlc_client :: diag_client where
  "hdlc_client =
     \<lparr>cl_name = ''USB client'', cl_in_fd = 11, cl_out_fd = 11, cl_encode_type = DIAG_ENCODE_HDLC,
      cl_hdlc_reset = False, cl_enabled = True, cl_recv_buf = circ_empty\<rparr>"

definition modem :: peripheral where
  "modem =
     \<lparr>p_name = Some [0x6d, 0x6f, 0x64, 0x65, 0x6d], p_features = FEATURE_APPS_HDLC_ENCODE, p_cntl_fd = 20,
      p_cntl_open = True, p_data_fd = 21, p_data_open = True, p_cmd_fd = 22, p_dci_cmd_fd = -1,
      p_flow = Some 0, p_diag_id = 2, p_sockets = False, p_recv_buf = circ_empty,
      p_recv_decoder = decoder_zero, p_ops = RpmsgOps\<rparr>"

definition modem_cmd :: diag_cmd where
  "modem_cmd = \<lparr>dc_first = 0x4b320000, dc_last = 0x4b3200ff, dc_peripheral = Some 0, dc_cb = None\<rparr>"

definition msg_table :: "msg_mask_t list" where
  "msg_table = map msg_item_init [0..<MSG_MASK_TBL_CNT]"

definition log_table :: "log_mask_t list" where
  "log_table = map log_item_init [0..<MAX_EQUIP_ID]"

definition scene :: usb_state where
  "scene =
     \<lparr>alloc_no = 0, alloc_ok = (\<lambda>_. True), indet = (\<lambda>_ _. 0xa5),
      flows = (\<lambda>_. 0), next_flow = 1,
      clock = (1000, 0), timers = [], read_watches = [], aio_watches = [], quit_watches = [],
      do_watch_quit = False,
      msg_mask = \<lparr>mi_ptr = Obj msg_table, mi_mask_len = MSG_MASK_SIZE, mi_status = DIAG_CTRL_MASK_INVALID\<rparr>,
      msg_bt_mask = \<lparr>mi_ptr = Obj msg_table, mi_mask_len = MSG_MASK_SIZE, mi_status = DIAG_CTRL_MASK_INVALID\<rparr>,
      log_mask = \<lparr>mi_ptr = Obj log_table, mi_mask_len = LOG_MASK_SIZE, mi_status = DIAG_CTRL_MASK_INVALID\<rparr>,
      event_mask = \<lparr>mi_ptr = Obj (replicate 513 0), mi_mask_len = EVENT_MASK_SIZE,
                    mi_status = DIAG_CTRL_MASK_INVALID\<rparr>,
      event_max_num_bits = APPS_EVENT_LAST_ID,
      queues = (\<lambda>_. []),
      clients = [raw_client, hdlc_client], bad_cmd_counter = 0,
      perifs = (\<lambda>p. if p = 0 then Obj modem else Null), next_perif = 1, peripherals = [0],
      diag_cmds = [modem_cmd],
      diag_ids = [diag_id_entry_for 1 [0x41, 0x50, 0x50, 0x53], diag_id_entry_for 2 [0x6d, 0x6f, 0x64]],
      diag_id_static = 2,
      common_cmds = common_table, fallback_cmds = fallback_table,
      devnodes = [], qrtr_calls = [], usb_handles = []\<rparr>"

lemma scene_simps [simp]:
  "alloc_ok scene k" "alloc_no scene = 0" "indet scene = (\<lambda>_ _. 0xa5)"
  "clients scene = [raw_client, hdlc_client]" "perifs scene = (\<lambda>p. if p = 0 then Obj modem else Null)"
  "peripherals scene = [0]" "diag_cmds scene = [modem_cmd]" "diag_id_static scene = 2"
  "diag_ids scene = [diag_id_entry_for 1 [0x41, 0x50, 0x50, 0x53], diag_id_entry_for 2 [0x6d, 0x6f, 0x64]]"
  "common_cmds scene = common_table" "fallback_cmds scene = fallback_table" "queues scene = (\<lambda>_. [])"
  "mi_ptr (msg_mask scene) = Obj msg_table" "mi_ptr (msg_bt_mask scene) = Obj msg_table"
  "mi_ptr (log_mask scene) = Obj log_table" "mi_ptr (event_mask scene) = Obj (replicate 513 0)"
  "mi_mask_len (event_mask scene) = 513" "event_max_num_bits scene = 0x0b3f"
  "mi_status (msg_mask scene) = DIAG_CTRL_MASK_INVALID" "timers scene = []"
  "aio_watches scene = []" "read_watches scene = []" "flows scene = (\<lambda>_. 0)"
  by (simp_all add: scene_def EVENT_MASK_SIZE_def APPS_EVENT_LAST_ID_def)

lemma scene_mem_ok [simp]: "mem_ok scene"
  by (simp add: mem_ok_def)

lemma modem_simps [simp]:
  "p_cntl_fd modem = 20" "p_data_fd modem = 21" "p_cmd_fd modem = 22" "p_ops modem = RpmsgOps"
  "p_features modem = FEATURE_APPS_HDLC_ENCODE" "p_flow modem = Some 0"
  by (simp_all add: modem_def)

lemma scene_client_simps [simp]:
  "cl_enabled raw_client" "cl_enabled hdlc_client" "cl_encode_type raw_client = DIAG_ENCODE_RAW"
  "cl_encode_type hdlc_client = DIAG_ENCODE_HDLC" "cl_recv_buf raw_client = circ_empty"
  "cl_recv_buf hdlc_client = circ_empty" "cl_in_fd raw_client = 10"
  by (simp_all add: raw_client_def hdlc_client_def)

lemma msg_table_ok [simp]: "msg_table_wf msg_table" "length msg_table = 25"
  by (simp_all add: msg_table_wf_def msg_table_def msg_item_init_wf MSG_MASK_TBL_CNT_def)

lemma log_table_ok [simp]: "log_table_wf log_table" "length log_table = 16"
  by (simp_all add: log_table_wf_def log_table_def log_item_wf_def log_item_init_def log_code_num Let_def MAX_EQUIP_ID_def)

lemma msg_table_nth [simp]: "i < 25 \<Longrightarrow> msg_table ! i = msg_item_init i"
  by (simp add: msg_table_def MSG_MASK_TBL_CNT_def)

lemma scene_masks [simp]:
  "msg_masks_wf scene" "log_masks_wf scene" "event_masks_wf scene" "build_masks_wf scene"
  by (simp_all add: msg_masks_wf_def log_masks_wf_def event_masks_wf_def build_masks_wf_def bits_to_bytes16_def
      msg_table_def [symmetric])

lemma scene_dm_wf [simp]: "dm_wf scene"
  by (simp add: dm_wf_def client_wf_def)

lemma scene_perifs_wf [simp]: "perifs_wf scene"
  by (simp add: perifs_wf_def)

lemma scene_ready [simp]: "masks_ready scene"
  by (simp add: masks_ready_def)

lemma scene_cmds_live [simp]: "cmds_live scene"
  by (simp add: cmds_live_def modem_cmd_def)

lemma space_empty [simp]: "unat (circ_space_to_end circ_empty) = 16383"
  unfolding circ_space_to_end_unat [OF circ_empty_inv]
  by (simp add: HDLC_BUF_SIZE_def circ_count_def circ_empty_def)

lemma rd_bytes_mem_of: "n = length bs \<Longrightarrow> rd_bytes (mem_of bs) 0 n = Inr bs"
proof -
  have "map (byte (mem_of bs)) [0..<length bs] = bs" by (rule nth_equalityI) (simp_all add: mem_of_def)
  then show "n = length bs \<Longrightarrow> rd_bytes (mem_of bs) 0 n = Inr bs" by (simp add: rd_bytes_def mem_of_def)
qed

text \<open>A request of zero bytes, and its words.\<close>

definition zeros :: "nat \<Rightarrow> mem" where
  "zeros n = \<lparr>cap = n, byte = (\<lambda>_. 0)\<rparr>"

lemma rd32s_zeros: "i + 4 * n \<le> k \<Longrightarrow> rd32s (zeros k) i n = Inr (replicate n 0)"
proof (induction n arbitrary: i)
  case (Suc n)
  from Suc.IH [of "i + 4"] Suc.prems show ?case by (simp add: rd32_def zeros_def u32_of_def)
qed simp

lemma msg_slots_scene:
  "msg_slot_of \<lparr>ssid_first = 500, ssid_last = l\<rparr> = Some 1"
  by (simp add: msg_slot_of_def ssid_first_arr_def MAX_SSID_PER_RANGE_def)

lemma ssid_arr_1: "ssid_first_arr ! Suc 0 = 500" "ssid_last_arr ! Suc 0 = 506"
  by (simp_all add: ssid_first_arr_def ssid_last_arr_def)

text \<open>The state before the program starts, and a system on which every channel can be opened.\<close>

definition start :: usb_state where
  "start = scene\<lparr>next_flow := 0, clock := (0, 0),
     msg_mask := \<lparr>mi_ptr = Null, mi_mask_len = 0, mi_status = 0\<rparr>,
     msg_bt_mask := \<lparr>mi_ptr = Null, mi_mask_len = 0, mi_status = 0\<rparr>,
     log_mask := \<lparr>mi_ptr = Null, mi_mask_len = 0, mi_status = 0\<rparr>,
     event_mask := \<lparr>mi_ptr = Null, mi_mask_len = 0, mi_status = 0\<rparr>,
     clients := [], perifs := (\<lambda>_. Null), next_perif := 0, peripherals := [], diag_cmds := [], diag_ids := [],
     diag_id_static := 1, common_cmds := [], fallback_cmds := []\<rparr>"

definition plain_env :: environment where
  "plain_env =
     \<lparr>env_sock = Inl EIO, env_host = Inl 0, env_connect = Inl EIO, env_nonblock = Inl EIO, env_uart_open = Inl EIO,
      env_uart_flush = Inl EIO, env_uart_blocking = Inl EIO, env_uart_saved = Inl EIO, env_uart_set = Inl EIO,
      env_ffs = \<lparr>ffs_dir = -1, ffs_ep0 = -1, ffs_descriptors = -1, ffs_strings = -1, ffs_out = -1, ffs_in = -1\<rparr>,
      env_unix = 3, env_unix_bind = 0, env_unix_listen = 0, env_udev = True, env_monitor = 4, env_devices = [],
      env_qrtr = (\<lambda>i j. 5 + 4 * int i + int j)\<rparr>"

lemma start_initial: "initial start" "mem_ok start"
  by (simp_all add: initial_def start_def mem_ok_def scene_def)

lemma plain_env_opens: "parse_opts [] config_default = Some config_default" "env_opens config_default plain_env"
  by (simp_all add: env_opens_def client_opens_def config_default_def plain_env_def)

lemma scene_flow_inv: "flow_inv scene" "next_flow scene = 1"
  by (auto simp: flow_inv_def queues_ok_def outstanding_def waiting_def flow_known_def perif_flow_def scene_def modem_def)

end
