(* ===== verification/Loop_Ends.thy ===== *)
theory Loop_Ends
  imports Flow_Control "HOL-Library.Sublist"
begin

text \<open>
  A turn of the event loop comes to its end. The walks over the tables have enough fuel, and
  the loops over received bytes end: the rings have their indices in range, no request to read
  from USB has a full message, and the data channels do not report the end of their stream. The
  invariant behind this holds in every state that the router reaches.
\<close>

section \<open>The invariant\<close>

definition rings_wf :: "'z cntl_state_scheme \<Rightarrow> bool" where
  "rings_wf s \<longleftrightarrow> (\<forall>cl \<in> set (clients s). circ_inv (cl_recv_buf cl)) \<and>
     (\<forall>p perif. perifs s p = Obj perif \<longrightarrow> circ_inv (p_recv_buf perif))"

text \<open>Watches have the addresses of their allocations, which are not used again.\<close>

definition addrs_wf :: "nat \<Rightarrow> watch list \<Rightarrow> bool" where
  "addrs_wf n ws \<longleftrightarrow> distinct (map w_addr ws) \<and> (\<forall>w \<in> set ws. w_addr w < n)"

definition short_read :: "queue_id \<Rightarrow> mbuf \<Rightarrow> bool" where
  "short_read q m \<longleftrightarrow> (\<forall>h. q = UsbOutq h \<longrightarrow> unat (m_offset m) < HDLC_BUF_SIZE)"

definition short_queues :: "(queue_id \<Rightarrow> mbuf list) \<Rightarrow> bool" where
  "short_queues qs \<longleftrightarrow> (\<forall>q. \<forall>m \<in> set (qs q). short_read q m)"

definition short_watch :: "watch \<Rightarrow> bool" where
  "short_watch w \<longleftrightarrow> (\<forall>q m. w_queue w = Some q \<and> w_pending w = Some m \<longrightarrow> short_read q m)"

definition ends_inv :: "'z cntl_state_scheme \<Rightarrow> bool" where
  "ends_inv s \<longleftrightarrow> flow_inv s \<and> rings_wf s \<and> addrs_wf (alloc_no s) (read_watches s) \<and> addrs_wf (alloc_no s) (aio_watches s) \<and>
     short_queues (queues s) \<and> (\<forall>w \<in> set (aio_watches s). short_watch w)"

lemma addrs_wf_append: "addrs_wf n ws \<Longrightarrow> w_addr w = n \<Longrightarrow> addrs_wf (Suc n) (ws @ [w])"
  by (auto simp: addrs_wf_def image_iff less_Suc_eq)

lemma addrs_wf_mono: "addrs_wf n ws \<Longrightarrow> n \<le> k \<Longrightarrow> addrs_wf k ws"
  by (auto simp: addrs_wf_def)

lemma addrs_wf_filter: "addrs_wf n ws \<Longrightarrow> addrs_wf n (filter T ws)"
  by (auto simp: addrs_wf_def distinct_map_filter)

lemma addrs_wf_map: "map w_addr vs = map w_addr ws \<Longrightarrow> addrs_wf n vs = addrs_wf n ws"
  unfolding addrs_wf_def by (metis (mono_tags, lifting) imageE image_eqI list.set_map)

text \<open>Submission moves messages from the queues to the watches.\<close>

lemma poll_aio_short:
  "poll_aio acc ws qs = Inr (ws', qs') \<Longrightarrow> short_queues qs \<Longrightarrow> \<forall>w \<in> set ws. short_watch w \<Longrightarrow>
   short_queues qs' \<and> (\<forall>w \<in> set ws'. short_watch w) \<and> map w_addr ws' = map w_addr ws"
proof (induction ws arbitrary: qs ws' qs')
  case (Cons w ws)
  from Cons.prems(1) obtain q v rest vs where step: "w_queue w = Some q"
    "watch_poll_aio (acc (w_addr w)) w (qs q) = Inr (v, rest)"
    "poll_aio acc ws (qs(q := rest)) = Inr (vs, qs')" "ws' = v # vs"
    by (auto simp: andthen_eq_Inr split: option.splits)
  have v: "w_addr v = w_addr w" "w_queue v = Some q" "\<forall>m. w_pending v = Some m \<longrightarrow> w_pending w = Some m \<or> m \<in> set (qs q)"
    "set rest \<subseteq> set (qs q)"
    using step(1,2) by (cases "qs q"; auto simp: watch_poll_aio_def watch_submit_aio_def split: if_splits)+
  have "short_watch v" using v(2,3) step(1) Cons.prems(2,3) by (auto simp: short_watch_def short_queues_def)
  moreover have "short_queues (qs(q := rest))" using v(4) Cons.prems(2) by (auto simp: short_queues_def)
  ultimately show ?case using Cons.IH [OF step(3)] Cons.prems(3) v(1) by (simp add: step(4) del: fun_upd_apply)
qed simp

lemma transfers_keep: "short_watch (fold transfer evs w) = short_watch w" "w_addr (fold transfer evs w) = w_addr w"
proof -
  have "short_watch (transfer ev w) = short_watch w" "w_addr (transfer ev w) = w_addr w" for ev w
    by (auto simp: transfer_def short_watch_def short_read_def split: option.splits)
  then show "short_watch (fold transfer evs w) = short_watch w" "w_addr (fold transfer evs w) = w_addr w"
    by (induction evs arbitrary: w) simp_all
qed

lemma set_pending_keep:
  fixes s :: "'z watch_state_scheme"
  shows "map w_addr (aio_watches (set_pending a m s)) = map w_addr (aio_watches s)"
    and "alloc_no (set_pending a m s) = alloc_no s" and "read_watches (set_pending a m s) = read_watches s"
    and "queues (set_pending a m t) = queues t"
    and "\<forall>w \<in> set (aio_watches s). short_watch w \<Longrightarrow> \<forall>w \<in> set (aio_watches (set_pending a None s)). short_watch w"
  by (auto simp: set_pending_def short_watch_def)

text \<open>The parts of the invariant beside the one on flows, by what they depend on.\<close>

lemma rings_wf_view:
  "rings_wf s \<longleftrightarrow> (\<forall>b \<in> set (fst (ring_view s)). circ_inv b) \<and> (\<forall>p b. snd (ring_view s) p = Some b \<longrightarrow> circ_inv b)"
  by (auto simp: rings_wf_def ring_view_def split: pointer.splits)

lemma rings_wf_cong: "ring_view t = ring_view s \<Longrightarrow> rings_wf t = rings_wf s"
  by (simp add: rings_wf_view)

lemma ends_inv_still:
  assumes "ends_inv s" and "still s t"
  shows "ends_inv t"
proof -
  have view: "io_view t = io_view s" "ring_view t = ring_view s" "read_watches t = read_watches s" "alloc_no s \<le> alloc_no t"
    using assms(2) by (simp_all add: still_def)
  have "flow_inv t" "rings_wf t"
    using assms(1) flow_inv_cong [OF view(1)] rings_wf_cong [OF view(2)] by (simp_all add: ends_inv_def)
  moreover have "queues t = queues s" "aio_watches t = aio_watches s" using view(1) by (simp_all add: io_view_def)
  ultimately show ?thesis using assms(1) view(3,4) by (auto simp: ends_inv_def intro: addrs_wf_mono)
qed

lemma ends_inv_view:
  fixes s t :: "'z cntl_state_scheme"
  shows "frame_view t = frame_view s \<Longrightarrow> ends_inv t = ends_inv s"
  using ends_inv_still [of s t] ends_inv_still [of t s] by (auto simp: still_def frame_view_def)

lemma rings_wf_frame [simp]:
  "rings_wf (s\<lparr>alloc_no := k\<rparr>) = rings_wf s" "rings_wf (s\<lparr>read_watches := ws\<rparr>) = rings_wf s"
  "rings_wf (s\<lparr>aio_watches := ws\<rparr>) = rings_wf s" "rings_wf (s\<lparr>queues := qs\<rparr>) = rings_wf s"
  "rings_wf (s\<lparr>flows := fs\<rparr>) = rings_wf s" "rings_wf (s\<lparr>next_flow := n\<rparr>) = rings_wf s"
  "rings_wf (s\<lparr>queues := qs, aio_watches := ws\<rparr>) = rings_wf s" "rings_wf (watch_free_write_aio m s) = rings_wf s"
  "rings_wf (set_pending a x s) = rings_wf s" "rings_wf (enqueue q m s) = rings_wf s" "rings_wf (watch_flow_inc f s) = rings_wf s"
  by (rule rings_wf_cong, simp add: ring_view_def watch_free_write_aio_def watch_flow_dec_def set_pending_def enqueue_def
      watch_flow_inc_def split: option.split)+

lemma ends_invD:
  assumes "ends_inv s"
  shows "flow_inv s" and "distinct (map w_addr (read_watches s))" and "distinct (map w_addr (aio_watches s))"
    and "c < length (clients s) \<Longrightarrow> circ_inv (client_buf c s)" and "perifs s p = Obj perif \<Longrightarrow> circ_inv (p_recv_buf perif)"
  using assms by (auto simp: ends_inv_def addrs_wf_def rings_wf_def client_buf_def)

interpretation ends: loop_pred ends_inv D True for D
proof (unfold_locales, goal_cases)
  case (2 s' s)
  then show ?case by (rule ends_inv_view)
next
  case (3 s c)
  then show ?case using ends_invD(4) by (simp add: ring_ok_def)
next
  case (4 s p perif)
  then show ?case using ends_invD(5) by (simp add: ring_ok_def)
next
  case (5 s k)
  then show ?case by (auto simp: ends_inv_def intro: addrs_wf_mono)
next
  case (6 s s')
  then show ?case by (blast intro: ends_inv_still)
next
  case (7 s q m)
  have "alloc_no (watch_flow_inc f s) = alloc_no s" "read_watches (watch_flow_inc f s) = read_watches s"
    "aio_watches (watch_flow_inc f s) = aio_watches s" "queues (watch_flow_inc f s) = queues s" for f
    by (simp_all add: watch_flow_inc_def split: option.split)
  moreover have "short_read q m" using 7(3) by (auto simp: usb_sized_def short_read_def)
  ultimately show ?case
    using 7 flow.push [of s q m] by (auto simp: ends_inv_def enqueue_def short_queues_def)
next
  case (8 s p)
  then show ?case using flow.known ends_invD(1) by blast
next
  case (9 s)
  then show ?case using flow.new_flow [of s] by (simp add: ends_inv_def)
next
  case (10 s perif p)
  then show ?case using flow.new_perif [of s perif p] by (auto simp: ends_inv_def rings_wf_def ring_ok_def)
next
  case (11 s p)
  then show ?case using flow.free_perif [of s p] by (auto simp: ends_inv_def rings_wf_def)
next
  case (12 s q ms)
  then show ?case
    using flow.empty_queue [of s q ms] by (auto simp: ends_inv_def short_queues_def short_read_def HDLC_BUF_SIZE_def)
next
  case (13 s w q)
  moreover have "short_watch w" using 13(5) by (simp add: short_watch_def)
  moreover have "addrs_wf (Suc (alloc_no s)) (read_watches s)"
    by (rule addrs_wf_mono) (use 13(1) in \<open>auto simp: ends_inv_def\<close>)
  ultimately show ?case using flow.new_watch [of s w q] by (auto simp: ends_inv_def intro: addrs_wf_append)
next
  case (14 s T)
  then show ?case using flow.no_watch [of s T] by (auto simp: ends_inv_def addrs_wf_filter)
next
  case (15 s w cb)
  moreover have "addrs_wf (Suc (alloc_no s)) (aio_watches s)"
    by (rule addrs_wf_mono) (use 15(1) in \<open>auto simp: ends_inv_def\<close>)
  ultimately show ?case by (auto simp: ends_inv_def intro: addrs_wf_append)
next
  case (16 s T)
  then show ?case by (auto simp: ends_inv_def addrs_wf_filter)
next
  case (17 s cl)
  then show ?case using flow.new_client [of s cl] by (auto simp: ends_inv_def rings_wf_def ring_ok_def)
next
  case (18 s c b)
  then have "flow_inv (set_client_buf c b s)" by (simp add: ends_inv_def)
  with 18 show ?case
    by (auto simp: ends_inv_def rings_wf_def ring_ok_def set_client_buf_def set_client_def
        dest!: set_update_subset_insert [THEN subsetD])
next
  case (19 s w m)
  moreover have "aio_watches (watch_free_write_aio m s) = aio_watches s" "alloc_no (watch_free_write_aio m s) = alloc_no s"
    "read_watches (watch_free_write_aio m s) = read_watches s"
    by (simp_all add: watch_free_write_aio_def watch_flow_dec_def split: option.split)
  ultimately show ?case
    using flow.written [of s w m] set_pending_keep(5) [of "watch_free_write_aio m s" "w_addr w"]
    by (simp add: ends_inv_def addrs_wf_map [OF set_pending_keep(1)] set_pending_keep(2,3))
next
  case (20 s a)
  then show ?case
    using flow.unpended [of s a] set_pending_keep(5) [of s a]
    by (simp add: ends_inv_def addrs_wf_map [OF set_pending_keep(1)] set_pending_keep(2,3))
next
  case (21 s w m h)
  then have "watch_ok w" "short_watch w" by (simp_all add: ends_inv_def flow_inv_def)
  then show ?case
    using 21(3,4) flow.read_flow [OF ends_invD(1) [OF 21(1)] 21(2-4)]
    by (auto simp: watch_ok_def watch_shape_def short_watch_def short_read_def)
next
  case (22 s acc ws qs)
  have "short_queues qs \<and> (\<forall>w \<in> set ws. short_watch w) \<and> map w_addr ws = map w_addr (aio_watches s)"
    by (rule poll_aio_short [OF 22(2)]) (use 22(1) in \<open>simp_all add: ends_inv_def\<close>)
  moreover have "flow_inv (s\<lparr>queues := qs, aio_watches := ws\<rparr>)"
    by (rule flow.polled [OF _ 22(2)]) (use 22(1) in \<open>simp add: ends_inv_def\<close>)
  moreover from calculation have "addrs_wf n ws = addrs_wf n (aio_watches s)" for n by (intro addrs_wf_map) simp
  ultimately show ?case using 22(1) by (simp add: ends_inv_def)
next
  case (23 s evs)
  then show ?case
    using flow.read_in [of s evs] by (auto simp: ends_inv_def transferred_def transfers_keep addrs_wf_def comp_def)
qed simp_all

section \<open>Tables that only lose watches\<close>

text \<open>
  What the callbacks do to the tables while a walk is under way: those of finished requests
  add to neither, and of those of readable descriptors only the one that accepts clients adds
  a watch to the table it is called from.
\<close>

text \<open>What of a watch stays the same.\<close>

type_synonym watch_key = "nat \<times> read_cb option"

definition watch_key :: "watch \<Rightarrow> watch_key" where
  "watch_key w = (w_addr w, w_cb w)"

definition shrunk :: "bool \<Rightarrow> watch_key list \<Rightarrow> watch list \<Rightarrow> 'z watch_state_scheme \<Rightarrow> bool" where
  "shrunk b as ws s \<longleftrightarrow> (b \<or> subseq (map watch_key (aio_watches s)) as) \<and> subseq (read_watches s) ws"

lemma shrunk_cong:
  "map watch_key (aio_watches t) = map watch_key (aio_watches s) \<Longrightarrow> read_watches t = read_watches s \<Longrightarrow> shrunk b as ws t = shrunk b as ws s"
  by (simp add: shrunk_def)

lemma shrunk_refl: "shrunk b (map watch_key (aio_watches s)) (read_watches s) s"
  by (simp add: shrunk_def)

lemma shrunk_frame [simp]:
  "shrunk b as ws (s\<lparr>alloc_no := k\<rparr>) = shrunk b as ws s" "shrunk b as ws (s\<lparr>queues := qs\<rparr>) = shrunk b as ws s"
  "shrunk b as ws (s\<lparr>perifs := ps\<rparr>) = shrunk b as ws s" "shrunk b as ws (s\<lparr>clients := cs\<rparr>) = shrunk b as ws s"
  "shrunk b as ws (s\<lparr>flows := fs, next_flow := n\<rparr>) = shrunk b as ws s"
  "shrunk b as ws (set_client_buf c r s) = shrunk b as ws s" "shrunk b as ws (set_pending a m s) = shrunk b as ws s"
  "shrunk b as ws (watch_free_write_aio m' s) = shrunk b as ws s"
  "shrunk b as ws (enqueue q m' s) = shrunk b as ws s" "shrunk b as ws (watch_flow_inc f s) = shrunk b as ws s"
  by (rule shrunk_cong;
      simp add: watch_key_def set_client_buf_def set_client_def set_pending_def watch_free_write_aio_def watch_flow_dec_def enqueue_def
        watch_flow_inc_def split: option.split)+

lemma shrunk_filter:
  assumes "shrunk b as ws s"
  shows "shrunk b as ws (s\<lparr>aio_watches := filter T (aio_watches s)\<rparr>)" "shrunk b as ws (s\<lparr>read_watches := filter T (read_watches s)\<rparr>)"
proof -
  have "subseq (map watch_key (filter T (aio_watches s))) (map watch_key (aio_watches s))" by (intro subseq_map subseq_filter_left)
  with assms show "shrunk b as ws (s\<lparr>aio_watches := filter T (aio_watches s)\<rparr>)"
    by (auto simp: shrunk_def intro: subseq_order.trans)
  from assms show "shrunk b as ws (s\<lparr>read_watches := filter T (read_watches s)\<rparr>)"
    by (auto simp: shrunk_def intro: subseq_order.trans [OF subseq_filter_left])
qed

interpretation shrink: event_pred "\<lambda>s. ends_inv s \<and> shrunk b as ws s" False True "\<lambda>_. False" "\<lambda>_. b" for b as ws
proof (unfold_locales, goal_cases)
  case (2 s' s)
  then have "shrunk b as ws s' = shrunk b as ws s"
    by (intro shrunk_cong) (simp_all add: frame_view_def io_view_def)
  with 2 show ?case using ends_inv_view by blast
next
  case (6 s s')
  then have "shrunk b as ws s' = shrunk b as ws s"
    by (intro shrunk_cong) (simp_all add: still_def io_view_def)
  with 6 show ?case using ends_inv_still by blast
next
  case (13 s w q)
  then show ?case using ends.new_watch [of s w q] by (simp add: shrunk_def)
next
  case (14 s T)
  then show ?case using ends.no_watch [of s T] shrunk_filter(1) by blast
next
  case (16 s T)
  then show ?case using ends.no_reader [of s T] shrunk_filter(2) by blast
qed (auto intro: ends.client_ring ends.perif_ring ends.alloc ends.known ends.new_flow ends.new_perif ends.free_perif
    ends.empty_queue ends.new_client ends.new_ring ends.push ends.written ends.unpended dest: ends.read_flow)

lemma accepted_watch:
  assumes "unix_listen client nonblock s = Inr (ret, t)"
  shows "read_watches t = read_watches s \<or> (\<exists>w c. w_cb w = Some (CbDmRecv c) \<and> read_watches t = read_watches s @ [w])"
  using assms
  by (auto simp: unix_listen_def dm_add_def calloc_or_exit_def malloc_def watch_add_readfd_def watch_add_writeq_def
      dm_enable_def set_client_def Let_def split: if_splits)

section \<open>Walks come to the end of the table\<close>

text \<open>
  The weight of a watch bounds how many visits it leads to: its own, and those of the watches
  that its callback appends. What is left of a walk weighs less at every step.
\<close>

definition weight :: "watch_key \<Rightarrow> nat" where
  "weight k = (if snd k = Some CbUnixListen then 2 else 1)"

definition ahead :: "nat \<Rightarrow> watch_key list \<Rightarrow> nat" where
  "ahead a ks = sum_list (map weight (dropWhile (\<lambda>k. fst k \<noteq> a) ks))"

lemma subseq_dropWhile: "subseq ys xs \<Longrightarrow> subseq (dropWhile T ys) (dropWhile T xs)"
proof (induction rule: list_emb.induct)
  case (list_emb_Cons xs ys y)
  then show ?case
    by (auto intro: subseq_order.trans [OF suffix_imp_subseq [OF suffix_dropWhile]])
qed auto

lemma sum_subseq: "subseq ys xs \<Longrightarrow> sum_list (map (f :: _ \<Rightarrow> nat) ys) \<le> sum_list (map f xs)"
  by (induction rule: list_emb.induct) auto

lemma ahead_append: "ahead a (ks @ new) \<le> ahead a ks + sum_list (map weight new)"
proof (cases "\<exists>k \<in> set ks. fst k = a")
  case False
  then have "dropWhile (\<lambda>k. fst k \<noteq> a) (ks @ new) = dropWhile (\<lambda>k. fst k \<noteq> a) new"
    by (intro dropWhile_append2) auto
  moreover have "sum_list (map weight (dropWhile (\<lambda>k. fst k \<noteq> a) new)) \<le> sum_list (map weight new)"
    by (intro sum_subseq suffix_imp_subseq suffix_dropWhile)
  ultimately show ?thesis by (simp add: ahead_def)
qed (auto simp: ahead_def dropWhile_append1)

lemma ahead_subseq: "subseq ls ks \<Longrightarrow> ahead a ls \<le> ahead a ks"
  unfolding ahead_def by (intro sum_subseq subseq_dropWhile)

lemma ahead_step:
  assumes "distinct (map w_addr ws)" and "w \<in> set ws" and "addr_after (w_addr w) ws = Some b"
  shows "ahead b (map watch_key ws) + weight (watch_key w) \<le> ahead (w_addr w) (map watch_key ws)"
proof -
  from assms(2) obtain us vs where ws: "ws = us @ w # vs" by (meson split_list)
  with assms(1,3) obtain v vs' where v: "vs = v # vs'" "w_addr v = b"
    by (cases vs) (simp_all add: addr_after_append)
  have "dropWhile (\<lambda>k. fst k \<noteq> w_addr w) (map watch_key ws) = map watch_key (w # vs)"
    using assms(1) unfolding ws by (subst map_append, subst dropWhile_append2) (auto simp: watch_key_def image_iff)
  moreover have "dropWhile (\<lambda>k. fst k \<noteq> b) (map watch_key ws) = map watch_key vs"
    using assms(1) v unfolding ws
    by (subst map_append, subst dropWhile_append2) (auto simp: watch_key_def image_iff)
  ultimately show ?thesis by (simp add: ahead_def)
qed

definition stepped :: "watch \<Rightarrow> watch list \<Rightarrow> watch list \<Rightarrow> bool" where
  "stepped w ws vs \<longleftrightarrow>
     (\<exists>old new. map watch_key vs = old @ new \<and> subseq old (map watch_key ws) \<and> sum_list (map weight new) < weight (watch_key w))"

lemma stepped_subseq: "subseq (map watch_key vs) (map watch_key ws) \<Longrightarrow> stepped w ws vs"
  unfolding stepped_def by (rule exI [of _ "map watch_key vs"], rule exI [of _ "[]"]) (simp add: weight_def)

lemma walk_ends:
  assumes body: "\<And>w s. P s \<Longrightarrow> w \<in> set (table s) \<Longrightarrow> yields False (\<lambda>t. P t \<and> stepped w (table s) (table t)) (body w s)"
    and addrs: "\<And>s. P s \<Longrightarrow> distinct (map w_addr (table s))"
    and "P s" and "\<And>a. start = Some a \<Longrightarrow> ahead a (map watch_key (table s)) < fuel"
  shows "yields False P (walk fuel table body start s)"
  using assms(3,4)
proof (induction fuel arbitrary: start s)
  case 0
  then show ?case by (cases start) auto
next
  case (Suc fuel)
  show ?case
  proof (cases "\<exists>a w. start = Some a \<and> watch_at a (table s) = Inr w")
    case False
    then show ?thesis
      using Suc.prems(1) by (cases start; cases "watch_at (the start) (table s)") (auto simp: watch_at_def split: option.splits)
  next
    case True
    then obtain a w where a: "start = Some a" "watch_at a (table s) = Inr w" by blast
    then have w: "w \<in> set (table s)" "w_addr w = a" by (auto simp: watch_at_def find_Some_iff split: option.splits)
    let ?next = "addr_after a (table s)"
    have "yields False P (walk fuel table body ?next t)" if t: "P t" "stepped w (table s) (table t)" for t
    proof (rule Suc.IH [OF t(1)])
      fix b
      assume b: "?next = Some b"
      from t(2) obtain old new where on: "map watch_key (table t) = old @ new" "subseq old (map watch_key (table s))"
        "sum_list (map weight new) < weight (watch_key w)"
        by (auto simp: stepped_def)
      have "ahead b (map watch_key (table t)) < ahead b (map watch_key (table s)) + weight (watch_key w)"
        using ahead_append [of b old new] ahead_subseq [OF on(2), of b] on(1,3) by simp
      moreover have "ahead b (map watch_key (table s)) + weight (watch_key w) \<le> ahead a (map watch_key (table s))"
        using ahead_step [OF addrs [OF Suc.prems(1)] w(1)] w(2) b by simp
      ultimately show "ahead b (map watch_key (table t)) < fuel" using Suc.prems(2) [OF a(1)] by linarith
    qed
    moreover have "yields False (\<lambda>t. P t \<and> stepped w (table s) (table t)) (body w s)" by (rule body [OF Suc.prems(1) w(1)])
    ultimately show ?thesis by (auto simp: a Let_def elim!: yields_mono)
  qed
qed

lemma ahead_total: "ahead a (map watch_key ws) \<le> 2 * length ws"
proof -
  have "sum_list (map weight ks) \<le> 2 * length ks" for ks by (induction ks) (auto simp: weight_def)
  from this [of "map watch_key ws"] sum_subseq [OF suffix_imp_subseq [OF suffix_dropWhile], of weight "\<lambda>k. fst k \<noteq> a" "map watch_key ws"]
  show ?thesis by (simp add: ahead_def)
qed

lemma walk_fuel_enough: "ahead a (map watch_key (read_watches s)) < walk_fuel s" "ahead a (map watch_key (aio_watches s)) < walk_fuel s"
  using ahead_total [of a "read_watches s"] ahead_total [of a "aio_watches s"] by (simp_all add: walk_fuel_def)

section \<open>A turn\<close>

text \<open>The watches of data channels do not see the end of the stream.\<close>

definition data_end :: "(int \<Rightarrow> nat \<Rightarrow> answers) \<Rightarrow> watch list \<Rightarrow> bool" where
  "data_end an ws \<longleftrightarrow>
     (\<forall>w \<in> set ws. \<forall>p. w_cb w = Some (CbRpmsgData p) \<longrightarrow> Eof \<notin> set (an_reads (an (w_fd w) (w_addr w))))"

lemma data_end_subseq: "subseq vs ws \<Longrightarrow> data_end an ws \<Longrightarrow> data_end an vs"
  using list_emb_set [of "(=)" vs ws] by (fastforce simp: data_end_def)

lemma events_end:
  assumes "ends_inv s" and "\<And>es ev. evs = Some es \<Longrightarrow> ev \<in> set es \<Longrightarrow> ev_res ev < int HDLC_BUF_SIZE"
  shows "yields False (\<lambda>t. ends_inv t \<and> subseq (read_watches t) (read_watches s)) (watch_handle_eventfd (walk_fuel s) evs s)"
proof (cases evs)
  case (Some es)
  let ?s = "transferred es s"
  have "yields False (\<lambda>t. ends_inv t \<and> subseq (read_watches t) (read_watches s))
      (walk (walk_fuel s) aio_watches (\<lambda>w. fold_res (aio_event (w_addr w)) es) (first_addr (aio_watches ?s)) ?s)"
  proof (rule walk_ends)
    fix w :: watch and t :: "'a usb_state_scheme"
    assume t: "ends_inv t \<and> subseq (read_watches t) (read_watches s)"
    let ?I = "\<lambda>u. ends_inv u \<and> shrunk False (map watch_key (aio_watches t)) (read_watches t) u"
    have "yields False ?I (aio_event (w_addr w) ev u)" if "ev \<in> set es" "?I u" for ev u
      by (rule shrink.aio_event [OF that(2)]) (use assms(2) [OF Some that(1)] in \<open>simp add: event_fits_def\<close>)
    then have "yields False ?I (fold_res (aio_event (w_addr w)) es t)"
      by (intro shrink.fold_yields [where I = ?I]) (use t shrunk_refl in auto)
    then show "yields False (\<lambda>u. (ends_inv u \<and> subseq (read_watches u) (read_watches s)) \<and> stepped w (aio_watches t) (aio_watches u))
        (fold_res (aio_event (w_addr w)) es t)"
      by (rule yields_mono) (use t in \<open>auto simp: shrunk_def intro: stepped_subseq subseq_order.trans\<close>)
  next
    have "map watch_key (aio_watches ?s) = map watch_key (aio_watches s)"
    proof -
      have "watch_key (transfer ev w) = watch_key w" for ev w by (simp add: transfer_def watch_key_def)
      then have "watch_key (fold transfer es w) = watch_key w" for w by (induction es arbitrary: w) simp_all
      then show ?thesis by (simp add: transferred_def comp_def)
    qed
    then show "ahead a (map watch_key (aio_watches ?s)) < walk_fuel s" for a using walk_fuel_enough(2) by metis
    show "ends_inv ?s \<and> subseq (read_watches ?s) (read_watches s)"
      using ends.read_in [OF assms(1), of es] by (simp add: transferred_def)
  qed (auto dest: ends_invD)
  then show ?thesis by (simp add: watch_handle_eventfd_def Some Let_def)
qed (use assms(1) in \<open>simp add: watch_handle_eventfd_def\<close>)

lemma read_visit:
  assumes inv: "ends_inv s" "data_end an (read_watches s)" and w: "w \<in> set (read_watches s)"
  shows "yields False (\<lambda>t. (ends_inv t \<and> data_end an (read_watches t)) \<and> stepped w (read_watches s) (read_watches t))
    (watch_read decode rfds an w s)"
proof -
  have ends: "data_ends False (an_reads (an (w_fd w) (w_addr w)))" if "w_cb w = Some (CbRpmsgData p)" for p
    using inv(2) w that by (auto simp: data_end_def data_ends_def)
  show ?thesis
  proof (cases "w_cb w = Some CbUnixListen")
    case False
    have "yields False (\<lambda>t. ends_inv t \<and> shrunk True [] (read_watches s) t) (watch_read decode rfds an w s)"
      by (rule shrink.watch_read) (use inv(1) ends False in \<open>auto simp: shrunk_def\<close>)
    then show ?thesis
      by (rule yields_mono)
        (auto simp: shrunk_def intro: data_end_subseq [OF _ inv(2)] stepped_subseq subseq_map)
  next
    case True
    have "data_end an (read_watches t) \<and> stepped w (read_watches s) (read_watches t)"
      if res: "watch_read decode rfds an w s = Inr t" for t
    proof (cases "t = s")
      case False
      have "\<not> ret < 0" if "unix_listen client nonblock s = Inr (ret, u)" for client nonblock ret u
        using that by (auto simp: unix_listen_def andthen_eq_Inr split: if_splits)
      with False res True obtain client nonblock ret where "unix_listen client nonblock s = Inr (ret, t)"
        by (auto simp: watch_read_def read_callback_def andthen_eq_Inr split: if_splits)
      from accepted_watch [OF this] show ?thesis
      proof (elim disjE exE conjE)
        fix v c
        assume v: "w_cb v = Some (CbDmRecv c)" "read_watches t = read_watches s @ [v]"
        have "stepped w (read_watches s) (read_watches t)"
          unfolding stepped_def
          by (rule exI [of _ "map watch_key (read_watches s)"], rule exI [of _ "[watch_key v]"]) (simp add: v True weight_def watch_key_def)
        with inv(2) v show ?thesis by (auto simp: data_end_def)
      qed (use inv(2) stepped_subseq in auto)
    qed (use inv(2) stepped_subseq in auto)
    moreover have "yields False ends_inv (watch_read decode rfds an w s)"
      by (rule ends.watch_read) (use inv(1) ends in auto)
    ultimately show ?thesis by (auto elim!: yields_strengthen)
  qed
qed

lemma reads_end_walk:
  assumes "ends_inv s" and "data_end an (read_watches s)"
  shows "yields False ends_inv (walk (walk_fuel s) read_watches (watch_read decode rfds an) (first_addr (read_watches s)) s)"
proof -
  have "yields False (\<lambda>s. ends_inv s \<and> data_end an (read_watches s))
      (walk (walk_fuel s) read_watches (watch_read decode rfds an) (first_addr (read_watches s)) s)"
    by (rule walk_ends) (use assms read_visit walk_fuel_enough in \<open>auto dest: ends_invD\<close>)
  then show ?thesis by (rule yields_mono) simp
qed

lemma idle_walk:
  assumes "ends_inv s"
  shows "yields False ends_inv (walk (walk_fuel s) read_watches (watch_read decode [] an) (first_addr (read_watches s)) s)"
  by (rule walk_ends) (use assms walk_fuel_enough in \<open>auto simp: watch_read_def intro: stepped_subseq dest: ends_invD\<close>)

lemma turn_ends:
  assumes "ends_inv s" and "data_end (tn_answers tn) (read_watches s)"
    and "\<And>es ev. tn_events tn = Some es \<Longrightarrow> ev \<in> set es \<Longrightarrow> ev_res ev < int HDLC_BUF_SIZE"
  shows "yields False (\<lambda>(_, t). ends_inv t) (watch_turn decode tn s)"
proof -
  let ?s = "s\<lparr>clock := tn_clock tn\<rparr>"
  have s: "ends_inv ?s" using assms(1) by simp
  have run: "yields False (\<lambda>t. yields False ends_inv
        (walk (walk_fuel t) read_watches (watch_read decode rfds (tn_answers tn)) (first_addr (read_watches t)) t))
      (if finished then watch_handle_eventfd (walk_fuel t) (tn_events tn) t else Inr t)"
    if t: "ends_inv t" "read_watches t = read_watches s" for t :: "'a usb_state_scheme" and finished rfds
  proof (cases finished)
    case True
    have "yields False (\<lambda>u. ends_inv u \<and> subseq (read_watches u) (read_watches t))
        (watch_handle_eventfd (walk_fuel t) (tn_events tn) t)"
      by (rule events_end [OF t(1)]) (rule assms(3))
    then show ?thesis
      unfolding if_P [OF True]
      by (rule yields_mono) (use assms(2) t(2) in \<open>auto intro: reads_end_walk data_end_subseq\<close>)
  qed (use t assms(2) reads_end_walk [OF t(1)] in simp)
  have polled: "yields False (\<lambda>t. ends_inv t \<and> read_watches t = read_watches s) (watch_poll (tn_submit tn) ?s)"
  proof (rule yields_strengthen)
    show "yields False ends_inv (watch_poll (tn_submit tn) ?s)" by (rule ends.watch_poll [OF s])
  qed (auto simp: watch_poll_def andthen_eq_Inr)
  have turn: "yields False (\<lambda>(_, t). ends_inv t) (case tn_select tn of
        SelFailed \<Rightarrow> Inr (False, t)
      | SelTimeout \<Rightarrow>
          andthen (case watch_get_next_timer t of None \<Rightarrow> Inr t | Some tm \<Rightarrow> watch_expire (tn_open tn) tm t) (\<lambda>s.
          andthen (walk (walk_fuel s) read_watches (watch_read decode [] (tn_answers tn))
                     (first_addr (read_watches s)) s) (\<lambda>s. Inr (True, s)))
      | SelReady fds finished \<Rightarrow>
          andthen (if finished then watch_handle_eventfd (walk_fuel t) (tn_events tn) t else Inr t) (\<lambda>s.
          andthen (walk (walk_fuel s) read_watches
                     (watch_read decode (filter (\<lambda>fd. fd \<in> set rfds) fds) (tn_answers tn))
                     (first_addr (read_watches s)) s) (\<lambda>s. Inr (True, s))))"
    if t: "ends_inv t" "read_watches t = read_watches s" for t :: "'a usb_state_scheme" and rfds
  proof (cases "tn_select tn")
    case SelFailed
    with t show ?thesis by simp
  next
    case SelTimeout
    have "yields False ends_inv (case watch_get_next_timer t of None \<Rightarrow> Inr t | Some tm \<Rightarrow> watch_expire (tn_open tn) tm t)"
      by (cases "watch_get_next_timer t") (simp_all add: t(1) ends.watch_expire)
    then show ?thesis
      unfolding SelTimeout by simp (erule yields_mono, erule idle_walk)
  next
    case (SelReady fds finished)
    from run [OF t, where finished = finished and rfds = "filter (\<lambda>fd. fd \<in> set rfds) fds"] show ?thesis
      unfolding SelReady by simp
  qed
  have "yields False (\<lambda>_. True) (read_set (read_watches ?s) ?s)" by (rule yields_any [OF read_set_ends]) simp
  then show ?thesis
    unfolding watch_turn_def Let_def yields_simps(3)
    by (rule yields_mono) (rule yields_mono [OF polled], rule turn, simp_all)
qed

text \<open>Also in every state that the program reaches.\<close>

lemma ends_inv_initial: "initial s \<Longrightarrow> ends_inv s"
  using flow_inv_initial [of s]
  by (simp add: initial_def ends_inv_def rings_wf_def addrs_wf_def short_queues_def)

lemma ends_inv_main:
  assumes "initial s" and "router_main opts env decode tns s = Inr (r, s')"
  shows "ends_inv s'"
proof -
  from assms(2) obtain t where t: "diag_main opts env s = Inr t" "watch_run decode tns t = Inr (r, s')"
    by (auto simp: router_main_def andthen_eq_Inr)
  have "ends_inv t"
    using yieldsD [OF ends.diag_main [OF ends_inv_initial [OF assms(1)], where Q = ends_inv and D = True] t(1)] by simp
  from yieldsD [OF ends.watch_run [OF TrueI this, where Q = "\<lambda>(_, t). ends_inv t"] t(2)] show ?thesis by simp
qed

end
