(* ===== verification/Cntl_Packets.thy ===== *)
theory Cntl_Packets
  imports Diag_Cntl
begin

text \<open>
  The packets of the control channel as the structures that \<^verbatim>\<open>diag_cntl.c\<close> declares, all of
  them packed: what a peripheral sends and what it is sent, field by field. The handlers of
  \<^verbatim>\<open>Diag_Cntl\<close> read and write bytes at offsets; here they are shown to work on the fields.
\<close>

section \<open>Layouts\<close>

text \<open>
  A layout writes a structure to bytes and reads it back, whatever follows it in the buffer;
  so the structures of a layout can be told apart by their bytes.
\<close>

locale wire_layout =
  fixes valid :: "'a \<Rightarrow> bool"
    and enc :: "'a \<Rightarrow> u8 list"
    and dec :: "mem \<Rightarrow> 'a res"
  assumes read_back: "valid x \<Longrightarrow> dec (mem_of (enc x @ rest)) = Inr x"
begin

lemma read_whole: "valid x \<Longrightarrow> dec (mem_of (enc x)) = Inr x"
  using read_back [of x "[]"] by simp

lemma write_prefix: "valid x \<Longrightarrow> valid y \<Longrightarrow> enc x @ xs = enc y @ ys \<Longrightarrow> x = y \<and> xs = ys"
  using read_back [of x xs] read_back [of y ys] by auto

lemma write_inj: "inj_on enc {x. valid x}"
  using write_prefix [of _ _ "[]" "[]"] by (auto intro: inj_onI)

end

text \<open>Reading behind the fields that come before.\<close>

lemma rd8_at: "length xs = i \<Longrightarrow> rd8 (mem_of (xs @ b # ys)) i = Inr b"
  by (auto simp: rd8_def)

lemma rd16_le16_at: "length xs = i \<Longrightarrow> rd16 (mem_of (xs @ le16 w @ ys)) i = Inr w"
  by (auto simp: rd16_def le16_def nth_append u16_of_le16)

lemma rd32_le32_at: "length xs = i \<Longrightarrow> rd32 (mem_of (xs @ le32 w @ ys)) i = Inr w"
  by (auto simp: rd32_def le32_def nth_append u32_of_le32)

lemma rd_bytes_at: "length xs = i \<Longrightarrow> length bs = n \<Longrightarrow> rd_bytes (mem_of (xs @ bs @ ys)) i n = Inr bs"
  by (auto simp: rd_bytes_def nth_append intro!: nth_equalityI)

lemma pk16_le16: "length xs = i \<Longrightarrow> pk16 (mem_of (xs @ le16 w @ ys)) i = w"
  using rd16_le16_at [of xs i w ys] rd16_ok [of i "mem_of (xs @ le16 w @ ys)"] by simp

text \<open>An array of structures of \<open>k\<close> bytes at offset \<open>i\<close>.\<close>

fun rd_array :: "(mem \<Rightarrow> nat \<Rightarrow> 'a res) \<Rightarrow> nat \<Rightarrow> mem \<Rightarrow> nat \<Rightarrow> nat \<Rightarrow> 'a list res" where
  "rd_array rd k m i 0 = Inr []"
| "rd_array rd k m i (Suc n) = andthen (rd m i) (\<lambda>x. andthen (rd_array rd k m (i + k) n) (\<lambda>xs. Inr (x # xs)))"

lemma rd_array_at:
  assumes rd: "\<And>xs x ys. rd (mem_of (xs @ enc x @ ys)) (length xs) = Inr x" and len: "\<And>x. length (enc x) = k"
  shows "length xs = i \<Longrightarrow> rd_array rd k (mem_of (xs @ concat (map enc as) @ ys)) i (length as) = Inr as"
proof (induction as arbitrary: xs i)
  case (Cons a as)
  from Cons.IH [of "xs @ enc a" "i + k"] rd [of xs a "concat (map enc as) @ ys"] Cons.prems len
  show ?case by simp
qed simp

lemma concat_nth_split:
  assumes "j < length as" and "\<And>x. length (enc x) = k"
  shows "\<exists>us vs. concat (map enc as) = us @ enc (as ! j) @ vs \<and> length us = k * j"
proof -
  have "as = take j as @ as ! j # drop (Suc j) as" using assms(1) by (rule id_take_nth_drop)
  then have "concat (map enc as) =
      concat (map enc (take j as)) @ enc (as ! j) @ concat (map enc (drop (Suc j) as))"
    by (metis concat.simps(2) concat_append list.simps(9) map_append)
  moreover have "length (concat (map enc bs)) = k * length bs" for bs
    using assms(2) by (induction bs) simp_all
  ultimately show ?thesis using assms(1) by (metis length_take min.absorb4)
qed

section \<open>From a peripheral: commands\<close>

record cmd_range_reg =
  rr_first :: u16
  rr_last :: u16
  rr_data :: u32

record diag_cntl_cmd_reg =
  reg_version :: u32
  reg_cmd :: u16
  reg_subsys :: u16
  reg_count_entries :: u16
  reg_port :: u16
  reg_ranges :: "cmd_range_reg list"

definition range_reg_write :: "cmd_range_reg \<Rightarrow> u8 list" where
  "range_reg_write r = le16 (rr_first r) @ le16 (rr_last r) @ le32 (rr_data r)"

definition range_reg_read :: "mem \<Rightarrow> nat \<Rightarrow> cmd_range_reg res" where
  "range_reg_read m i =
     andthen (rd16 m i) (\<lambda>first. andthen (rd16 m (i + 2)) (\<lambda>last. andthen (rd32 m (i + 4)) (\<lambda>data.
       Inr \<lparr>rr_first = first, rr_last = last, rr_data = data\<rparr>)))"

definition cmd_reg_write :: "diag_cntl_cmd_reg \<Rightarrow> u8 list" where
  "cmd_reg_write r =
     cntl_pkt CNTL_CMD_REGISTER
       (le32 (reg_version r) @ le16 (reg_cmd r) @ le16 (reg_subsys r) @ le16 (reg_count_entries r) @ le16 (reg_port r) @
        concat (map range_reg_write (reg_ranges r)))"

definition cmd_reg_read :: "mem \<Rightarrow> diag_cntl_cmd_reg res" where
  "cmd_reg_read m =
     andthen (rd32 m 8) (\<lambda>version. andthen (rd16 m 12) (\<lambda>cmd. andthen (rd16 m 14) (\<lambda>subsys.
     andthen (rd16 m 16) (\<lambda>count. andthen (rd16 m 18) (\<lambda>port.
     andthen (rd_array range_reg_read 8 m 20 (unat count)) (\<lambda>ranges.
       Inr \<lparr>reg_version = version, reg_cmd = cmd, reg_subsys = subsys, reg_count_entries = count, reg_port = port,
            reg_ranges = ranges\<rparr>))))))"

definition reg_fits :: "diag_cntl_cmd_reg \<Rightarrow> bool" where
  "reg_fits r \<longleftrightarrow> length (reg_ranges r) = unat (reg_count_entries r)"

lemma length_range_reg [simp]: "length (range_reg_write r) = 8"
  by (simp add: range_reg_write_def)

lemma range_reg_at: "length xs = i \<Longrightarrow> range_reg_read (mem_of (xs @ range_reg_write r @ ys)) i = Inr r"
  using rd16_le16_at [of xs i "rr_first r" "le16 (rr_last r) @ le32 (rr_data r) @ ys"]
    rd16_le16_at [of "xs @ le16 (rr_first r)" "i + 2" "rr_last r" "le32 (rr_data r) @ ys"]
    rd32_le32_at [of "xs @ le16 (rr_first r) @ le16 (rr_last r)" "i + 4" "rr_data r" ys]
  by (simp add: range_reg_read_def range_reg_write_def)

text \<open>The bytes of a packet before and after each of its fields.\<close>

lemma cmd_reg_fields:
  fixes rest :: "u8 list"
  defines "m r \<equiv> mem_of (cmd_reg_write r @ rest)"
  shows "rd32 (m r) 8 = Inr (reg_version r)" "rd16 (m r) 12 = Inr (reg_cmd r)" "rd16 (m r) 14 = Inr (reg_subsys r)"
    "rd16 (m r) 16 = Inr (reg_count_entries r)" "rd16 (m r) 18 = Inr (reg_port r)"
    "rd_array range_reg_read 8 (m r) 20 (length (reg_ranges r)) = Inr (reg_ranges r)"
proof -
  let ?h = "le32 CNTL_CMD_REGISTER @ le32 (of_nat (12 + 8 * length (reg_ranges r)))" and ?t = "concat (map range_reg_write (reg_ranges r)) @ rest"
  have len: "length (concat (map range_reg_write rs)) = 8 * length rs" for rs by (induction rs) simp_all
  have m: "m r = mem_of (?h @ le32 (reg_version r) @ le16 (reg_cmd r) @ le16 (reg_subsys r) @ le16 (reg_count_entries r) @
      le16 (reg_port r) @ ?t)"
    by (simp add: m_def cmd_reg_write_def cntl_pkt_def len)
  show "rd32 (m r) 8 = Inr (reg_version r)" unfolding m by (rule rd32_le32_at) simp
  show "rd16 (m r) 12 = Inr (reg_cmd r)"
    using rd16_le16_at [of "?h @ le32 (reg_version r)" 12] unfolding m by simp
  show "rd16 (m r) 14 = Inr (reg_subsys r)"
    using rd16_le16_at [of "?h @ le32 (reg_version r) @ le16 (reg_cmd r)" 14] unfolding m by simp
  show "rd16 (m r) 16 = Inr (reg_count_entries r)"
    using rd16_le16_at [of "?h @ le32 (reg_version r) @ le16 (reg_cmd r) @ le16 (reg_subsys r)" 16] unfolding m by simp
  show "rd16 (m r) 18 = Inr (reg_port r)"
    using rd16_le16_at [of "?h @ le32 (reg_version r) @ le16 (reg_cmd r) @ le16 (reg_subsys r) @ le16 (reg_count_entries r)" 18]
    unfolding m by simp
  show "rd_array range_reg_read 8 (m r) 20 (length (reg_ranges r)) = Inr (reg_ranges r)"
    using rd_array_at [of range_reg_read range_reg_write 8 "?h @ le32 (reg_version r) @ le16 (reg_cmd r) @ le16 (reg_subsys r) @
      le16 (reg_count_entries r) @ le16 (reg_port r)" 20 "reg_ranges r" rest] range_reg_at
    unfolding m by simp
qed

interpretation reg: wire_layout reg_fits cmd_reg_write cmd_reg_read
proof unfold_locales
  fix r rest
  assume "reg_fits r"
  then have "rd_array range_reg_read 8 (mem_of (cmd_reg_write r @ rest)) 20 (unat (reg_count_entries r)) = Inr (reg_ranges r)"
    using cmd_reg_fields(6) [of r rest] by (simp only: reg_fits_def)
  then show "cmd_reg_read (mem_of (cmd_reg_write r @ rest)) = Inr r"
    by (simp add: cmd_reg_read_def cmd_reg_fields(1-5))
qed

text \<open>The command that a range of a registration stands for.\<close>

definition range_cmd :: "perif_id \<Rightarrow> u16 \<Rightarrow> u16 \<Rightarrow> u16 \<Rightarrow> u16 \<Rightarrow> diag_cmd" where
  "range_cmd p cmd subsys lo hi =
     (let code = cmd_code cmd subsys in
      \<lparr>dc_first = cmd_key code subsys lo, dc_last = cmd_key code subsys hi, dc_peripheral = Some p, dc_cb = None\<rparr>)"

definition reg_cmds :: "perif_id \<Rightarrow> diag_cntl_cmd_reg \<Rightarrow> diag_cmd list" where
  "reg_cmds p r = map (\<lambda>g. range_cmd p (reg_cmd r) (reg_subsys r) (rr_first g) (rr_last g)) (reg_ranges r)"

lemma pk16_field: "rd16 m i = Inr w \<Longrightarrow> pk16 m i = w"
  by (simp add: rd16_def pk16_def split: if_splits)

lemma register_packet:
  assumes "mem_ok s" and "reg_fits r"
  shows "diag_cntl_register p (mem_of (cmd_reg_write r @ rest)) s =
    Inr (0, s\<lparr>alloc_no := alloc_no s + length (reg_ranges r), diag_cmds := diag_cmds s @ reg_cmds p r\<rparr>)"
proof -
  let ?m = "mem_of (cmd_reg_write r @ rest)" and ?n = "length (reg_ranges r)"
  have len: "length (concat (map range_reg_write rs)) = 8 * length rs" for rs by (induction rs) simp_all
  have head: "pk16 ?m 12 = reg_cmd r" "pk16 ?m 14 = reg_subsys r" "pk16 ?m 16 = reg_count_entries r"
    by (rule pk16_field, rule cmd_reg_fields)+
  have "pkt_cmd p ?m 20 8 j = range_cmd p (reg_cmd r) (reg_subsys r) (rr_first (reg_ranges r ! j)) (rr_last (reg_ranges r ! j))"
    if j: "j < ?n" for j
  proof -
    let ?g = "reg_ranges r ! j"
    let ?h = "le32 CNTL_CMD_REGISTER @ le32 (of_nat (12 + 8 * ?n)) @ le32 (reg_version r) @ le16 (reg_cmd r) @
      le16 (reg_subsys r) @ le16 (reg_count_entries r) @ le16 (reg_port r)"
    obtain us vs where us: "concat (map range_reg_write (reg_ranges r)) = us @ range_reg_write ?g @ vs" "length us = 8 * j"
      using concat_nth_split [where enc = range_reg_write, OF j length_range_reg] by blast
    have "?m = mem_of (?h @ concat (map range_reg_write (reg_ranges r)) @ rest)"
      by (simp add: cmd_reg_write_def cntl_pkt_def len)
    then have m: "?m = mem_of (?h @ us @ le16 (rr_first ?g) @ le16 (rr_last ?g) @ le32 (rr_data ?g) @ vs @ rest)"
      unfolding us(1) by (simp add: range_reg_write_def)
    have "pk16 ?m (20 + 8 * j) = rr_first ?g" "pk16 ?m (20 + 8 * j + 2) = rr_last ?g"
      using pk16_le16 [of "?h @ us" "20 + 8 * j" "rr_first ?g"] pk16_le16 [of "?h @ us @ le16 (rr_first ?g)" "20 + 8 * j + 2" "rr_last ?g"]
        us(2) unfolding m by simp_all
    then show ?thesis by (simp add: pkt_cmd_def range_cmd_def head Let_def)
  qed
  then have "map (pkt_cmd p ?m 20 8) [0..<?n] = reg_cmds p r"
    by (intro nth_equalityI) (simp_all add: reg_cmds_def)
  moreover have "20 + 8 * unat (pk16 ?m 16) \<le> cap ?m"
    unfolding head using assms(2) by (simp add: reg_fits_def cmd_reg_write_def len)
  ultimately show ?thesis using register_ok [OF assms(1), of ?m p] assms(2) by (simp add: head reg_fits_def)
qed

record cmd_range_dereg =
  dr_first :: u16
  dr_last :: u16

record diag_cntl_cmd_dereg =
  dereg_version :: u32
  dereg_cmd :: u16
  dereg_subsys :: u16
  dereg_count_entries :: u16
  dereg_ranges :: "cmd_range_dereg list"

definition range_dereg_write :: "cmd_range_dereg \<Rightarrow> u8 list" where
  "range_dereg_write r = le16 (dr_first r) @ le16 (dr_last r)"

definition cmd_dereg_write :: "diag_cntl_cmd_dereg \<Rightarrow> u8 list" where
  "cmd_dereg_write r =
     cntl_pkt CNTL_CMD_DEREGISTER
       (le32 (dereg_version r) @ le16 (dereg_cmd r) @ le16 (dereg_subsys r) @ le16 (dereg_count_entries r) @
        concat (map range_dereg_write (dereg_ranges r)))"

definition dereg_fits :: "diag_cntl_cmd_dereg \<Rightarrow> bool" where
  "dereg_fits r \<longleftrightarrow> length (dereg_ranges r) = unat (dereg_count_entries r)"

definition dereg_keys :: "perif_id \<Rightarrow> diag_cntl_cmd_dereg \<Rightarrow> (u32 \<times> u32) set" where
  "dereg_keys p r =
     (\<lambda>g. let c = range_cmd p (dereg_cmd r) (dereg_subsys r) (dr_first g) (dr_last g) in (dc_first c, dc_last c)) `
       set (dereg_ranges r)"

lemma length_range_dereg [simp]: "length (range_dereg_write r) = 4"
  by (simp add: range_dereg_write_def)

lemma deregister_packet:
  assumes "dereg_fits r"
  shows "diag_cntl_deregister p (mem_of (cmd_dereg_write r @ rest)) s =
    Inr (0, s\<lparr>diag_cmds := without_keys p (dereg_keys p r) (diag_cmds s)\<rparr>)"
proof -
  let ?m = "mem_of (cmd_dereg_write r @ rest)" and ?n = "length (dereg_ranges r)"
  let ?h = "le32 CNTL_CMD_DEREGISTER @ le32 (of_nat (10 + 4 * ?n)) @ le32 (dereg_version r)"
  let ?t = "concat (map range_dereg_write (dereg_ranges r)) @ rest"
  have len: "length (concat (map range_dereg_write rs)) = 4 * length rs" for rs by (induction rs) simp_all
  have m: "?m = mem_of (?h @ le16 (dereg_cmd r) @ le16 (dereg_subsys r) @ le16 (dereg_count_entries r) @ ?t)"
    by (simp add: cmd_dereg_write_def cntl_pkt_def len)
  have head: "pk16 ?m 12 = dereg_cmd r" "pk16 ?m 14 = dereg_subsys r" "pk16 ?m 16 = dereg_count_entries r"
    using pk16_le16 [of ?h 12 "dereg_cmd r"] pk16_le16 [of "?h @ le16 (dereg_cmd r)" 14 "dereg_subsys r"]
      pk16_le16 [of "?h @ le16 (dereg_cmd r) @ le16 (dereg_subsys r)" 16 "dereg_count_entries r"]
    unfolding m by simp_all
  have entry: "pkt_cmd p' ?m 18 4 j = range_cmd p' (dereg_cmd r) (dereg_subsys r) (dr_first (dereg_ranges r ! j)) (dr_last (dereg_ranges r ! j))"
    if j: "j < ?n" for j p'
  proof -
    let ?g = "dereg_ranges r ! j"
    let ?k = "?h @ le16 (dereg_cmd r) @ le16 (dereg_subsys r) @ le16 (dereg_count_entries r)"
    obtain us vs where us: "concat (map range_dereg_write (dereg_ranges r)) = us @ range_dereg_write ?g @ vs" "length us = 4 * j"
      using concat_nth_split [where enc = range_dereg_write, OF j length_range_dereg] by blast
    have m': "?m = mem_of (?k @ us @ le16 (dr_first ?g) @ le16 (dr_last ?g) @ vs @ rest)"
      unfolding m using us(1) by (simp add: range_dereg_write_def)
    have "pk16 ?m (18 + 4 * j) = dr_first ?g" "pk16 ?m (18 + 4 * j + 2) = dr_last ?g"
      using pk16_le16 [of "?k @ us" "18 + 4 * j" "dr_first ?g"] pk16_le16 [of "?k @ us @ le16 (dr_first ?g)" "18 + 4 * j + 2" "dr_last ?g"]
        us(2) unfolding m' by simp_all
    then show ?thesis by (simp add: pkt_cmd_def range_cmd_def head Let_def)
  qed
  have "set (dereg_ranges r) = (!) (dereg_ranges r) ` {0..<?n}" using nth_image [of ?n "dereg_ranges r"] by simp
  then have "pkt_keys ?m 18 4 [0..<?n] = dereg_keys p r"
    by (simp add: pkt_keys_def dereg_keys_def image_image entry range_cmd_def Let_def cong: image_cong_simp)
  moreover have "18 + 4 * unat (pk16 ?m 16) \<le> cap ?m"
    unfolding head using assms by (simp add: dereg_fits_def cmd_dereg_write_def len)
  ultimately show ?thesis using deregister_ok [of ?m p s] assms by (simp add: head dereg_fits_def)
qed

text \<open>So deregistering the ranges of a registration takes back exactly its commands.\<close>

definition dereg_of :: "diag_cntl_cmd_reg \<Rightarrow> diag_cntl_cmd_dereg" where
  "dereg_of r =
     \<lparr>dereg_version = reg_version r, dereg_cmd = reg_cmd r, dereg_subsys = reg_subsys r,
      dereg_count_entries = reg_count_entries r,
      dereg_ranges = map (\<lambda>g. \<lparr>dr_first = rr_first g, dr_last = rr_last g\<rparr>) (reg_ranges r)\<rparr>"

lemma dereg_of_keys: "dereg_keys p (dereg_of r) = (\<lambda>c. (dc_first c, dc_last c)) ` set (reg_cmds p r)"
  by (simp add: dereg_keys_def dereg_of_def reg_cmds_def image_image Let_def)

section \<open>From a peripheral: features and names\<close>

record diag_cntl_cmd_feature =
  ft_mask_len :: u32
  ft_mask :: u32

definition feature_write :: "diag_cntl_cmd_feature \<Rightarrow> u8 list" where
  "feature_write f = cntl_pkt CNTL_CMD_FEATURE_MASK (le32 (ft_mask_len f) @ le32 (ft_mask f))"

definition feature_read :: "mem \<Rightarrow> diag_cntl_cmd_feature res" where
  "feature_read m =
     andthen (rd32 m 8) (\<lambda>len. andthen (rd32 m 12) (\<lambda>mask. Inr \<lparr>ft_mask_len = len, ft_mask = mask\<rparr>))"

lemma feature_fields:
  "rd32 (mem_of (feature_write f @ rest)) 8 = Inr (ft_mask_len f)" "rd32 (mem_of (feature_write f @ rest)) 12 = Inr (ft_mask f)"
  by (simp_all add: feature_write_def cntl_pkt_def rd32_def le32_def u32_of_le32)

interpretation feature: wire_layout "\<lambda>_. True" feature_write feature_read
  by unfold_locales (simp add: feature_read_def feature_fields)

text \<open>The peripheral gets the features that both sides have.\<close>

lemma feature_packet:
  assumes "perifs s p = Obj perif"
  shows "diag_cntl_feature_mask p (mem_of (feature_write f @ rest)) s =
    (let both = ft_mask f AND local_features perif in
     andthen (diag_cntl_send_feature_mask p both (set_perif p (perif\<lparr>p_features := both\<rparr>) s)) (\<lambda>s. Inr (0, s)))"
  using assms by (simp add: diag_cntl_feature_mask_def feature_fields Let_def)

text \<open>
  A name, in the two forms of the packet. The second structure ends in a pointer where the packet
  has the bytes of the feature mask, so its size is 28 and not 20.
\<close>

record diag_cntl_cmd_diag_id =
  id_version :: u32
  id_diag_id :: u32
  id_process_name :: "u8 list"

record diag_cntl_cmd_diag_id_v2 = diag_cntl_cmd_diag_id +
  id_feature_mask :: "u8 list"

definition diag_id_write :: "diag_cntl_cmd_diag_id \<Rightarrow> u8 list" where
  "diag_id_write d =
     cntl_pkt CNTL_CMD_DIAG_ID (le32 (id_version d) @ le32 (id_diag_id d) @ id_process_name d @ [0])"

definition diag_id_write_v2 :: "diag_cntl_cmd_diag_id_v2 \<Rightarrow> u8 list" where
  "diag_id_write_v2 d =
     cntl_pkt CNTL_CMD_DIAG_ID
       (le32 (id_version d) @ le32 (id_diag_id d) @ le32 (of_nat (length (id_feature_mask d))) @ id_feature_mask d @
        id_process_name d @ [0])"

lemma cstr_at:
  assumes "0 \<notin> set name" and "length xs = i"
  shows "cstr (mem_of (xs @ name @ 0 # ys)) i = Inr name"
proof -
  let ?m = "mem_of (xs @ name @ 0 # ys)" and ?n = "length name"
  have bytes: "byte ?m (i + j) = (name @ [0]) ! j" if "j \<le> ?n" for j
    using that assms(2) by (simp add: nth_append less_Suc_eq_le)
  have zero: "byte ?m (i + j) \<noteq> 0" if "j < ?n" for j
  proof -
    have "name ! j \<noteq> 0" using assms(1) that by (metis nth_mem)
    with bytes [of j] that show ?thesis by (simp add: nth_append)
  qed
  have "first_index (\<lambda>k. byte ?m k = 0) [i..<cap ?m] = Some ?n"
    by (rule first_index_unique) (use zero bytes [of ?n] assms(2) in \<open>auto simp: nth_append\<close>)
  moreover have "map (\<lambda>j. byte ?m (i + j)) [0..<?n] = name"
    using bytes by (intro nth_equalityI) (simp_all add: nth_append)
  ultimately show ?thesis by (simp add: cstr_def)
qed

lemma diag_id_fields:
  assumes "0 \<notin> set (id_process_name d)"
  shows "rd32 (mem_of (diag_id_write d @ rest)) 8 = Inr (id_version d)"
    "rd32 (mem_of (diag_id_write d @ rest)) 12 = Inr (id_diag_id d)"
    "cstr (mem_of (diag_id_write d @ rest)) 16 = Inr (id_process_name d)"
proof -
  let ?h = "le32 CNTL_CMD_DIAG_ID @ le32 (of_nat (9 + length (id_process_name d)))"
  have m: "mem_of (diag_id_write d @ rest) =
      mem_of (?h @ le32 (id_version d) @ le32 (id_diag_id d) @ id_process_name d @ 0 # rest)"
    by (simp add: diag_id_write_def cntl_pkt_def)
  show "rd32 (mem_of (diag_id_write d @ rest)) 8 = Inr (id_version d)" unfolding m by (rule rd32_le32_at) simp
  show "rd32 (mem_of (diag_id_write d @ rest)) 12 = Inr (id_diag_id d)"
    using rd32_le32_at [of "?h @ le32 (id_version d)" 12] unfolding m by simp
  show "cstr (mem_of (diag_id_write d @ rest)) 16 = Inr (id_process_name d)"
    using cstr_at [OF assms, of "?h @ le32 (id_version d) @ le32 (id_diag_id d)" 16 rest] unfolding m by simp
qed

lemma diag_id_v2_fields:
  assumes "0 \<notin> set (id_process_name d)" and "length (id_feature_mask d) < 2 ^ 32"
  shows "rd32 (mem_of (diag_id_write_v2 d @ rest)) 8 = Inr (id_version d)"
    "rd32 (mem_of (diag_id_write_v2 d @ rest)) 12 = Inr (id_diag_id d)"
    "rd32 (mem_of (diag_id_write_v2 d @ rest)) 16 = Inr (of_nat (length (id_feature_mask d)))"
    "cstr (mem_of (diag_id_write_v2 d @ rest)) (20 + unat (of_nat (length (id_feature_mask d)) :: u32)) = Inr (id_process_name d)"
proof -
  let ?k = "length (id_feature_mask d)"
  let ?h = "le32 CNTL_CMD_DIAG_ID @ le32 (of_nat (13 + ?k + length (id_process_name d)))"
  have m: "mem_of (diag_id_write_v2 d @ rest) = mem_of (?h @ le32 (id_version d) @ le32 (id_diag_id d) @
      le32 (of_nat ?k) @ id_feature_mask d @ id_process_name d @ 0 # rest)"
    by (simp add: diag_id_write_v2_def cntl_pkt_def add_ac)
  show "rd32 (mem_of (diag_id_write_v2 d @ rest)) 8 = Inr (id_version d)" unfolding m by (rule rd32_le32_at) simp
  show "rd32 (mem_of (diag_id_write_v2 d @ rest)) 12 = Inr (id_diag_id d)"
    using rd32_le32_at [of "?h @ le32 (id_version d)" 12] unfolding m by simp
  show "rd32 (mem_of (diag_id_write_v2 d @ rest)) 16 = Inr (of_nat ?k)"
    using rd32_le32_at [of "?h @ le32 (id_version d) @ le32 (id_diag_id d)" 16] unfolding m by simp
  have "unat (of_nat ?k :: u32) = ?k" using assms(2) by (simp add: unat_of_nat take_bit_nat_eq_self)
  then show "cstr (mem_of (diag_id_write_v2 d @ rest)) (20 + unat (of_nat ?k :: u32)) = Inr (id_process_name d)"
    using cstr_at [OF assms(1), of "?h @ le32 (id_version d) @ le32 (id_diag_id d) @ le32 (of_nat ?k) @ id_feature_mask d" "20 + ?k" rest]
    unfolding m by simp
qed

text \<open>
  A short packet of the second form is refused, although it is complete: its bytes are compared
  with the size of the structure, which counts eight bytes for the pointer.
\<close>

lemma short_name_refused:
  assumes "perifs s p = Obj perif" and "p_features perif AND FEATURE_DIAG_ID_FEATURE_MASK \<noteq> 0"
    and "2 \<le> id_version d" and "0 \<notin> set (id_process_name d)" and "length (diag_id_write_v2 d) < 28"
  shows "diag_cntl_process_diag_id p (mem_of (diag_id_write_v2 d)) (length (diag_id_write_v2 d)) s = Inr (- EINVAL, s)"
proof -
  have "length (id_feature_mask d) < 2 ^ 32" using assms(5) by (simp add: diag_id_write_v2_def)
  from diag_id_v2_fields(1) [OF assms(4) this, of "[]"] show ?thesis
    using assms by (simp add: diag_cntl_process_diag_id_def diag_id_name_at_def)
qed

section \<open>To a peripheral: masks\<close>

record diag_cntl_cmd_log_mask =
  lmp_stream_id :: u8
  lmp_status :: u8
  lmp_equip_id :: u8
  lmp_last_item :: u32
  lmp_log_mask_size :: u32
  lmp_equip_log_mask :: "u8 list"

definition log_mask_write :: "diag_cntl_cmd_log_mask \<Rightarrow> u8 list" where
  "log_mask_write k =
     cntl_pkt CNTL_CMD_LOG_MASK
       ([lmp_stream_id k, lmp_status k, lmp_equip_id k] @ le32 (lmp_last_item k) @ le32 (lmp_log_mask_size k) @
        lmp_equip_log_mask k)"

definition log_mask_read :: "mem \<Rightarrow> diag_cntl_cmd_log_mask res" where
  "log_mask_read m =
     andthen (rd8 m 8) (\<lambda>stream. andthen (rd8 m 9) (\<lambda>status. andthen (rd8 m 10) (\<lambda>equip.
     andthen (rd32 m 11) (\<lambda>items. andthen (rd32 m 15) (\<lambda>size. andthen (rd_bytes m 19 (unat size)) (\<lambda>mask.
       Inr \<lparr>lmp_stream_id = stream, lmp_status = status, lmp_equip_id = equip, lmp_last_item = items,
            lmp_log_mask_size = size, lmp_equip_log_mask = mask\<rparr>))))))"

interpretation log_wire: wire_layout "\<lambda>k. length (lmp_equip_log_mask k) = unat (lmp_log_mask_size k)" log_mask_write log_mask_read
proof unfold_locales
  fix k :: diag_cntl_cmd_log_mask and rest :: "u8 list"
  assume fits: "length (lmp_equip_log_mask k) = unat (lmp_log_mask_size k)"
  let ?h = "le32 CNTL_CMD_LOG_MASK @ le32 (of_nat (11 + length (lmp_equip_log_mask k))) @
    [lmp_stream_id k, lmp_status k, lmp_equip_id k] @ le32 (lmp_last_item k) @ le32 (lmp_log_mask_size k)"
  let ?m = "mem_of (?h @ lmp_equip_log_mask k @ rest)"
  have m: "mem_of (log_mask_write k @ rest) = ?m" by (simp add: log_mask_write_def cntl_pkt_def)
  have "rd_bytes ?m 19 (unat (lmp_log_mask_size k)) = Inr (lmp_equip_log_mask k)"
    by (rule rd_bytes_at) (simp_all add: fits)
  moreover have "rd8 ?m 8 = Inr (lmp_stream_id k)" "rd8 ?m 9 = Inr (lmp_status k)" "rd8 ?m 10 = Inr (lmp_equip_id k)"
    "rd32 ?m 11 = Inr (lmp_last_item k)" "rd32 ?m 15 = Inr (lmp_log_mask_size k)"
    by (simp_all add: rd8_def rd32_def le32_def u32_of_le32)
  ultimately show "log_mask_read (mem_of (log_mask_write k @ rest)) = Inr k" unfolding m log_mask_read_def by simp
qed

text \<open>The packet that a peripheral is sent, as a structure.\<close>

definition log_mask_struct :: "'z cntl_state_scheme \<Rightarrow> nat \<Rightarrow> diag_cntl_cmd_log_mask" where
  "log_mask_struct s e =
     (case log_view s e of
        None \<Rightarrow> \<lparr>lmp_stream_id = 1, lmp_status = DIAG_CTRL_MASK_VALID, lmp_equip_id = of_nat e, lmp_last_item = 0,
                  lmp_log_mask_size = 0, lmp_equip_log_mask = []\<rparr>
      | Some (n, bits) \<Rightarrow>
          \<lparr>lmp_stream_id = 1, lmp_status = DIAG_CTRL_MASK_VALID, lmp_equip_id = of_nat e, lmp_last_item = n,
           lmp_log_mask_size = of_nat (length bits), lmp_equip_log_mask = bits\<rparr>)"

lemma log_mask_packet_struct:
  assumes "diag_get_log_mask_status s = DIAG_CTRL_MASK_VALID" and "unat e < MAX_EQUIP_ID"
  shows "log_mask_packet s e = log_mask_write (log_mask_struct s (unat e))"
proof -
  have "ucast e = (of_nat (unat e) :: u8)" by simp
  then show ?thesis
    using assms by (auto simp: log_mask_packet_def log_mask_write_def log_mask_struct_def cntl_pkt_def Let_def split: option.split)
qed

lemma log_mask_struct_view:
  fixes e :: u32
  assumes "log_masks_wf s" and "mem_ok s" and "unat e < MAX_EQUIP_ID"
  shows "length (lmp_equip_log_mask (log_mask_struct s (unat e))) = unat (lmp_log_mask_size (log_mask_struct s (unat e)))"
    and "log_view s (unat e) =
      Some (lmp_last_item (log_mask_struct s (unat e)), lmp_equip_log_mask (log_mask_struct s (unat e)))"
proof -
  from get_log_mask_ok [OF assms] obtain n bits where
    view: "log_view s (unat e) = Some (n, bits)" "length bits = unat (bits_to_bytes32 n)"
    by blast
  have "unat (of_nat (length bits) :: u32) = length bits" unfolding view(2) by simp
  then show "length (lmp_equip_log_mask (log_mask_struct s (unat e))) = unat (lmp_log_mask_size (log_mask_struct s (unat e)))"
    and "log_view s (unat e) =
      Some (lmp_last_item (log_mask_struct s (unat e)), lmp_equip_log_mask (log_mask_struct s (unat e)))"
    using view(1) by (simp_all add: log_mask_struct_def)
qed

text \<open>What the peripheral reads is the mask that the table holds for the id.\<close>

lemma log_mask_read_back:
  assumes "log_masks_wf s" and "mem_ok s" and "unat e < MAX_EQUIP_ID"
    and "diag_get_log_mask_status s = DIAG_CTRL_MASK_VALID"
  shows "\<exists>k. log_mask_read (mem_of (log_mask_packet s e)) = Inr k \<and>
    log_view s (unat e) = Some (lmp_last_item k, lmp_equip_log_mask k)"
  using log_wire.read_whole [OF log_mask_struct_view(1) [OF assms(1-3)]] log_mask_struct_view(2) [OF assms(1-3)]
  by (simp add: log_mask_packet_struct [OF assms(4,3)])

record diag_cntl_cmd_event_mask =
  emp_stream_id :: u8
  emp_status :: u8
  emp_event_config :: u8
  emp_event_mask_len :: u32
  emp_event_mask :: "u8 list"

definition event_mask_write :: "diag_cntl_cmd_event_mask \<Rightarrow> u8 list" where
  "event_mask_write k =
     cntl_pkt CNTL_CMD_EVENT_MASK
       ([emp_stream_id k, emp_status k, emp_event_config k] @ le32 (emp_event_mask_len k) @ emp_event_mask k)"

definition event_mask_read :: "mem \<Rightarrow> diag_cntl_cmd_event_mask res" where
  "event_mask_read m =
     andthen (rd8 m 8) (\<lambda>stream. andthen (rd8 m 9) (\<lambda>status. andthen (rd8 m 10) (\<lambda>config.
     andthen (rd32 m 11) (\<lambda>len. andthen (rd_bytes m 15 (unat len)) (\<lambda>mask.
       Inr \<lparr>emp_stream_id = stream, emp_status = status, emp_event_config = config, emp_event_mask_len = len,
            emp_event_mask = mask\<rparr>)))))"

interpretation event_wire: wire_layout "\<lambda>k. length (emp_event_mask k) = unat (emp_event_mask_len k)" event_mask_write event_mask_read
proof unfold_locales
  fix k :: diag_cntl_cmd_event_mask and rest :: "u8 list"
  assume fits: "length (emp_event_mask k) = unat (emp_event_mask_len k)"
  let ?h = "le32 CNTL_CMD_EVENT_MASK @ le32 (of_nat (7 + length (emp_event_mask k))) @
    [emp_stream_id k, emp_status k, emp_event_config k] @ le32 (emp_event_mask_len k)"
  let ?m = "mem_of (?h @ emp_event_mask k @ rest)"
  have m: "mem_of (event_mask_write k @ rest) = ?m" by (simp add: event_mask_write_def cntl_pkt_def)
  have "rd_bytes ?m 15 (unat (emp_event_mask_len k)) = Inr (emp_event_mask k)"
    by (rule rd_bytes_at) (simp_all add: fits)
  moreover have "rd8 ?m 8 = Inr (emp_stream_id k)" "rd8 ?m 9 = Inr (emp_status k)" "rd8 ?m 10 = Inr (emp_event_config k)"
    "rd32 ?m 11 = Inr (emp_event_mask_len k)"
    by (simp_all add: rd8_def rd32_def le32_def u32_of_le32)
  ultimately show "event_mask_read (mem_of (event_mask_write k @ rest)) = Inr k" unfolding m event_mask_read_def by simp
qed

definition event_mask_struct :: "'z mask_state_scheme \<Rightarrow> diag_cntl_cmd_event_mask" where
  "event_mask_struct s =
     \<lparr>emp_stream_id = 1, emp_status = DIAG_CTRL_MASK_VALID, emp_event_config = 1,
      emp_event_mask_len = of_nat (bits_to_bytes16 (event_max_num_bits s)), emp_event_mask = event_bits s\<rparr>"

lemma event_mask_packet_struct:
  "diag_get_event_mask_status s = DIAG_CTRL_MASK_VALID \<Longrightarrow> event_mask_packet s = event_mask_write (event_mask_struct s)"
  by (simp add: event_mask_packet_def event_mask_write_def event_mask_struct_def cntl_pkt_def event_bits_def Let_def)

lemma event_mask_read_back:
  assumes "event_masks_wf s" and "diag_get_event_mask_status s = DIAG_CTRL_MASK_VALID"
  shows "\<exists>k. event_mask_read (mem_of (event_mask_packet s)) = Inr k \<and>
    length (emp_event_mask k) = bits_to_bytes16 (event_max_num_bits s) \<and>
    (\<forall>i < length (emp_event_mask k). event_view s i = Some (emp_event_mask k ! i))"
proof -
  let ?k = "event_mask_struct s" and ?n = "bits_to_bytes16 (event_max_num_bits s)"
  have len: "length (event_bits s) = ?n" by (simp add: event_bits_def)
  have "length (emp_event_mask ?k) = unat (emp_event_mask_len ?k)"
    using len bits_to_bytes16_bound [of "event_max_num_bits s"]
    by (simp add: event_mask_struct_def unat_of_nat take_bit_nat_eq_self)
  then have "event_mask_read (mem_of (event_mask_packet s)) = Inr ?k"
    unfolding event_mask_packet_struct [OF assms(2)] by (rule event_wire.read_whole)
  moreover have "event_view s i = Some (event_bits s ! i)" if "i < ?n" for i
    using assms(1) that by (auto simp: event_masks_wf_def event_bits_def event_view_def)
  ultimately show ?thesis by (simp add: event_mask_struct_def len)
qed

record diag_cntl_cmd_msg_mask =
  mmp_stream_id :: u8
  mmp_status :: u8
  mmp_msg_mode :: u8
  mmp_range :: ssid_range
  mmp_msg_mask_len :: u32
  mmp_range_msg_mask :: "u32 list"

definition msg_mask_write :: "diag_cntl_cmd_msg_mask \<Rightarrow> u8 list" where
  "msg_mask_write k =
     cntl_pkt CNTL_CMD_MSG_MASK
       ([mmp_stream_id k, mmp_status k, mmp_msg_mode k] @ le16 (ssid_first (mmp_range k)) @ le16 (ssid_last (mmp_range k)) @
        le32 (mmp_msg_mask_len k) @ concat (map le32 (mmp_range_msg_mask k)))"

definition msg_mask_read :: "mem \<Rightarrow> diag_cntl_cmd_msg_mask res" where
  "msg_mask_read m =
     andthen (rd8 m 8) (\<lambda>stream. andthen (rd8 m 9) (\<lambda>status. andthen (rd8 m 10) (\<lambda>mode.
     andthen (rd16 m 11) (\<lambda>lo. andthen (rd16 m 13) (\<lambda>hi. andthen (rd32 m 15) (\<lambda>len.
     andthen (rd_array rd32 4 m 19 (unat len)) (\<lambda>words.
       Inr \<lparr>mmp_stream_id = stream, mmp_status = status, mmp_msg_mode = mode,
            mmp_range = \<lparr>ssid_first = lo, ssid_last = hi\<rparr>, mmp_msg_mask_len = len, mmp_range_msg_mask = words\<rparr>)))))))"

interpretation msg_wire: wire_layout "\<lambda>k. length (mmp_range_msg_mask k) = unat (mmp_msg_mask_len k)" msg_mask_write msg_mask_read
proof unfold_locales
  fix k :: diag_cntl_cmd_msg_mask and rest :: "u8 list"
  assume fits: "length (mmp_range_msg_mask k) = unat (mmp_msg_mask_len k)"
  let ?h = "le32 CNTL_CMD_MSG_MASK @ le32 (of_nat (11 + 4 * length (mmp_range_msg_mask k))) @
    [mmp_stream_id k, mmp_status k, mmp_msg_mode k] @ le16 (ssid_first (mmp_range k)) @ le16 (ssid_last (mmp_range k)) @
    le32 (mmp_msg_mask_len k)"
  let ?m = "mem_of (?h @ concat (map le32 (mmp_range_msg_mask k)) @ rest)"
  have m: "mem_of (msg_mask_write k @ rest) = ?m" by (simp add: msg_mask_write_def cntl_pkt_def)
  have "rd_array rd32 4 ?m 19 (length (mmp_range_msg_mask k)) = Inr (mmp_range_msg_mask k)"
    by (rule rd_array_at) (simp_all add: rd32_le32_at)
  moreover have "rd8 ?m 8 = Inr (mmp_stream_id k)" "rd8 ?m 9 = Inr (mmp_status k)" "rd8 ?m 10 = Inr (mmp_msg_mode k)"
    "rd16 ?m 11 = Inr (ssid_first (mmp_range k))" "rd16 ?m 13 = Inr (ssid_last (mmp_range k))"
    "rd32 ?m 15 = Inr (mmp_msg_mask_len k)"
    by (simp_all add: rd8_def rd16_def rd32_def le16_def le32_def u16_of_le16 u32_of_le32)
  ultimately show "msg_mask_read (mem_of (msg_mask_write k @ rest)) = Inr k" unfolding m msg_mask_read_def by (simp flip: fits)
qed

lemma msg_mask_packet_struct:
  "msg_mask_packet status r ws =
     msg_mask_write \<lparr>mmp_stream_id = 1, mmp_status = status, mmp_msg_mode = 0, mmp_range = r,
       mmp_msg_mask_len = of_nat (length ws), mmp_range_msg_mask = ws\<rparr>"
  by (simp add: msg_mask_packet_def msg_mask_write_def cntl_pkt_def)

section \<open>To a peripheral: modes and names\<close>

record diag_cntl_cmd_diag_mode =
  dm_version :: u32
  dm_sleep_vote :: u32
  dm_real_time :: u32
  dm_use_nrt_values :: u32
  dm_commit_threshold :: u32
  dm_sleep_threshold :: u32
  dm_sleep_time :: u32
  dm_drain_timer_val :: u32
  dm_event_stale_time_val :: u32

record diag_cntl_cmd_diag_mode_v2 = diag_cntl_cmd_diag_mode +
  dm_diag_id :: u8

definition mode_fields :: "'z diag_cntl_cmd_diag_mode_scheme \<Rightarrow> u32 list" where
  "mode_fields k =
     [dm_version k, dm_sleep_vote k, dm_real_time k, dm_use_nrt_values k, dm_commit_threshold k, dm_sleep_threshold k,
      dm_sleep_time k, dm_drain_timer_val k, dm_event_stale_time_val k]"

definition diag_mode_write :: "diag_cntl_cmd_diag_mode \<Rightarrow> u8 list" where
  "diag_mode_write k = cntl_pkt CNTL_CMD_DIAG_MODE (concat (map le32 (mode_fields k)))"

definition diag_mode_write_v2 :: "diag_cntl_cmd_diag_mode_v2 \<Rightarrow> u8 list" where
  "diag_mode_write_v2 k = cntl_pkt CNTL_CMD_DIAG_MODE (concat (map le32 (mode_fields k)) @ [dm_diag_id k])"

text \<open>The second form goes to a peripheral that has an id.\<close>

lemma diag_mode_packet:
  assumes "perifs s p = Obj perif"
  shows "diag_cntl_set_diag_mode p real_time s =
    queue_push (PerifCntlq p)
      (let k = \<lparr>dm_version = 1, dm_sleep_vote = bool32 real_time, dm_real_time = bool32 real_time, dm_use_nrt_values = 0,
                dm_commit_threshold = 0, dm_sleep_threshold = 0, dm_sleep_time = 0, dm_drain_timer_val = 0,
                dm_event_stale_time_val = 0\<rparr>
       in if p_diag_id perif = 0 then diag_mode_write k
          else diag_mode_write_v2
            (diag_cntl_cmd_diag_mode.extend (k\<lparr>dm_version := 2\<rparr>) (diag_cntl_cmd_diag_mode_v2.fields (of_int (p_diag_id perif))))) s"
  using assms
  by (simp add: diag_cntl_set_diag_mode_def diag_mode_write_def diag_mode_write_v2_def mode_fields_def cntl_pkt_def Let_def
      diag_cntl_cmd_diag_mode.defs diag_cntl_cmd_diag_mode_v2.defs)

record diag_cntl_cmd_buffering_tx_mode =
  bm_version :: u32
  bm_stream_id :: u8
  bm_tx_mode :: u8

record diag_cntl_cmd_buffering_tx_mode_v2 = diag_cntl_cmd_buffering_tx_mode +
  bm_diag_id :: u8

definition buffering_write :: "diag_cntl_cmd_buffering_tx_mode \<Rightarrow> u8 list" where
  "buffering_write k = cntl_pkt CNTL_CMD_BUFFERING_TX_MODE (le32 (bm_version k) @ [bm_stream_id k, bm_tx_mode k])"

definition buffering_write_v2 :: "diag_cntl_cmd_buffering_tx_mode_v2 \<Rightarrow> u8 list" where
  "buffering_write_v2 k =
     cntl_pkt CNTL_CMD_BUFFERING_TX_MODE (le32 (bm_version k) @ [bm_diag_id k, bm_stream_id k, bm_tx_mode k])"

lemma buffering_packet:
  assumes "perifs s p = Obj perif"
  shows "diag_cntl_set_buffering_mode p mode s =
    queue_push (PerifCntlq p)
      (if p_diag_id perif = 0
       then buffering_write \<lparr>bm_version = 1, bm_stream_id = 0, bm_tx_mode = of_int mode\<rparr>
       else buffering_write_v2
         \<lparr>bm_version = 2, bm_stream_id = 0, bm_tx_mode = of_int mode, bm_diag_id = of_int (p_diag_id perif)\<rparr>) s"
  using assms
  by (simp add: diag_cntl_set_buffering_mode_def buffering_write_def buffering_write_v2_def cntl_pkt_def Let_def)

text \<open>The answer to a name is a packet of the form that names come in.\<close>

lemma diag_id_response_struct:
  "diag_id_response k name (length name + 1) = diag_id_write \<lparr>id_version = 1, id_diag_id = k, id_process_name = name\<rparr>"
  by (simp add: diag_id_response_def diag_id_write_def cntl_pkt_def strncpy0_def)

end
