(* ===== verification/Hex_Dump.thy ===== *)
theory Hex_Dump
  imports Diag_Prelude
begin

text \<open>
  The hex dump of \<^verbatim>\<open>util.c\<close>: lines of sixteen bytes, in hexadecimal digits and as characters.
  A line is composed in an array of 65 characters. The offset is an \<^verbatim>\<open>int\<close>, so buffers are
  taken to be smaller than two gigabytes. Characters are those of the C locale.
\<close>

definition to_hex :: "u8 \<Rightarrow> u8" where
  "to_hex ch = (let ch = ch AND 0xf in if ch \<le> 9 then 0x30 + ch else 0x61 + ch - 10)"

definition isprint :: "u8 \<Rightarrow> bool" where
  "isprint ch \<longleftrightarrow> 0x20 \<le> ch \<and> ch \<le> 0x7e"

definition LINE_SIZE :: nat where "LINE_SIZE = 65"

text \<open>\<^verbatim>\<open>line[li++] = ch\<close> for each of the characters; \<open>li\<close> is the length of the list.\<close>

definition line_put :: "u8 list \<Rightarrow> u8 list \<Rightarrow> u8 list res" where
  "line_put line cs = (if length line + length cs \<le> LINE_SIZE then Inr (line @ cs) else Inl OobWrite)"

definition hex_line :: "u8 list \<Rightarrow> u8 list res" where
  "hex_line bytes =
     andthen (fold_res (\<lambda>ch line. line_put line [to_hex (drop_bit 4 ch), to_hex ch, 0x20]) bytes []) (\<lambda>line.
     andthen (fold_res (\<lambda>_ line. line_put line [0x20, 0x20, 0x20]) [length bytes..<16] line) (\<lambda>line.
     andthen (fold_res (\<lambda>ch line. line_put line [if isprint ch then ch else 0x2e]) bytes line) (\<lambda>line.
     andthen (line_put line [0]) (\<lambda>_. Inr line))))"

text \<open>\<^verbatim>\<open>%04x\<close>\<close>

fun hex_digits :: "nat \<Rightarrow> u8 list" where
  "hex_digits n = (if n < 16 then [to_hex (of_nat n)] else hex_digits (n div 16) @ [to_hex (of_nat (n mod 16))])"

declare hex_digits.simps [simp del]

definition hex4 :: "nat \<Rightarrow> u8 list" where
  "hex4 n = replicate (4 - length (hex_digits n)) 0x30 @ hex_digits n"

text \<open>What is printed; \<open>i\<close> is the offset of the bytes that are left.\<close>

fun hex_dump_from :: "u8 list \<Rightarrow> nat \<Rightarrow> u8 list \<Rightarrow> u8 list res" where
  "hex_dump_from prefix i bs =
     (if bs = [] then Inr []
      else
        andthen (hex_line (take 16 bs)) (\<lambda>line.
        andthen (hex_dump_from prefix (i + 16) (drop 16 bs)) (\<lambda>out.
          Inr (prefix @ [0x20] @ hex4 i @ [0x3a, 0x20] @ line @ [0x0a] @ out))))"

declare hex_dump_from.simps [simp del]

definition print_hex_dump :: "u8 list \<Rightarrow> u8 list \<Rightarrow> u8 list res" where
  "print_hex_dump prefix bs = hex_dump_from prefix 0 bs"

section \<open>Lines\<close>

definition hex_pair :: "u8 \<Rightarrow> u8 list" where
  "hex_pair ch = [to_hex (drop_bit 4 ch), to_hex ch, 0x20]"

definition shown :: "u8 \<Rightarrow> u8" where
  "shown ch = (if isprint ch then ch else 0x2e)"

definition line_of :: "u8 list \<Rightarrow> u8 list" where
  "line_of bytes = concat (map hex_pair bytes) @ replicate (3 * (16 - length bytes)) 0x20 @ map shown bytes"

lemma put_all:
  assumes "\<And>x. length (f x) = k" and "length line + k * length xs \<le> LINE_SIZE"
  shows "fold_res (\<lambda>x line. line_put line (f x)) xs line = Inr (line @ concat (map f xs))"
  using assms(2)
proof (induction xs arbitrary: line)
  case (Cons x xs)
  have "line_put line (f x) = Inr (line @ f x)" using Cons.prems by (simp add: line_put_def assms(1))
  with Cons.IH [of "line @ f x"] Cons.prems show ?case by (simp add: assms(1))
qed simp

text \<open>The array is large enough for sixteen bytes.\<close>

lemma length_pairs: "length (concat (map hex_pair bs)) = 3 * length bs"
  by (induction bs) (simp_all add: hex_pair_def)

lemma hex_line_ok:
  assumes "length bytes \<le> 16"
  shows "hex_line bytes = Inr (line_of bytes)"
proof -
  let ?a = "concat (map hex_pair bytes)" and ?pad = "\<lambda>_ :: nat. [0x20, 0x20, 0x20 :: u8]"
  let ?b = "?a @ concat (map ?pad [length bytes..<16])"
  have pad: "concat (map ?pad xs) = replicate (3 * length xs) 0x20" for xs
    by (induction xs) (simp_all add: numeral_3_eq_3)
  have len: "length ?a = 3 * length bytes" "length ?b = 48"
    using assms by (simp_all add: length_pairs pad)
  have "fold_res (\<lambda>ch line. line_put line (hex_pair ch)) bytes [] = Inr ?a"
    using put_all [of hex_pair 3 "[]" bytes] assms by (simp add: hex_pair_def LINE_SIZE_def)
  moreover have "fold_res (\<lambda>i line. line_put line (?pad i)) [length bytes..<16] ?a = Inr ?b"
    using put_all [of ?pad 3 ?a "[length bytes..<16]"] assms len by (simp add: LINE_SIZE_def)
  moreover have "fold_res (\<lambda>ch line. line_put line [shown ch]) bytes ?b = Inr (?b @ map shown bytes)"
    using put_all [of "\<lambda>ch. [shown ch]" 1 ?b bytes] assms len by (simp add: LINE_SIZE_def concat_map_singleton)
  moreover have "line_put (?b @ map shown bytes) [0] = Inr ((?b @ map shown bytes) @ [0])"
    using assms len(2) by (simp add: line_put_def LINE_SIZE_def)
  ultimately show ?thesis
    by (simp add: hex_line_def hex_pair_def shown_def line_of_def pad)
qed

section \<open>Reading a dump\<close>

definition from_hex :: "u8 \<Rightarrow> u8" where
  "from_hex c = (if c \<le> 0x39 then c - 0x30 else c - 0x61 + 10)"

lemma from_to_hex: "from_hex (to_hex ch) = ch AND 0xf"
proof -
  define n where "n = unat (ch AND 0xf)"
  have "ch AND 0xf = take_bit 4 ch" by (simp add: take_bit_eq_mask mask_eq_exp_minus_1)
  then have "n < 16" using take_bit_nat_less_exp [of 4 "unat ch"] by (simp add: n_def unsigned_take_bit_eq)
  then have "n \<in> {0, 1, 2, 3, 4, 5, 6, 7, 8, 9, 10, 11, 12, 13, 14, 15}" by (simp; arith)
  moreover have "ch AND 0xf = of_nat n" by (simp add: n_def)
  ultimately show ?thesis by (auto simp: to_hex_def from_hex_def Let_def)
qed

lemma digits_byte: "push_bit 4 (from_hex (to_hex (drop_bit 4 ch))) OR from_hex (to_hex ch) = ch"
proof -
  have f: "0xf = (mask 4 :: u8)" by (simp add: mask_eq_exp_minus_1)
  show ?thesis unfolding from_to_hex f by (rule bit_eqI) (auto simp: bit_simps)
qed

text \<open>The bytes of a line: two digits at every third place.\<close>

definition line_bytes :: "nat \<Rightarrow> u8 list \<Rightarrow> u8 list" where
  "line_bytes n line =
     map (\<lambda>j. push_bit 4 (from_hex (line ! (3 * j))) OR from_hex (line ! (3 * j + 1))) [0..<n]"

lemma line_nth:
  assumes "j < length bytes"
  shows "line_of bytes ! (3 * j) = to_hex (drop_bit 4 (bytes ! j))" and "line_of bytes ! (3 * j + 1) = to_hex (bytes ! j)"
proof -
  have "concat (map hex_pair bytes) ! (3 * j) = to_hex (drop_bit 4 (bytes ! j)) \<and>
      concat (map hex_pair bytes) ! (3 * j + 1) = to_hex (bytes ! j)"
    using assms
  proof (induction bytes arbitrary: j)
    case (Cons x xs)
    then show ?case by (cases j) (simp_all add: hex_pair_def)
  qed simp
  then show "line_of bytes ! (3 * j) = to_hex (drop_bit 4 (bytes ! j))"
    and "line_of bytes ! (3 * j + 1) = to_hex (bytes ! j)"
    using assms by (simp_all add: line_of_def nth_append length_pairs)
qed

lemma line_bytes_of: "line_bytes (length bytes) (line_of bytes) = bytes"
  by (rule nth_equalityI) (simp_all add: line_bytes_def line_nth digits_byte del: Suc_eq_plus1 One_nat_def)

text \<open>Cutting a dump into lines again, for a prefix of a given length and offsets of four digits.\<close>

fun undump :: "nat \<Rightarrow> nat \<Rightarrow> u8 list \<Rightarrow> u8 list" where
  "undump k n out =
     (if n = 0 then []
      else let line = drop (k + 7) out; m = min 16 n in
           line_bytes m line @ undump k (n - m) (drop (48 + m + 1) line))"

declare undump.simps [simp del]

lemma length_hex_digits: "n < 16 ^ Suc k \<Longrightarrow> length (hex_digits n) \<le> Suc k"
proof (induction k arbitrary: n)
  case (Suc k)
  then have "n div 16 < 16 ^ Suc k" by (simp add: div_less_iff_less_mult mult.commute)
  from Suc.IH [OF this] show ?case by (simp add: hex_digits.simps [of n])
qed (simp add: hex_digits.simps)

lemma length_hex4: "n < 0x10000 \<Longrightarrow> length (hex4 n) = 4"
  using length_hex_digits [of n 3] by (simp add: hex4_def)

lemma length_line_of: "length bytes \<le> 16 \<Longrightarrow> length (line_of bytes) = 48 + length bytes"
  by (simp add: line_of_def length_pairs)

lemma hex_dump_round_trip:
  assumes "i + length bs \<le> 0x10000"
  shows "\<exists>out. hex_dump_from prefix i bs = Inr out \<and> undump (length prefix) (length bs) out = bs"
  using assms
proof (induction prefix i bs rule: hex_dump_from.induct)
  case (1 prefix i bs)
  show ?case
  proof (cases "bs = []")
    case False
    let ?now = "take 16 bs" and ?rest = "drop 16 bs"
    have now: "length ?now = min 16 (length bs)" by simp
    have "hex_line ?now = Inr (line_of ?now)" by (rule hex_line_ok) simp
    moreover obtain out where out: "hex_dump_from prefix (i + 16) ?rest = Inr out"
      "undump (length prefix) (length ?rest) out = ?rest"
    proof (cases "length bs \<le> 16")
      case True
      then show ?thesis using that [of "[]"] by (simp add: hex_dump_from.simps undump.simps)
    next
      case big: False
      from 1(1) [OF False calculation] "1.prems" big that show ?thesis by auto
    qed
    moreover have "i < 0x10000" using "1.prems" False by (cases bs) auto
    note pre = length_hex4 [OF this]
    have "undump (length prefix) (length bs) (prefix @ [0x20] @ hex4 i @ [0x3a, 0x20] @ line_of ?now @ [0x0a] @ out) = bs"
    proof -
      let ?out = "prefix @ [0x20] @ hex4 i @ [0x3a, 0x20] @ line_of ?now @ [0x0a] @ out"
      have line: "drop (length prefix + 7) ?out = line_of ?now @ [0x0a] @ out" by (simp add: pre)
      have "line_bytes (length ?now) (line_of ?now @ [0x0a] @ out) = line_bytes (length ?now) (line_of ?now)"
        by (auto simp: line_bytes_def nth_append length_line_of)
      then have "line_bytes (length ?now) (line_of ?now @ [0x0a] @ out) = ?now" by (simp only: line_bytes_of)
      moreover have "drop (48 + length ?now + 1) (line_of ?now @ [0x0a] @ out) = out" by (simp add: length_line_of)
      moreover have "length bs - length ?now = length ?rest" by simp
      ultimately have "undump (length prefix) (length bs) ?out = ?now @ ?rest"
        using False out(2) unfolding undump.simps [of "length prefix" "length bs"] line Let_def now [symmetric] by simp
      then show ?thesis by simp
    qed
    ultimately show ?thesis using False by (simp add: hex_dump_from.simps [of prefix i bs])
  qed (simp add: hex_dump_from.simps undump.simps)
qed

end
