(* ===== verification/Usb_Descriptors.thy ===== *)
theory Usb_Descriptors
  imports Diag_Prelude
begin

text \<open>
  The descriptors and strings that \<^verbatim>\<open>usb.c\<close> writes to \<^verbatim>\<open>ep0\<close>, as the bytes of the packed
  structures. The layout of the structures and the values of the constants are those of the
  USB specification and of FunctionFS; fields that the source leaves out are zero.
\<close>

section \<open>The structures\<close>

record usb_interface_descriptor =
  if_bLength :: u8
  if_bDescriptorType :: u8
  if_bNumEndpoints :: u8
  if_bInterfaceClass :: u8
  if_bInterfaceSubClass :: u8
  if_bInterfaceProtocol :: u8
  if_iInterface :: u8

record usb_endpoint_descriptor =
  ep_bLength :: u8
  ep_bDescriptorType :: u8
  ep_bEndpointAddress :: u8
  ep_bmAttributes :: u8
  ep_wMaxPacketSize :: u16

record usb_ss_ep_comp_descriptor =
  comp_bLength :: u8
  comp_bDescriptorType :: u8

definition if_bytes :: "usb_interface_descriptor \<Rightarrow> u8 list" where
  "if_bytes d =
     [if_bLength d, if_bDescriptorType d, 0, 0, if_bNumEndpoints d, if_bInterfaceClass d, if_bInterfaceSubClass d,
      if_bInterfaceProtocol d, if_iInterface d]"

definition ep_bytes :: "usb_endpoint_descriptor \<Rightarrow> u8 list" where
  "ep_bytes d =
     [ep_bLength d, ep_bDescriptorType d, ep_bEndpointAddress d, ep_bmAttributes d] @ le16 (ep_wMaxPacketSize d) @ [0]"

definition comp_bytes :: "usb_ss_ep_comp_descriptor \<Rightarrow> u8 list" where
  "comp_bytes d = [comp_bLength d, comp_bDescriptorType d, 0, 0, 0, 0]"

section \<open>The contents\<close>

definition USB_DT_INTERFACE :: u8 where "USB_DT_INTERFACE = 0x04"
definition USB_DT_ENDPOINT :: u8 where "USB_DT_ENDPOINT = 0x05"
definition USB_DT_SS_ENDPOINT_COMP :: u8 where "USB_DT_SS_ENDPOINT_COMP = 0x30"
definition USB_CLASS_VENDOR_SPEC :: u8 where "USB_CLASS_VENDOR_SPEC = 0xff"
definition USB_SUBCLASS_VENDOR_SPEC :: u8 where "USB_SUBCLASS_VENDOR_SPEC = 0xff"
definition USB_PROTOCOL_DIAG :: u8 where "USB_PROTOCOL_DIAG = 0x30"
definition USB_DIR_OUT :: u8 where "USB_DIR_OUT = 0"
definition USB_DIR_IN :: u8 where "USB_DIR_IN = 0x80"
definition USB_ENDPOINT_XFER_BULK :: u8 where "USB_ENDPOINT_XFER_BULK = 2"

definition diag_intf :: usb_interface_descriptor where
  "diag_intf =
     \<lparr>if_bLength = 9, if_bDescriptorType = USB_DT_INTERFACE, if_bNumEndpoints = 2,
      if_bInterfaceClass = USB_CLASS_VENDOR_SPEC, if_bInterfaceSubClass = USB_SUBCLASS_VENDOR_SPEC,
      if_bInterfaceProtocol = USB_PROTOCOL_DIAG, if_iInterface = 1\<rparr>"

definition diag_source :: "u16 \<Rightarrow> usb_endpoint_descriptor" where
  "diag_source packet =
     \<lparr>ep_bLength = 7, ep_bDescriptorType = USB_DT_ENDPOINT, ep_bEndpointAddress = 1 OR USB_DIR_OUT,
      ep_bmAttributes = USB_ENDPOINT_XFER_BULK, ep_wMaxPacketSize = packet\<rparr>"

definition diag_sink :: "u16 \<Rightarrow> usb_endpoint_descriptor" where
  "diag_sink packet =
     \<lparr>ep_bLength = 7, ep_bDescriptorType = USB_DT_ENDPOINT, ep_bEndpointAddress = 2 OR USB_DIR_IN,
      ep_bmAttributes = USB_ENDPOINT_XFER_BULK, ep_wMaxPacketSize = packet\<rparr>"

definition diag_comp :: usb_ss_ep_comp_descriptor where
  "diag_comp = \<lparr>comp_bLength = 6, comp_bDescriptorType = USB_DT_SS_ENDPOINT_COMP\<rparr>"

definition fs_descs :: "u8 list" where
  "fs_descs = if_bytes diag_intf @ ep_bytes (diag_source 64) @ ep_bytes (diag_sink 64)"

definition hs_descs :: "u8 list" where
  "hs_descs = if_bytes diag_intf @ ep_bytes (diag_source 512) @ ep_bytes (diag_sink 512)"

definition ss_descs :: "u8 list" where
  "ss_descs = if_bytes diag_intf @ ep_bytes (diag_source 1024) @ comp_bytes diag_comp @ ep_bytes (diag_sink 1024) @
     comp_bytes diag_comp"

definition FUNCTIONFS_DESCRIPTORS_MAGIC_V2 :: u32 where "FUNCTIONFS_DESCRIPTORS_MAGIC_V2 = 3"
definition FUNCTIONFS_HAS_FS_DESC :: u32 where "FUNCTIONFS_HAS_FS_DESC = 1"
definition FUNCTIONFS_HAS_HS_DESC :: u32 where "FUNCTIONFS_HAS_HS_DESC = 2"
definition FUNCTIONFS_HAS_SS_DESC :: u32 where "FUNCTIONFS_HAS_SS_DESC = 4"
definition FUNCTIONFS_STRINGS_MAGIC :: u32 where "FUNCTIONFS_STRINGS_MAGIC = 2"

text \<open>The size of the whole structure is the size of its three numbers, three counts and descriptors.\<close>

definition descriptors :: "u8 list" where
  "descriptors =
     le32 FUNCTIONFS_DESCRIPTORS_MAGIC_V2 @
     le32 (of_nat (24 + length fs_descs + length hs_descs + length ss_descs)) @
     le32 (FUNCTIONFS_HAS_FS_DESC OR FUNCTIONFS_HAS_HS_DESC OR FUNCTIONFS_HAS_SS_DESC) @
     le32 3 @ le32 3 @ le32 5 @ fs_descs @ hs_descs @ ss_descs"

definition STR_INTERFACE :: string where "STR_INTERFACE = ''Diag interface''"

definition lang0 :: "u8 list" where
  "lang0 = le16 0x0409 @ map of_char STR_INTERFACE @ [0]"

definition strings :: "u8 list" where
  "strings = le32 FUNCTIONFS_STRINGS_MAGIC @ le32 (of_nat (16 + length lang0)) @ le32 1 @ le32 1 @ lang0"

section \<open>What the kernel makes of them\<close>

text \<open>A descriptor begins with its length and its type; \<open>n\<close> of them are taken off the bytes.\<close>

fun take_descriptors :: "nat \<Rightarrow> u8 list \<Rightarrow> (u8 list list \<times> u8 list) option" where
  "take_descriptors 0 bs = Some ([], bs)"
| "take_descriptors (Suc n) bs =
     (case bs of
        len # ty # _ \<Rightarrow>
          if unat len < 2 \<or> length bs < unat len then None
          else (case take_descriptors n (drop (unat len) bs) of
                  None \<Rightarrow> None
                | Some (ds, rest) \<Rightarrow> Some (take (unat len) bs # ds, rest))
      | _ \<Rightarrow> None)"

text \<open>The size of a descriptor of each type, and whether a set has the endpoints it announces.\<close>

definition descriptor_ok :: "u8 list \<Rightarrow> bool" where
  "descriptor_ok d \<longleftrightarrow>
     (d ! 1 = USB_DT_INTERFACE \<and> length d = 9) \<or> (d ! 1 = USB_DT_ENDPOINT \<and> length d = 7) \<or>
     (d ! 1 = USB_DT_SS_ENDPOINT_COMP \<and> length d = 6)"

definition endpoints_of :: "u8 list list \<Rightarrow> u8 list" where
  "endpoints_of ds = map (\<lambda>d. d ! 2) (filter (\<lambda>d. d ! 1 = USB_DT_ENDPOINT) ds)"

definition set_ok :: "u8 list list \<Rightarrow> bool" where
  "set_ok ds \<longleftrightarrow> list_all descriptor_ok ds \<and> ds \<noteq> [] \<and> hd ds ! 1 = USB_DT_INTERFACE \<and>
     unat (hd ds ! 4) = length (endpoints_of ds) \<and> endpoints_of ds = [0x01, 0x82]"

lemmas usb_bytes = if_bytes_def ep_bytes_def comp_bytes_def diag_intf_def diag_source_def diag_sink_def diag_comp_def
  le16_def le32_def USB_DT_INTERFACE_def USB_DT_ENDPOINT_def USB_DT_SS_ENDPOINT_COMP_def USB_DIR_OUT_def USB_DIR_IN_def

lemma take_descriptors_Cons:
  assumes "1 < length d" and "length d = unat (hd d)"
  shows "take_descriptors (Suc n) (d @ rest) =
    (case take_descriptors n rest of None \<Rightarrow> None | Some (ds, rest) \<Rightarrow> Some (d # ds, rest))"
proof -
  from assms(1) obtain len ty ds where d: "d = len # ty # ds" by (cases d rule: list.exhaust; cases "tl d") auto
  have "take (unat len) (d @ rest) = d" "drop (unat len) (d @ rest) = rest"
    using assms(2) by (simp_all add: d flip: append_Cons)
  moreover have "\<not> unat len < 2" using assms d by simp
  ultimately show ?thesis using assms d by (simp split: option.split)
qed

text \<open>Each set of descriptors is read as it was written.\<close>

lemma descriptor_sets:
  "take_descriptors 3 (fs_descs @ rest) = Some ([if_bytes diag_intf, ep_bytes (diag_source 64), ep_bytes (diag_sink 64)], rest)"
  "take_descriptors 3 (hs_descs @ rest) = Some ([if_bytes diag_intf, ep_bytes (diag_source 512), ep_bytes (diag_sink 512)], rest)"
  "take_descriptors 5 (ss_descs @ rest) =
     Some ([if_bytes diag_intf, ep_bytes (diag_source 1024), comp_bytes diag_comp, ep_bytes (diag_sink 1024),
            comp_bytes diag_comp], rest)"
proof -
  have i: "take_descriptors (Suc n) (if_bytes diag_intf @ r) =
      (case take_descriptors n r of None \<Rightarrow> None | Some (ds, rest) \<Rightarrow> Some (if_bytes diag_intf # ds, rest))" for n r
    by (rule take_descriptors_Cons) (simp_all add: usb_bytes)
  have e: "take_descriptors (Suc n) (ep_bytes (diag_source k) @ r) =
      (case take_descriptors n r of None \<Rightarrow> None | Some (ds, rest) \<Rightarrow> Some (ep_bytes (diag_source k) # ds, rest))"
    "take_descriptors (Suc n) (ep_bytes (diag_sink k) @ r) =
      (case take_descriptors n r of None \<Rightarrow> None | Some (ds, rest) \<Rightarrow> Some (ep_bytes (diag_sink k) # ds, rest))" for n k r
    by (rule take_descriptors_Cons; simp add: usb_bytes)+
  have c: "take_descriptors (Suc n) (comp_bytes diag_comp @ r) =
      (case take_descriptors n r of None \<Rightarrow> None | Some (ds, rest) \<Rightarrow> Some (comp_bytes diag_comp # ds, rest))" for n r
    by (rule take_descriptors_Cons) (simp_all add: usb_bytes)
  show "take_descriptors 3 (fs_descs @ rest) = Some ([if_bytes diag_intf, ep_bytes (diag_source 64), ep_bytes (diag_sink 64)], rest)"
    "take_descriptors 3 (hs_descs @ rest) = Some ([if_bytes diag_intf, ep_bytes (diag_source 512), ep_bytes (diag_sink 512)], rest)"
    "take_descriptors 5 (ss_descs @ rest) =
     Some ([if_bytes diag_intf, ep_bytes (diag_source 1024), comp_bytes diag_comp, ep_bytes (diag_sink 1024),
            comp_bytes diag_comp], rest)"
    by (simp_all add: fs_descs_def hs_descs_def ss_descs_def numeral_3_eq_3 eval_nat_numeral i e c del: take_descriptors.simps(2))
qed

lemma descriptors_parse:
  "\<exists>fs hs ss. take_descriptors 3 (drop 24 descriptors) = Some (fs, hs_descs @ ss_descs) \<and>
     take_descriptors 3 (hs_descs @ ss_descs) = Some (hs, ss_descs) \<and> take_descriptors 5 ss_descs = Some (ss, []) \<and>
     set_ok fs \<and> set_ok hs \<and> set_ok ss"
proof -
  have "drop 24 descriptors = fs_descs @ hs_descs @ ss_descs" by (simp add: descriptors_def le32_def)
  then show ?thesis
    using descriptor_sets(1) [of "hs_descs @ ss_descs"] descriptor_sets(2) [of ss_descs] descriptor_sets(3) [of "[]"]
    by (simp add: set_ok_def descriptor_ok_def endpoints_of_def usb_bytes)
qed

lemma header_lengths:
  "take 4 (drop 4 descriptors) = le32 (of_nat (length descriptors))" "length descriptors = 105"
  "take 4 (drop 4 strings) = le32 (of_nat (length strings))" "length strings = 33"
  by (simp_all add: descriptors_def strings_def lang0_def STR_INTERFACE_def fs_descs_def hs_descs_def ss_descs_def usb_bytes)

end
