(* ===== verification/Send_Data.thy ===== *)
theory Send_Data
  imports Startup
begin

text \<open>
  The test tool \<^verbatim>\<open>send_data\<close>, a client of the router: it sends the bytes of its arguments over
  the UNIX socket and prints what is sent back until the answer to its command has come.
  Whether \<^verbatim>\<open>char\<close> is signed depends on the machine and is the argument \<open>schar\<close>.
\<close>

section \<open>The program\<close>

definition DIAG_CMD_RSP_BAD_COMMAND :: int where "DIAG_CMD_RSP_BAD_COMMAND = 0x13"

definition char_value :: "bool \<Rightarrow> u8 \<Rightarrow> int" where
  "char_value schar ch = (if schar then sint ch else uint ch)"

text \<open>\<^verbatim>\<open>%d\<close>\<close>

fun decimal_nat :: "nat \<Rightarrow> string" where
  "decimal_nat n = (if n < 10 then [char_of (48 + n)] else decimal_nat (n div 10) @ [char_of (48 + n mod 10)])"

declare decimal_nat.simps [simp del]

definition decimal :: "int \<Rightarrow> string" where
  "decimal i = (if i < 0 then CHR ''-'' # decimal_nat (nat (- i)) else decimal_nat (nat i))"

text \<open>The bytes of a response, sixteen on a line; \<open>n\<close> is the number of all of them.\<close>

fun print_response :: "bool \<Rightarrow> nat \<Rightarrow> nat \<Rightarrow> u8 list \<Rightarrow> string" where
  "print_response schar n i [] = []"
| "print_response schar n i (ch # chs) =
     (if i = 0 then [] else '' '') @ decimal (char_value schar ch) @
     (if i mod 16 = 15 \<or> i = n - 1 then [CHR 0x0A] else []) @ print_response schar n (i + 1) chs"

text \<open>
  What happens in one round: \<^verbatim>\<open>select\<close> times out, comes back without the descriptor, or with it;
  then \<^verbatim>\<open>read\<close> fails, finds the end or gets some bytes, at most as many as the buffer holds.
\<close>

datatype response = TimedOut | NotReady | Disconnected | ReadFailed | Received "u8 list"

text \<open>
  The exit status, if the program ends, and what it has printed. The first byte of the message is
  read after every response.
\<close>

fun receive_loop :: "bool \<Rightarrow> u8 list \<Rightarrow> response list \<Rightarrow> (int option \<times> string) res" where
  "receive_loop schar msg [] = Inr (None, [])"
| "receive_loop schar msg (TimedOut # rs) = Inr (Some 1, [])"
| "receive_loop schar msg (NotReady # rs) = receive_loop schar msg rs"
| "receive_loop schar msg (Disconnected # rs) = Inr (Some 1, [])"
| "receive_loop schar msg (ReadFailed # rs) = Inr (Some 1, [])"
| "receive_loop schar msg (Received bs # rs) =
     andthen (arr_read bs 0) (\<lambda>first.
     if char_value schar first = DIAG_CMD_RSP_BAD_COMMAND
     then Inr (Some 0, ''Diag response: Bad command'' @ [CHR 0x0A])
     else
       andthen (arr_read msg 0) (\<lambda>code.
       let out = print_response schar (length bs) 0 bs in
       if char_value schar first = uint code then Inr (Some 0, out)
       else andthen (receive_loop schar msg rs) (\<lambda>(status, more). Inr (status, out @ more))))"

text \<open>
  \<^verbatim>\<open>calloc\<close> is not tested; with no argument it is asked for nothing. \<open>sock\<close>, \<open>conn\<close> and
  \<open>written\<close> are what the system calls answer.
\<close>

definition send_message :: "string list \<Rightarrow> u8 list" where
  "send_message args = map (\<lambda>arg. of_int (atoi arg)) args"

definition send_data_main ::
    "bool \<Rightarrow> bool \<Rightarrow> int \<Rightarrow> int \<Rightarrow> int \<Rightarrow> string list \<Rightarrow> response list \<Rightarrow> (int option \<times> string) res" where
  "send_data_main schar allocated sock conn written args rs =
     (if \<not> allocated \<and> args \<noteq> [] then Inl NullDeref
      else let msg = send_message args in
      if sock < 0 then Inl Exited
      else if conn < 0 then Inl Exited
      else if written < 0 then Inl Exited
      else receive_loop schar msg rs)"

section \<open>When it ends\<close>

text \<open>Responses that are not the last: neither the answer to the command nor bad command.\<close>

definition other_response :: "bool \<Rightarrow> u8 \<Rightarrow> response \<Rightarrow> bool" where
  "other_response schar code r \<longleftrightarrow>
     (case r of
        NotReady \<Rightarrow> True
      | Received bs \<Rightarrow> bs \<noteq> [] \<and> char_value schar (hd bs) \<notin> {DIAG_CMD_RSP_BAD_COMMAND, uint code}
      | _ \<Rightarrow> False)"

definition printed :: "bool \<Rightarrow> response \<Rightarrow> string" where
  "printed schar r = (case r of Received bs \<Rightarrow> print_response schar (length bs) 0 bs | _ \<Rightarrow> [])"

text \<open>Everything up to the answer is printed, and the tool ends with the answer.\<close>

lemma receive_others:
  "\<forall>r \<in> set rs. other_response schar code r \<Longrightarrow>
   receive_loop schar (code # msg) (rs @ rs') =
     andthen (receive_loop schar (code # msg) rs') (\<lambda>(status, out). Inr (status, concat (map (printed schar) rs) @ out))"
proof (induction rs)
  case Nil
  then show ?case by (cases "receive_loop schar (code # msg) rs'") auto
next
  case (Cons r rs)
  then show ?case
    by (cases "receive_loop schar (code # msg) rs'"; cases r)
      (auto simp: other_response_def printed_def arr_read_def hd_conv_nth Let_def)
qed

lemma answer_ends:
  assumes "\<forall>r \<in> set rs. other_response schar code r" and "char_value schar ch = uint code"
    and "code \<noteq> 0x13"
  shows "receive_loop schar (code # msg) (rs @ Received (ch # bs) # rs') =
    Inr (Some 0, concat (map (printed schar) rs) @ print_response schar (length (ch # bs)) 0 (ch # bs))"
proof -
  have "uint code \<noteq> 0x13" using assms(3) by (simp add: word_uint_eq_iff)
  then show ?thesis
    using assms(2) by (simp add: receive_others [OF assms(1)] arr_read_def Let_def DIAG_CMD_RSP_BAD_COMMAND_def)
qed

text \<open>With signed characters no response matches a command of 128 or more.\<close>

lemma char_value_small: "schar \<Longrightarrow> char_value schar ch < 128"
proof -
  have "sint ch < 2 ^ (8 - 1)" using sint_lt [of ch] by simp
  then show "schar \<Longrightarrow> char_value schar ch < 128" by (simp add: char_value_def)
qed

lemma high_command_never_ends:
  assumes "schar" and "0x80 \<le> code"
    and "\<forall>r \<in> set rs. r = NotReady \<or> (\<exists>ch bs. r = Received (ch # bs) \<and> ch \<noteq> 0x13)"
  shows "\<exists>out. receive_loop schar (code # msg) rs = Inr (None, out)"
proof -
  have "128 \<le> uint code" using assms(2) by (simp add: word_le_def)
  then have "char_value schar ch \<noteq> uint code" for ch using char_value_small [OF assms(1), of ch] by linarith
  moreover have "char_value schar ch \<noteq> 0x13" if "ch \<noteq> 0x13" for ch
  proof
    assume "char_value schar ch = 0x13"
    then have "sint ch = sint (0x13 :: u8)" using assms(1) by (simp add: char_value_def)
    with that show False by (metis signed_word_eqI)
  qed
  ultimately have "\<forall>r \<in> set rs. other_response schar code r"
    using assms(3) by (fastforce simp: other_response_def DIAG_CMD_RSP_BAD_COMMAND_def)
  from receive_others [OF this, of msg "[]"] show ?thesis by simp
qed

end
