(* ===== verification/Spec2Isabelle.thy ===== *)
theory Spec2Isabelle
  imports Scenario Loop_Ends Cntl_Packets Hex_Dump Usb_Descriptors Send_Data
begin

text \<open>
  The diag router forwards diagnostic messages between clients on the host (a USB gadget, UNIX
  and TCP sockets, a UART) and the remote processors of a Qualcomm system, its peripherals.
  This library models its C sources under \<^verbatim>\<open>src/router\<close> and proves what they guarantee, and
  where they do not keep what they seem to promise.

  \<^bold>\<open>The program.\<close> A single thread runs \<^verbatim>\<open>watch_run\<close>, which calls back when a descriptor is
  readable, when a transfer from a queue has ended and when a timer is due. Bytes from a client
  reach \<^verbatim>\<open>dm_recv\<close>, which cuts them into requests; \<^verbatim>\<open>diag_client_handle_command\<close> looks a request
  up in the router's own commands, in the commands that the peripherals have registered and in
  the fallback commands. Requests that concern masks change the tables of \<^verbatim>\<open>masks.c\<close> and are
  announced to every peripheral; other requests are put on the queues of the peripherals.
  Control packets from a peripheral reach \<^verbatim>\<open>diag_cntl_recv\<close>, which maintains the commands, the
  features and the table of diag ids; its messages are broadcast to the clients.

  \<^bold>\<open>Conventions.\<close> State is passed explicitly, as one record that grows along the theories:
  \<open>heap\<close> (allocation), \<open>flow_state\<close>, \<open>watch_state\<close>, \<open>mask_state\<close>, \<open>queue_state\<close>, \<open>dm_state\<close>,
  \<open>cntl_state\<close>, \<open>router_state\<close>, \<open>rpmsg_state\<close>, \<open>qrtr_state\<close>, \<open>usb_state\<close>; an operation is polymorphic in the fields it does not know.
  Clients are indices into \<open>clients\<close> and peripherals are numbers that \<open>perifs\<close> maps to objects,
  which may be freed; function pointers are datatypes. Integers keep their width as words where
  the code computes with them; buffers that come from outside are a capacity and a function
  (\<open>mem\<close>), because the code reads at offsets that it has not compared with anything. A result
  is an outcome or a \<open>fault\<close>: reading or writing out of bounds, using a null or freed object, a
  failed assertion, \<^verbatim>\<open>err\<close>, or not returning. A return code of the C function is the first
  component of the outcome. What the kernel does is an argument: the script of results of
  \<^verbatim>\<open>read\<close>, the success of each allocation (\<open>alloc_ok\<close>), the contents of fresh memory (\<open>indet\<close>),
  the outcome of each asynchronous transfer; \<open>environment\<close> collects what the system calls of the
  start up give, \<open>turn\<close> what one turn of the event loop is given (clock, descriptors that are
  ready, completed requests, what each descriptor delivers). \<^verbatim>\<open>qrtr_decode\<close>, which belongs to
  libqrtr, is the parameter \<open>decode\<close>.

  \<^bold>\<open>The theories\<close>, in the order in which they build on each other:
  \<^item> \<open>Diag_Prelude\<close>: results and their sequencing, little-endian buffers, allocation, pointers.
  \<^item> \<open>List_Head\<close> (\<^verbatim>\<open>list.h\<close>): the intrusive lists on an explicit store of links, refined to
    HOL lists, which all other theories use in their place.
  \<^item> \<open>Circ_Buf\<close> (\<^verbatim>\<open>circ_buf.c\<close>), \<open>Hdlc_Crc\<close> and \<open>Hdlc\<close> (\<^verbatim>\<open>hdlc.c\<close>), \<open>Mbuf\<close> (\<^verbatim>\<open>mbuf.c\<close>): the ring,
    the check sum, encoder and decoder, and messages.
  \<^item> \<open>Watch\<close> (\<^verbatim>\<open>watch.c\<close>): flow control, watches, timers, asynchronous transfers.
  \<^item> \<open>Masks\<close>, \<open>Log_Masks\<close>, \<open>Msg_Masks\<close>, \<open>Event_Masks\<close> (\<^verbatim>\<open>masks.c\<close>): the mask tables, their
    invariants and views as maps, and every command on them.
  \<^item> \<open>Msg_Queue\<close> (\<^verbatim>\<open>diag.c\<close>, \<^verbatim>\<open>router.c\<close>), \<open>Dm\<close> (\<^verbatim>\<open>dm.c\<close>): queues, clients and broadcasts.
  \<^item> \<open>Diag_Cntl\<close> (\<^verbatim>\<open>diag_cntl.c\<close>), \<open>Peripherals\<close> (\<^verbatim>\<open>peripheral.c\<close> and the sending and closing parts
    of \<^verbatim>\<open>peripheral-rpmsg.c\<close> and \<^verbatim>\<open>peripheral-qrtr.c\<close>): the control channel and the peripherals. \<open>Cntl_Packets\<close> has the
    packets as the structures of \<^verbatim>\<open>diag_cntl.c\<close> and shows that the handlers work on their fields.
  \<^item> \<open>Common_Cmds\<close>, \<open>App_Cmds\<close>, \<open>Router\<close> (\<^verbatim>\<open>common_cmds.c\<close>, \<^verbatim>\<open>app_cmds.c\<close>, \<^verbatim>\<open>router.c\<close>): the
    handlers and the dispatcher.
  \<^item> \<open>Dm_Recv\<close> (\<^verbatim>\<open>dm.c\<close>): receiving from a client, down to the dispatcher.
  \<^item> \<open>Perif_Frames\<close>, \<open>Rpmsg_Recv\<close> (\<^verbatim>\<open>peripheral-rpmsg.c\<close>): receiving from a peripheral: non-HDLC
    frames, the data channel with its decoder kept between calls, the control channel.
  \<^item> \<open>Rpmsg\<close> (\<^verbatim>\<open>peripheral-rpmsg.c\<close>): device nodes, udev events, creating and opening peripherals;
    the registry refines a map (\<open>udev_view\<close>, \<open>udev_effect\<close>).
  \<^item> \<open>Qrtr\<close> (\<^verbatim>\<open>peripheral-qrtr.c\<close>): the sockets of a QRTR peripheral and the start up.
  \<^item> \<open>Transports\<close> (\<^verbatim>\<open>unix.c\<close>, \<^verbatim>\<open>socket.c\<close>, \<^verbatim>\<open>uart.c\<close>, \<^verbatim>\<open>usb.c\<close>) and \<open>Startup\<close> (\<^verbatim>\<open>diag.c\<close>,
    \<^verbatim>\<open>peripheral.c\<close>): the ways in which clients connect, the options, and \<^verbatim>\<open>main\<close> up to the loop.
  \<^item> \<open>Event_Loop\<close> (\<^verbatim>\<open>watch.c\<close>): \<^verbatim>\<open>watch_run\<close> with every callback of the program.
  \<^item> \<open>Usb_Descriptors\<close> (\<^verbatim>\<open>usb.c\<close>), \<open>Hex_Dump\<close> (\<^verbatim>\<open>util.c\<close>): the bytes written to the endpoint
    \<^verbatim>\<open>ep0\<close> and the dump of a buffer; \<open>Send_Data\<close> (\<^verbatim>\<open>src/tools/send_data.c\<close>): the test tool, a client.

  The theories that follow hold no code but prove properties of the whole:
  \<^item> \<open>Mask_Frames\<close> says which handlers leave the tables of masks in place (\<open>tables_wf\<close>);
    \<open>Handler_Frames\<close> states, in the locale \<open>io_pred\<close>, what a predicate on states has to satisfy so
    that every handler keeps it, and \<open>Loop_Invariants\<close> extends it (\<open>loop_pred\<close>) to the loop.
  \<^item> \<open>Flow_Control\<close> interprets these locales: the counts of flows cover the messages outstanding.
  \<^item> \<open>Loop_Ends\<close> interprets them again: rings have their indices in range, watches have addresses
    of their own and reads from USB do not fill their buffer; so a turn of the loop ends.
  \<^item> \<open>Boot\<close>: the start up reaches the loop in a well-formed state, and the tables of masks stay so.
  \<^item> \<open>Loop_Faults\<close>: the sequences of events in which the loop uses freed memory, fails an
    assertion or does not return.
  \<^item> \<open>Scenario\<close>: a concrete router, at which the properties below are instantiated.

  \<^bold>\<open>Bounds and fuel.\<close> Loops over tables and packets are structural or have a measure, so every
  definition is total. \<open>hdlc_decode_loop\<close> and \<open>circ_read\<close> end because the ring and the script are
  finite; a head outside the ring is never met, and when no byte could end the decoder's loop
  it is the fault \<open>Diverged\<close>; \<open>circ_inv\<close>, which the operations on the ring keep, excludes this.
  The loops over the frames of a ring, \<open>dm_recv_frames\<close> and \<open>data_frames\<close>, have the size of the ring as
  fuel, which is enough under \<open>circ_inv\<close>, since each frame takes a byte; for a ring whose head is outside,
  \<open>full_transfer_never_returns\<close> shows that no fuel is. The receive loops of the data channel take as fuel the
  number of bytes and events of the script, which suffices unless the script has an end of file
  (\<open>data_recv_ends\<close>, \<open>end_of_data_never_returns\<close>). The walks of the event loop over its tables have
  fuel \<open>walk_fuel\<close>, a multiple of the lengths of the tables, because a callback may add to the
  table that is being walked; \<open>walk_ends\<close> says that it is enough, and \<open>every_turn_ends\<close> that a
  turn has all the fuel it needs.

  \<^bold>\<open>Not modelled.\<close> Messages to standard error; \<^verbatim>\<open>getopt_long\<close> itself, whose results are the
  argument of \<open>parse_opts\<close>; the system calls, whose results are arguments. Character tests and
  number formats of the C library are those of the C locale. The count of a flow is an integer,
  where \<^verbatim>\<open>watch.c\<close> has an \<^verbatim>\<open>int\<close> that would wrap with 2147483648 messages outstanding; the copy that
  \<^verbatim>\<open>dm_add\<close> makes of a client's name is not counted as an allocation; \<open>log_set_mask\<close> keeps the capped
  number of items, which the code writes into the request, to itself, as nothing reads it later.
\<close>

section \<open>Clients\<close>

text \<open>
  C1. Encoded messages reach the command handler in the order in which they were sent, each
  with its own bytes and length: when the ring of an HDLC client, after reading from its
  descriptor, holds any number of encoded messages followed by a part of another, one call
  of \<^verbatim>\<open>dm_recv\<close> handles exactly these messages, as long as handling them does not fail, and
  leaves the ring empty.
\<close>

theorem client_messages_in_order:
  fixes s :: "'z router_state_scheme"
  assumes "c < length (clients s)" and "cl_encode_type (clients s ! c) = DIAG_ENCODE_HDLC"
    and "circ_inv (client_buf c s)" and "circ_read (client_buf c s) es = Inr (n, e, b, es')"
    and "n = 0 \<or> e = EAGAIN"
    and "contents b = concat (map hdlc_encode_bytes ms) @ part" and "0x7e \<notin> set part"
  shows "\<exists>reqs b'. list_all2 request_of reqs ms \<and> circ_inv b' \<and> contents b' = [] \<and>
    dm_recv (Some c) es s =
      andthen (handle_all c reqs (set_client_buf c b s)) (\<lambda>s'. Inr (0, es', set_client_buf c b' s'))"
proof -
  have fr: "frames_in (contents b) = (map (\<lambda>m. m @ fcs_bytes (crc_of m)) ms, [])"
    using frames_in_partial [OF assms(7)] by (simp add: assms(6) frames_in_stream)
  have "length m < HDLC_BUF_SIZE" if "m \<in> set ms" for m
    using length_frame_member [OF that] circ_count_less [of b] length_contents [of b] assms(6) by simp
  with dm_recv_hdlc_client [OF assms(1-5)] show ?thesis
    unfolding fr by (auto intro: frame_requests_messages)
qed

theorem client_messages_in_order_witness:
  "\<exists>b reqs b'. list_all2 request_of reqs [[0x00], [0x1c]] \<and>
    dm_recv (Some 1) [Data (concat (map hdlc_encode_bytes [[0x00], [0x1c]]) @ [0x4b])] scene =
      andthen (handle_all 1 reqs (set_client_buf 1 b scene)) (\<lambda>s'. Inr (0, [], set_client_buf 1 b' s'))"
proof -
  let ?bs = "concat (map hdlc_encode_bytes [[0x00], [0x1c]]) @ [0x4b]"
  have "length ?bs < unat (circ_space_to_end circ_empty)"
    using length_hdlc_encode_bytes [of "[0x00]"] length_hdlc_encode_bytes [of "[0x1c]"]
    by simp
  from circ_read_short [OF circ_empty_inv this, of "[]"] obtain b where
    "circ_read circ_empty [Data ?bs] = Inr (0, 0, b, [])" "contents b = ?bs" by auto
  then show ?thesis
    using client_messages_in_order [of 1 scene "[Data ?bs]" 0 0 b "[]" "[[0x00], [0x1c]]" "[0x4b]"]
    by (auto simp: client_buf_def)
qed

section \<open>Framing\<close>

text \<open>
  C24. The table-driven check sum is the bit by bit division by the reflected polynomial
  0x8408: for every state and byte, one step with the table is eight steps of the division.
\<close>

theorem crc_table_is_division: "hdlc_crc_byte crc ch = (crc_shift ^^ 8) (crc XOR ucast ch)"
  by (simp add: hdlc_crc_byte_division crc_shift8_def eval_nat_numeral)

text \<open>
  C25. A frame that is received as it was sent leaves the register at the fixed residue,
  and a change of one byte of the message always changes the check sum.
\<close>

theorem crc_detects:
  "crc_of (m @ fcs_bytes (crc_of m)) = 0xf0b8 \<and> (crc_of (xs @ [x] @ ys) = crc_of (xs @ [y] @ ys) \<longleftrightarrow> x = y)"
  by (simp only: crc_residue crc_of_change_byte simp_thms)

text \<open>
  C26. The encoder does not leave the buffer it allocates, for any message and whatever the
  allocation holds: it returns the stuffed message and check bytes with one delimiter at the
  end, and nothing only when memory runs out.
\<close>

theorem hdlc_encode_total:
  "hdlc_encode src s =
     Inr (if alloc_ok s (alloc_no s)
          then Some (concat (map stuff (src @ fcs_bytes (crc_of src))) @ [0x7e]) else None,
          s\<lparr>alloc_no := Suc (alloc_no s)\<rparr>)"
  by (simp add: hdlc_encode_spec hdlc_encode_bytes_eq)

text \<open>
  C27. Reading into the ring always returns, whatever the descriptor delivers and in
  whatever pieces: it stays inside the array, appends what it reads to the contents in the
  order of the stream, and leaves the rest of the stream to be read later.
\<close>

theorem circ_read_appends:
  assumes "circ_inv b"
  shows "\<exists>r e b' es'. circ_read b es = Inr (r, e, b', es') \<and> circ_inv b' \<and> tail b' = tail b \<and>
    contents b' @ script_bytes es' = contents b @ script_bytes es \<and>
    (\<exists>bs. contents b' = contents b @ bs) \<and> (r = 0 \<or> r = -1)"
  by (rule circ_read_step [OF assms])

theorem circ_read_appends_witness:
  "\<exists>r e b' es'. circ_read circ_empty [Data [1, 2], Fail EIO, Data [3]] = Inr (r, e, b', es') \<and>
    contents b' @ script_bytes es' = [1, 2, 3]"
  using circ_read_appends [OF circ_empty_inv, of "[Data [1, 2], Fail EIO, Data [3]]"] by auto

section \<open>Lists, flow control and timers\<close>

text \<open>
  C33. Walking a list with \<^verbatim>\<open>list_for_each_safe\<close> and deleting nodes on the way ends, and leaves
  a well-formed list of the nodes not deleted, in their order.
\<close>

theorem safe_deletion:
  assumes "dll s h xs"
  shows "\<exists>s'. list_for_each_safe (del_if P) h s = Some s' \<and> dll s' h (filter (\<lambda>x. \<not> P x) xs)"
  by (rule for_each_safe_del [OF assms])

theorem safe_deletion_witness:
  "\<exists>s'. list_for_each_safe (del_if (\<lambda>x. x = 2)) 1 (list_add 1 3 (list_add 1 2 (list_init 1 \<lparr>prev_of = id, next_of = id\<rparr>))) = Some s' \<and>
    dll s' 1 [3]"
proof -
  have "dll (list_add 1 3 (list_add 1 2 (list_init 1 \<lparr>prev_of = id, next_of = id\<rparr>))) 1 [2, 3]"
    using dll_add [OF dll_add [OF dll_init [of 1 "\<lparr>prev_of = id, next_of = id\<rparr>"], of 2], of 3] by simp
  from safe_deletion [OF this, of "\<lambda>x. x = 2"] show ?thesis by simp
qed

text \<open>
  Messages leave a queue in order: starting a transfer takes the first message off the
  queue and makes it the pending one, and does nothing when one is pending already.
\<close>

theorem transfers_in_order:
  "\<exists>w' queue'. watch_poll_aio accepted w queue = Inr (w', queue') \<and>
     (case w_pending w of None \<Rightarrow> [] | Some m \<Rightarrow> [m]) @ queue =
     (case w_pending w' of None \<Rightarrow> [] | Some m \<Rightarrow> [m]) @ queue'"
  using watch_poll_aio_safe [of accepted w queue] watch_poll_aio_order by blast

section \<open>Masks\<close>

text \<open>
  C22. The log mask that was set for an equipment id is the one that is read back, cut to
  the largest number of items, and the masks of the other ids are as they were.
\<close>

theorem log_mask_round_trip:
  assumes wf: "log_masks_wf s" and ok: "mem_ok s" and e: "unat (e :: u8) < MAX_EQUIP_ID"
    and req: "rd_bytes p 0 (unat (bits_to_bytes32 (log_capped n))) = Inr bits"
  shows "\<exists>s' s''. diag_cmd_set_log_mask e n p sz s =
      Inr (0, log_capped n, bits_to_bytes32 (log_capped n), s') \<and>
    diag_cmd_get_log_mask (ucast e) n0 p0 z0 s' =
      Inr (0, log_capped n, Some bits, bits_to_bytes32 (log_capped n), s'') \<and>
    log_masks_wf s'' \<and> log_view s'' = (log_view s)(unat e \<mapsto> (log_capped n, bits))"
proof -
  from set_log_mask_ok [OF wf e req] obtain s' where
    s': "diag_cmd_set_log_mask e n p sz s = Inr (0, log_capped n, bits_to_bytes32 (log_capped n), s')"
      "log_masks_wf s'" "log_view s' = (log_view s)(unat e \<mapsto> (log_capped n, bits))"
      "heap.truncate s' = heap.truncate s" by blast
  have "alloc_ok s' = alloc_ok s" using s'(4) by (metis heap.select_convs(2) heap.truncate_def)
  then have "mem_ok s'" using ok by (simp add: mem_ok_def)
  then show ?thesis
    using unat_ucast_u8 [of e] get_log_mask_ok [OF s'(2), of "ucast e" n0 p0 z0] s'(1,2,3) e
    by (auto simp: log_masks_wf_def log_view_def fun_eq_iff)
qed

theorem log_mask_round_trip_witness:
  "\<exists>s' s''. diag_cmd_set_log_mask 1 12 (mem_of [0xaa, 0x0f]) 0 scene = Inr (0, 12, 2, s') \<and>
    diag_cmd_get_log_mask 1 0 None 0 s' = Inr (0, 12, Some [0xaa, 0x0f], 2, s'')"
proof -
  have "log_capped 12 = 12" "bits_to_bytes32 12 = 2"
    by (simp_all add: log_capped_def MAX_ITEMS_ALLOWED_def bits_to_bytes32_def)
  moreover have "rd_bytes (mem_of [0xaa, 0x0f]) 0 2 = Inr [0xaa, 0x0f]"
    by (rule rd_bytes_mem_of) simp
  ultimately show ?thesis
    using log_mask_round_trip [of scene 1 "mem_of [0xaa, 0x0f]" 12 "[0xaa, 0x0f]" 0 0 None 0]
    by (simp add: MAX_EQUIP_ID_def) blast
qed

text \<open>
  C23. The log masks are a map from equipment ids to masks: any sequence of settings
  succeeds, keeps the invariant, and for each id leaves the last mask that was set.
\<close>

theorem log_masks_are_a_map:
  assumes "log_masks_wf s" and "\<forall>(k, v) \<in> set kvs. log_accepts k v"
  shows "\<exists>s'. fold_res log_update kvs s = Inr s' \<and> log_masks_wf s' \<and> log_view s' = log_view s ++ map_of (rev kvs)"
  by (rule log_masks.updates_view [OF assms])

theorem log_masks_are_a_map_witness:
  "\<exists>s'. fold_res log_update [(4, 8, [0xff]), (4, 8, [0x01])] scene = Inr s' \<and> log_view s' 4 = Some (8, [0x01])"
proof -
  have "\<forall>(k, v) \<in> set [(4, 8, [0xff]), (4, 8, [0x01])]. log_accepts k v"
    by (simp add: log_accepts_def MAX_EQUIP_ID_def MAX_ITEMS_ALLOWED_def bits_to_bytes32_def)
  from log_masks_are_a_map [of scene, OF _ this] show ?thesis by (auto simp: map_add_def)
qed

text \<open>
  C21. Setting the message mask of a range of ids within the last id of its entry writes
  exactly the words of these ids, and leaves every other word of every entry.
\<close>

theorem msg_mask_set:
  assumes "msg_masks_wf s" and "mi_ptr (msg_mask s) = Obj tbl" and "msg_request_ok r"
    and "rd32s bits 0 (msg_count r) = Inr ws" "length ws = msg_count r" and "msg_slot_of r = Some i"
    and "unat (ssid_last r) \<le> unat (mm_ssid_last_tools (tbl ! i))"
  shows "\<exists>s'. diag_cmd_set_msg_mask r bits s = Inr (0, s') \<and> msg_masks_wf s' \<and>
    diag_get_msg_mask_status s' = DIAG_CTRL_MASK_VALID \<and>
    msg_view s' = msg_view s ++ msg_written i (msg_offset i r) ws"
  by (rule set_msg_mask_within [OF assms])

theorem msg_mask_set_witness:
  "\<exists>s'. diag_cmd_set_msg_mask \<lparr>ssid_first = 500, ssid_last = 502\<rparr> (zeros 12) scene = Inr (0, s') \<and>
    msg_view s' (1, 2) = Some 0 \<and> msg_view s' (1, 3) = Some 0xffffffff"
proof -
  let ?r = "\<lparr>ssid_first = 500, ssid_last = 502\<rparr>"
  have "rd32s (zeros 12) 0 (msg_count ?r) = Inr (replicate 3 0)"
    using rd32s_zeros [of 0 3 12] by (simp add: msg_count_def)
  from msg_mask_set [OF scene_masks(1) scene_simps(13) _ this, of 1] obtain s' where
    "diag_cmd_set_msg_mask ?r (zeros 12) scene = Inr (0, s')"
      "msg_view s' = msg_view scene ++ msg_written 1 (msg_offset 1 ?r) (replicate 3 0)"
    by (auto simp: msg_request_ok_def msg_count_def msg_slots_scene msg_item_init_def ssid_arr_1)
  moreover have "msg_view scene (1, 3) = Some 0xffffffff"
    by (simp add: msg_view_def msg_entry_def msg_item_init_def ssid_arr_1)
  ultimately show ?thesis by (auto simp: map_add_def msg_written_def msg_offset_def ssid_arr_1)
qed

text \<open>
  C20. A range that reaches past the last id of its entry is stored when it has fewer than 200
  ids: every word that was in force or asked for is in force afterwards, and the object behind
  the entry then has one word for each id up to the end of the range, also when it had more. A
  range of exactly 200 ids, the most that a request may have, is refused and changes no word.
\<close>

theorem msg_mask_grow:
  assumes "msg_masks_wf s" and "mi_ptr (msg_mask s) = Obj tbl" and "msg_request_ok r"
    and "rd32s bits 0 (msg_count r) = Inr ws" "length ws = msg_count r" and "msg_slot_of r = Some i"
    and "unat (mm_ssid_last_tools (tbl ! i)) < unat (ssid_last r)"
  shows "(msg_count r < 200 \<longrightarrow> (\<exists>s'. diag_cmd_set_msg_mask r bits s = Inr (0, s') \<and> msg_masks_wf s' \<and>
      diag_get_msg_mask_status s' = DIAG_CTRL_MASK_VALID \<and>
      msg_view s ++ msg_written i (msg_offset i r) ws \<subseteq>\<^sub>m msg_view s' \<and>
      map_option length (msg_object s' i) = Some (unat (ssid_last r) - unat (ssid_first_arr ! i) + 1))) \<and>
    (msg_count r = 200 \<longrightarrow>
      (\<exists>s'. diag_cmd_set_msg_mask r bits s = Inr (1, s') \<and> msg_masks_wf s' \<and> msg_view s' = msg_view s)) \<and>
    msg_count r \<le> 200"
  using set_msg_mask_grow [OF assms] set_msg_mask_refused [OF assms(1-3,6,7)] msg_asked [OF assms(3)] by blast

theorem msg_mask_grow_witness:
  "map_option length (msg_object scene 1) = Some 200 \<and>
   (\<exists>s'. diag_cmd_set_msg_mask \<lparr>ssid_first = 500, ssid_last = 510\<rparr> (zeros 44) scene = Inr (0, s') \<and>
     map_option length (msg_object s' 1) = Some 11)"
proof -
  let ?r = "\<lparr>ssid_first = 500, ssid_last = 510\<rparr>"
  have "rd32s (zeros 44) 0 (msg_count ?r) = Inr (replicate 11 0)"
    using rd32s_zeros [of 0 11 44] by (simp add: msg_count_def)
  from msg_mask_grow [OF scene_masks(1) scene_simps(13) _ this, of 1] show ?thesis
    by (auto simp: msg_request_ok_def msg_count_def msg_slots_scene msg_item_init_def ssid_arr_1 msg_object_def)
qed

text \<open>
  C39. After a request has cut the object of an entry below 200 words, a request for the 201
  ids from its first id writes past the end of the object.
\<close>

theorem msg_mask_shrink_overruns:
  assumes wf: "msg_masks_wf s" and tbl: "mi_ptr (msg_mask s) = Obj tbl" and r: "msg_request_ok r"
    and ws: "rd32s bits 0 (msg_count r) = Inr ws" "length ws = msg_count r" and slot: "msg_slot_of r = Some i"
    and beyond: "unat (mm_ssid_last_tools (tbl ! i)) < unat (ssid_last r)"
    and near: "unat (ssid_last r) < unat (ssid_first_arr ! i) + 199"
    and r': "unat (ssid_first r') = unat (ssid_first_arr ! i)" "unat (ssid_last r') = unat (ssid_first_arr ! i) + 200"
      "msg_slot_of r' = Some i"
    and ws': "rd32s bits' 0 200 = Inr ws'" "length ws' = 200"
  shows "\<exists>s'. diag_cmd_set_msg_mask r bits s = Inr (0, s') \<and> diag_cmd_set_msg_mask r' bits' s' = Inl OobWrite"
proof -
  from msg_mask_shrinks [OF wf tbl r ws slot beyond near] obtain s' p where
    s': "diag_cmd_set_msg_mask r bits s = Inr (0, s')" "msg_masks_wf s'" "msg_object s' i = Some p" "length p < 200" .
  from set_msg_mask_overrun [OF s'(2) r'(3) s'(3,4) r'(1,2) ws'] s'(1) show ?thesis by blast
qed

theorem msg_mask_shrink_overruns_witness:
  "\<exists>s'. diag_cmd_set_msg_mask \<lparr>ssid_first = 500, ssid_last = 510\<rparr> (zeros 44) scene = Inr (0, s') \<and>
    diag_cmd_set_msg_mask \<lparr>ssid_first = 500, ssid_last = 700\<rparr> (zeros 804) s' = Inl OobWrite"
  by (rule msg_mask_shrink_overruns [of _ msg_table _ _ "replicate 11 0" 1 _ _ "replicate 200 0"])
    (simp_all add: msg_request_ok_def msg_count_def msg_slots_scene msg_item_init_def ssid_arr_1 rd32s_zeros
      del: rd32s.simps)

text \<open>
  Switching all message masks on or off writes the low byte of the level into all four
  bytes of every word, and changes no other part of the view.
\<close>

theorem set_all_msg_masks:
  assumes "msg_masks_wf s"
  shows "\<exists>s'. diag_cmd_set_all_msg_mask w s = Inr s' \<and> msg_masks_wf s' \<and>
    diag_get_msg_mask_status s' = (if w \<noteq> 0 then DIAG_CTRL_MASK_ALL_ENABLED else DIAG_CTRL_MASK_ALL_DISABLED) \<and>
    msg_view s' = map_option (\<lambda>_. memset_word (w AND 0xff)) \<circ> msg_view s"
  using set_all_msg_mask_ok [OF assms, of w] memset_word_low_byte [of w] by simp

theorem set_all_msg_masks_witness:
  "\<exists>s'. diag_cmd_set_all_msg_mask 0x100 scene = Inr s' \<and> msg_view s' (1, 0) = Some 0 \<and>
    diag_get_msg_mask_status s' = DIAG_CTRL_MASK_ALL_ENABLED"
  using set_all_msg_masks [OF scene_masks(1), of "0x100"]
  by (auto simp: msg_view_def [of scene] msg_entry_def msg_item_init_def ssid_arr_1 memset_word_def u32_of_def)

section \<open>Sending to clients\<close>

text \<open>
  C3. A broadcast puts one copy of the message, in the encoding of each client, at the end
  of the queue of every enabled client and on no other queue, and the flow control count of
  its source grows by the number of copies.
\<close>

theorem broadcast_reaches_enabled:
  assumes "dm_wf s"
  shows "\<exists>s'. dm_broadcast msg flow s = Inr s' \<and> dm_wf s' \<and> clients s' = clients s \<and>
     (\<forall>q. queues s' q = queues s q @ delivered (clients s) msg flow [0..<length (clients s)] q) \<and>
     (\<forall>f. flows s' f = flows s f +
        (if flow = Some f then int (copies (clients s) [0..<length (clients s)]) else 0))"
  by (rule dm_broadcast_ok [OF assms])

theorem broadcast_reaches_enabled_witness:
  "\<exists>s'. dm_broadcast [1, 2, 3] (Some 0) scene = Inr s' \<and> queues s' (ClientOutq 0) = [mbuf_for [1, 2, 3] (Some 0)] \<and>
    queues s' (ClientOutq 1) = [mbuf_for (hdlc_encode_bytes [1, 2, 3]) (Some 0)] \<and> flows s' 0 = 2"
  using broadcast_reaches_enabled [OF scene_dm_wf, of "[1, 2, 3]" "Some 0"]
  by (auto simp: delivered_def copies_def client_encode_def encode_type_defs upt_conv_Cons)

section \<open>The control channel\<close>

text \<open>
  C10. Deregistering the ranges that a peripheral has just registered, for any two packets that
  name the same ranges, takes the new commands away, and with them every older command of this
  peripheral with one of these ranges; all other commands stay, in order. So the list is as it
  was before when the peripheral had none of the ranges.
\<close>

theorem register_then_deregister:
  assumes "mem_ok s" and "20 + 8 * unat (pk16 r 16) \<le> cap r" and "18 + 4 * unat (pk16 d 16) \<le> cap d"
    and "pkt_keys d 18 4 [0..<unat (pk16 d 16)] = pkt_keys r 20 8 [0..<unat (pk16 r 16)]"
  shows "\<exists>s1 s2. diag_cntl_register p r s = Inr (0, s1) \<and>
    length (diag_cmds s1) = length (diag_cmds s) + unat (pk16 r 16) \<and>
    diag_cntl_deregister p d s1 = Inr (0, s2) \<and>
    diag_cmds s2 = without_keys p (pkt_keys r 20 8 [0..<unat (pk16 r 16)]) (diag_cmds s) \<and>
    ((\<forall>dc \<in> set (diag_cmds s). dc_peripheral dc = Some p \<longrightarrow>
        (dc_first dc, dc_last dc) \<notin> pkt_keys r 20 8 [0..<unat (pk16 r 16)]) \<longrightarrow> diag_cmds s2 = diag_cmds s)"
  using register_deregister [OF assms, of p] register_ok [OF assms(1,2), of p]
    without_keys_fresh [of "diag_cmds s" p "pkt_keys r 20 8 [0..<unat (pk16 r 16)]"] by auto

definition reg_packet :: mem where
  "reg_packet = mem_of [1, 0, 0, 0, 20, 0, 0, 0, 0, 0, 0, 0, 0x4b, 0, 0x12, 0, 1, 0, 0, 0, 5, 0, 6, 0, 0, 0, 0, 0]"

definition dereg_packet :: mem where
  "dereg_packet = mem_of [27, 0, 0, 0, 14, 0, 0, 0, 0, 0, 0, 0, 0x4b, 0, 0x12, 0, 1, 0, 5, 0, 6, 0]"

lemma reg_packet_fields:
  "pk16 reg_packet 16 = 1" "cap reg_packet = 28" "pk16 dereg_packet 16 = 1" "cap dereg_packet = 22"
  "pk16 reg_packet 12 = 0x4b" "pk16 reg_packet 14 = 0x12" "pk16 reg_packet 20 = 5" "pk16 reg_packet 22 = 6"
  "pk16 dereg_packet 12 = 0x4b" "pk16 dereg_packet 14 = 0x12" "pk16 dereg_packet 18 = 5" "pk16 dereg_packet 20 = 6"
  by (simp_all add: reg_packet_def dereg_packet_def mem_of_def pk16_def u16_of_def)

theorem register_then_deregister_witness:
  "\<exists>s1 s2. diag_cntl_register 0 reg_packet scene = Inr (0, s1) \<and> length (diag_cmds s1) = Suc 1 \<and>
    diag_cntl_deregister 0 dereg_packet s1 = Inr (0, s2) \<and> diag_cmds s2 = [modem_cmd]"
  using register_then_deregister [OF scene_mem_ok, of reg_packet dereg_packet 0]
  by (auto simp: reg_packet_fields pkt_keys_def pkt_cmd_def modem_cmd_def cmd_key_def cmd_code_def Let_def)

text \<open>
  C9. A read from the control channel handles each of the complete packets it holds, in order
  and at its place in the buffer, and nothing of what follows them: neither a rest that is
  shorter than a header nor a packet that is shorter than its header says. Every read is some
  complete packets and such a rest (\<open>packets_and_rest\<close>).
\<close>

theorem control_packets_in_order:
  assumes "xs = concat (map (\<lambda>(c, b). cntl_pkt c b) ps) @ rest" and "incomplete rest"
    and "length xs < 2 ^ 32" and "length xs \<le> cp"
  shows "diag_cntl_recv p (mem_msg xs cp stale) (length xs) s =
    andthen (fold_res (handle_at p (mem_msg xs cp stale) (length xs)) (pkt_starts 0 ps) s) (\<lambda>s. Inr (0, s))"
  by (rule diag_cntl_recv_packets [OF assms])

text \<open>A registration, an unknown packet, and all but the last byte of a deregistration.\<close>

definition reg_bytes :: "u8 list" where
  "reg_bytes = [0, 0, 0, 0, 0x4b, 0, 0x12, 0, 1, 0, 0, 0, 5, 0, 6, 0, 0, 0, 0, 0]"

definition cut_dereg :: "u8 list" where
  "cut_dereg = [27, 0, 0, 0, 14, 0, 0, 0, 0, 0, 0, 0, 0x4b, 0, 0x12, 0, 1, 0, 5, 0, 6]"

theorem control_packets_in_order_witness:
  "let xs = cntl_pkt 1 reg_bytes @ cntl_pkt 99 [1, 2] @ cut_dereg in
   diag_cntl_recv 0 (mem_msg xs 4096 (\<lambda>_. 0xa5)) (length xs) scene =
     Inr (0, scene\<lparr>alloc_no := 1, diag_cmds := [modem_cmd,
       \<lparr>dc_first = 0x4b120005, dc_last = 0x4b120006, dc_peripheral = Some 0, dc_cb = None\<rparr>]\<rparr>)"
proof -
  let ?xs = "cntl_pkt 1 reg_bytes @ cntl_pkt 99 [1, 2] @ cut_dereg"
  let ?m = "mem_msg ?xs 4096 (\<lambda>_. 0xa5)" and ?pkt = "mem_drop 0 (mem_msg ?xs 4096 (\<lambda>_. 0xa5))"
  have xs: "?xs = concat (map (\<lambda>(c, b). cntl_pkt c b) [(1, reg_bytes), (99, [1, 2])]) @ cut_dereg" by simp
  have rest: "incomplete cut_dereg" by (simp add: incomplete_def cut_dereg_def u32_of_def)
  have len: "length ?xs = 59" by (simp add: reg_bytes_def cut_dereg_def)
  have fields: "pk16 ?pkt 12 = 0x4b" "pk16 ?pkt 14 = 0x12" "pk16 ?pkt 16 = 1" "pk16 ?pkt 20 = 5" "pk16 ?pkt 22 = 6"
    by (simp_all add: pk16_def u16_of_def mem_drop_def cntl_pkt_def reg_bytes_def le32_def nth_append nth_Cons')
  have "diag_cntl_register 0 ?pkt scene = Inr (0, scene\<lparr>alloc_no := 1, diag_cmds := [modem_cmd,
       \<lparr>dc_first = 0x4b120005, dc_last = 0x4b120006, dc_peripheral = Some 0, dc_cb = None\<rparr>]\<rparr>)"
    using register_ok [OF scene_mem_ok, of ?pkt 0] fields
    by (simp add: pkt_cmd_def cmd_key_def cmd_code_def CMD_SUBSYS_DISPATCH_def Let_def)
  with control_packets_in_order [OF xs rest, of 4096 0 "\<lambda>_. 0xa5" scene] len show ?thesis
    by (simp add: handle_at_def diag_cntl_handle_def CNTL_CMD_REGISTER_def CNTL_CMD_FEATURE_MASK_def
      CNTL_CMD_DIAG_ID_def CNTL_CMD_DEREGISTER_def)
qed

definition id_packet :: "u8 \<Rightarrow> mem" where
  "id_packet c = mem_of ([33, 0, 0, 0, 12, 0, 0, 0, 1, 0, 0, 0, 0, 0, 0, 0] @ [0x6d, 0x6f, c, 0])"

lemma id_packet_fields:
  "rd32 (id_packet c) 8 = Inr 1" "diag_id_name_at modem (id_packet c) 20 1 = Inr (Some 16)"
  "c \<noteq> 0 \<Longrightarrow> cstr (id_packet c) 16 = Inr [0x6d, 0x6f, c]"
  by (simp_all add: id_packet_def rd32_def mem_of_def u32_of_def diag_id_name_at_def cstr_def upt_conv_Cons
      FEATURE_APPS_HDLC_ENCODE_def FEATURE_DIAG_ID_FEATURE_MASK_def)

text \<open>
  C34. The id of a new name is the one that a peripheral of version 3 brings with it, and else
  the next one of the counter. For an id from 1 to 255, as the table keeps 8 bits of it, and a
  name whose length fits in 8 bits: when the id is free, it is sent back, and the table, extended
  by the name, still has distinct ids and distinct names; when it is not, the packet is refused
  and the table stays as it is, but the counter, where the id came from it, has moved on.
\<close>

theorem new_name_gets_id:
  assumes "mem_ok s" and "perifs s p = Obj perif" and "rd32 pkt 8 = Inr version"
    and "diag_id_name_at perif pkt len version = Inr (Some at)"
    and "cstr pkt at = Inr name" "name_ok name" and "find_diag_id name s = None"
    and "if version < 3 then l = diag_id_static s + 1 else rd32 pkt 12 = Inr l" and "0 < l" "l < 256" and "diag_ids_wf s"
  shows "(\<not> diag_id_exists l s \<longrightarrow> (\<exists>s'. diag_cntl_process_diag_id p pkt len s = Inr (0, s') \<and> diag_ids_wf s' \<and>
      diag_ids s' = diag_ids s @ [diag_id_entry_for (ucast l) name] \<and> diag_id_static s' = l \<and>
      queues s' = (queues s)(PerifCntlq p := queues s (PerifCntlq p) @
        [mbuf_for (diag_id_response l name (length name + 1)) None]))) \<and>
    (diag_id_exists l s \<longrightarrow>
      diag_cntl_process_diag_id p pkt len s = Inr (- EINVAL, if version < 3 then s\<lparr>diag_id_static := l\<rparr> else s))"
proof -
  have "diag_cntl_process_diag_id p pkt len s =
      Inr (0, pushed (PerifCntlq p) (diag_id_response l name (length name + 1)) None
        (bump 2 (s\<lparr>diag_id_static := l, diag_ids := diag_ids s @ [diag_id_entry_for (ucast l) name]\<rparr>)))"
    if free: "\<not> diag_id_exists l s"
  proof (cases "version < 3")
    case True
    with assms(8) have "l = diag_id_static s + 1" by simp
    then show ?thesis by (rule process_diag_id_new [OF assms(1-3) True assms(4-7) _ assms(9,10) free])
  next
    case False
    with assms(8) have "3 \<le> version" "rd32 pkt 12 = Inr l" by (simp_all add: not_less)
    then show ?thesis by (intro process_diag_id_brought [OF assms(1-3) _ assms(4-7) _ assms(9,10) free])
  qed
  then show ?thesis
    using diag_ids_wf_append [OF assms(11,6,7,9,10)] process_diag_id_taken [OF assms(2-5,7,8)]
    by (auto simp: diag_ids_wf_def)
qed

theorem new_name_gets_id_witness:
  "(\<exists>s'. diag_cntl_process_diag_id 0 (id_packet 0x65) 20 scene = Inr (0, s') \<and> diag_ids_wf s' \<and>
     diag_ids s' = diag_ids scene @ [diag_id_entry_for 3 [0x6d, 0x6f, 0x65]]) \<and>
   diag_cntl_process_diag_id 0 (id_packet 0x65) 20 (scene\<lparr>diag_id_static := 1\<rparr>) =
     Inr (- EINVAL, scene\<lparr>diag_id_static := 2\<rparr>)"
proof -
  let ?name = "[0x6d, 0x6f, 0x65] :: u8 list"
  have ids: "find_diag_id ?name (scene\<lparr>diag_id_static := k\<rparr>) = None" "diag_ids_wf (scene\<lparr>diag_id_static := k\<rparr>)"
    "diag_id_exists 2 (scene\<lparr>diag_id_static := k\<rparr>)" "\<not> diag_id_exists 3 (scene\<lparr>diag_id_static := k\<rparr>)" for k
    by (simp_all add: find_diag_id_def diag_id_entry_for_def c_string_def diag_ids_wf_def diag_id_exists_def)
  have ok: "mem_ok (scene\<lparr>diag_id_static := k\<rparr>)" "perifs (scene\<lparr>diag_id_static := k\<rparr>) 0 = Obj modem" for k
    by (simp_all add: mem_ok_def)
  have name: "name_ok ?name" by (simp add: name_ok_def)
  have pkt: "rd32 (id_packet 0x65) 8 = Inr 1" "diag_id_name_at modem (id_packet 0x65) 20 1 = Inr (Some 16)"
    "cstr (id_packet 0x65) 16 = Inr ?name"
    by (simp_all add: id_packet_fields)
  have same: "scene\<lparr>diag_id_static := 2\<rparr> = scene" by (simp add: scene_def)
  have next_id: "if (1 :: u32) < 3 then k + 1 = diag_id_static (scene\<lparr>diag_id_static := k\<rparr>) + 1 else rd32 (id_packet 0x65) 12 = Inr (k + 1)"
    for k by simp
  have "(\<exists>s'. diag_cntl_process_diag_id 0 (id_packet 0x65) 20 scene = Inr (0, s') \<and> diag_ids_wf s' \<and>
      diag_ids s' = diag_ids scene @ [diag_id_entry_for (ucast (2 + 1 :: u32)) ?name])"
    using new_name_gets_id [OF ok pkt name ids(1) next_id _ _ ids(2), of 2] ids(4) [of 2] unfolding same by auto
  moreover have "diag_cntl_process_diag_id 0 (id_packet 0x65) 20 (scene\<lparr>diag_id_static := 1\<rparr>) =
      Inr (- EINVAL, scene\<lparr>diag_id_static := 1 + 1\<rparr>)"
    using new_name_gets_id [OF ok pkt name ids(1) next_id _ _ ids(2), of 1] ids(3) [of 1] by simp
  ultimately show ?thesis by auto
qed

section \<open>Requests\<close>

text \<open>
  C19. Setting the event mask stores the bits that the request carries, announces the new
  mask on the control channel of every peripheral, and answers the client with the mask it
  sent.
\<close>

theorem event_mask_set_announced:
  fixes s :: "'z cntl_state_scheme"
  assumes "masks_ready s" and "c < length (clients s)"
    and "pk16 req 4 = n" "len = 6 + bits_to_bytes16 n" "len \<le> cap req"
    and "rd_bytes req 6 (bits_to_bytes16 n) = Inr bits"
  shows "\<exists>s'. handle_event_set_mask (Some c) req len s = Inr (0, s') \<and> masks_ready s' \<and>
    clients s' = clients s \<and> event_max_num_bits s' = max n (event_max_num_bits s) \<and>
    event_view s' = (\<lambda>i. if i < length bits then Some (bits ! i) else event_view s i) \<and>
    (\<forall>q. queues s' q = queues s q @ announced s (event_mask_packet s') (peripherals s) q @
       replied s c ([byte req 0, 0, byte req 2, byte req 3] @ le16 n @ bits) q)"
  using handle_event_set_mask_ok [OF assms] by blast

definition event_request :: mem where
  "event_request = mem_of [0x82, 0, 0, 0, 16, 0, 0x12, 0x34]"

lemma event_request_fields:
  "cap event_request = 8" "pk16 event_request 4 = 16" "rd_bytes event_request 6 2 = Inr [0x12, 0x34]"
  "byte event_request 0 = 0x82" "byte event_request 2 = 0" "byte event_request 3 = 0"
  by (simp_all add: event_request_def mem_of_def pk16_def u16_of_def rd_bytes_def upt_rec)

lemma bits16_16: "bits_to_bytes16 16 = 2"
  by (simp add: bits_to_bytes16_def)

theorem event_mask_set_announced_witness:
  "\<exists>s'. handle_event_set_mask (Some 0) event_request 8 scene = Inr (0, s') \<and> event_view s' 1 = Some 0x34 \<and>
    queues s' (PerifCntlq 0) = [mbuf_for (event_mask_packet s') None] \<and>
    queues s' (ClientOutq 0) = [mbuf_for [0x82, 0, 0, 0, 16, 0, 0x12, 0x34] None]"
  using event_mask_set_announced [of scene 0 event_request 16 8 "[0x12, 0x34]"]
  by (auto simp: event_request_fields bits16_16 announced_def replied_def client_encode_def le16_def)




text \<open>
  C40. Switching all message masks to a level that is not zero dereferences a null pointer as
  soon as any peripheral has a control channel: the broadcast is given no range.
\<close>

theorem set_all_masks_crashes:
  fixes s :: "'z cntl_state_scheme"
  assumes "masks_ready s" and "rd32 req 3 = Inr w" "7 \<le> cap req" and "w \<noteq> 0"
    and "p \<in> set (peripherals s)" "perifs s p = Obj perif" "p_cntl_fd perif \<noteq> -1"
  shows "msg_set_all client req 7 s = Inl NullDeref"
  by (rule msg_set_all_null [OF assms])

theorem set_all_masks_crashes_witness:
  "msg_set_all (Some 0) (mem_of [0x7d, 5, 0, 31, 0, 0, 0]) 7 scene = Inl NullDeref"
  by (rule set_all_masks_crashes [where w = 31 and p = 0 and perif = modem])
    (simp_all add: rd32_def mem_of_def u32_of_def)

section \<open>Dispatch\<close>

text \<open>
  C11. A command that is not one of the router's own is forwarded, whole and in the encoding
  of the receiver, to every peripheral that registered it, once for each registration and in
  the order of registration.
\<close>

theorem registered_commands_forwarded:
  fixes s :: "'z router_state_scheme"
  assumes "dispatch_key ptr = Inr key" and "List.find (matches key) (common_cmds s) = None"
    and "filter (matches key) (diag_cmds s) \<noteq> []" and "mem_ok s" and "cmds_live s"
    and "rd_bytes ptr 0 len = Inr msg"
  shows "\<exists>s'. diag_client_handle_command client ptr len s = Inr (0, s') \<and>
    (\<forall>q. queues s' q = queues s q @ forwarded s msg (filter (matches key) (diag_cmds s)) q)"
  using dispatch_registered [OF assms, of client] by (auto simp: diag_client_handle_command_def errno_defs)

definition subsys_request :: mem where
  "subsys_request = mem_of [75, 50, 7, 0, 0xee]"

lemma subsys_request_fields:
  "dispatch_key subsys_request = Inr 0x4b320007" "rd_bytes subsys_request 0 5 = Inr [75, 50, 7, 0, 0xee]"
  by (simp_all add: subsys_request_def dispatch_key_def rd8_def rd_bytes_mem_of)

lemma no_common_subsys: "List.find (matches 0x4b320007) common_table = None"
  by (simp add: common_table_def)

theorem registered_commands_forwarded_witness:
  "\<exists>s'. diag_client_handle_command (Some 0) subsys_request 5 scene = Inr (0, s') \<and>
    queues s' (PerifDataq 0) = [mbuf_for [75, 50, 7, 0, 0xee] None] \<and> queues s' (ClientOutq 0) = []"
  using registered_commands_forwarded [OF subsys_request_fields(1), of scene 5 "[75, 50, 7, 0, 0xee]" "Some 0"]
  by (auto simp: no_common_subsys subsys_request_fields matches_def modem_cmd_def forwarded_def forwarded_one_def
      perif_queue_def perif_encode_def has_feature_def FEATURE_APPS_HDLC_ENCODE_def FEATURE_REQ_RSP_SUPPORT_def)

text \<open>
  C35. A command that nobody knows is answered to its sender: the error code for a bad command,
  followed by the command as it was sent. Nothing else is put on any queue.
\<close>

theorem unknown_command_answered:
  fixes s :: "'z router_state_scheme"
  assumes "dispatch_key ptr = Inr key" and "List.find (matches key) (common_cmds s) = None"
    and "filter (matches key) (diag_cmds s) = []" and "List.find (matches key) (fallback_cmds s) = None"
    and "dm_wf s" and "c < length (clients s)" and "rd_bytes ptr 0 len = Inr msg"
  shows "\<exists>s'. diag_client_handle_command (Some c) ptr len s = Inr (0, s') \<and>
    (\<forall>q. queues s' q = queues s q @ replied s c (0x13 # msg) q)"
  using handle_command_unknown [OF assms] by (simp add: BAD_COMMAND_def)

theorem unknown_command_answered_witness:
  "\<exists>s'. diag_client_handle_command (Some 0) (mem_of [99, 1]) 2 scene = Inr (0, s') \<and>
    queues s' (ClientOutq 0) = [mbuf_for [0x13, 99, 1] None] \<and> queues s' (PerifDataq 0) = []"
proof -
  have "dispatch_key (mem_of [99, 1]) = Inr 0xffff0063" "rd_bytes (mem_of [99, 1]) 0 2 = Inr [99, 1]"
    by (simp_all add: dispatch_key_def rd8_def rd_bytes_mem_of)
  from unknown_command_answered [OF this(1), of scene 0 2 "[99, 1]"] this(2) show ?thesis
    by (auto simp: common_table_def fallback_table_def matches_def modem_cmd_def own_cmd_def replied_def client_encode_def)
qed

text \<open>
  C8. An event mask that one client sets through the dispatcher is in force: the answer to the
  next request for the mask, from any client, starts with its bits.
\<close>

theorem event_mask_visible_to_all:
  fixes s :: "'z router_state_scheme"
  assumes "masks_ready s" and "common_cmds s = common_table"
    and "c < length (clients s)" and "d < length (clients s)"
    and "byte req 0 = 0x82" "len = 6 + bits_to_bytes16 (pk16 req 4)" "len \<le> cap req"
      "rd_bytes req 6 (bits_to_bytes16 (pk16 req 4)) = Inr bits"
    and "byte req' 0 = 0x81" "4 \<le> cap req'"
  shows "\<exists>s1 s2 tl. diag_client_handle_command (Some c) req len s = Inr (0, s1) \<and>
    diag_client_handle_command (Some d) req' 4 s1 = Inr (0, s2) \<and>
    (\<forall>q. queues s2 q = queues s1 q @
       replied s d ([0x81, 0, byte req' 2, byte req' 3] @ le16 (max (pk16 req 4) (event_max_num_bits s)) @ bits @ tl) q)"
  using set_then_get_event_mask [OF assms] by blast

theorem event_mask_visible_to_all_witness:
  "\<exists>s1 s2 tl. diag_client_handle_command (Some 0) event_request 8 scene = Inr (0, s1) \<and>
    diag_client_handle_command (Some 1) (mem_of [0x81, 0, 0, 0]) 4 s1 = Inr (0, s2) \<and>
    queues s2 (ClientOutq 1) = queues s1 (ClientOutq 1) @
      [mbuf_for (hdlc_encode_bytes ([0x81, 0, 0, 0, 0x3f, 0x0b, 0x12, 0x34] @ tl)) None]"
proof -
  from event_mask_visible_to_all [of scene 0 1 event_request 8 "[0x12, 0x34]" "mem_of [0x81, 0, 0, 0]"]
  obtain s1 s2 tl where "diag_client_handle_command (Some 0) event_request 8 scene = Inr (0, s1)"
    "diag_client_handle_command (Some 1) (mem_of [0x81, 0, 0, 0]) 4 s1 = Inr (0, s2)"
    "queues s2 (ClientOutq 1) = queues s1 (ClientOutq 1) @
       replied scene 1 ([0x81, 0, 0, 0] @ le16 0x0b3f @ [0x12, 0x34] @ tl) (ClientOutq 1)"
    by (auto simp: event_request_fields bits16_16 mem_of_def max_def)
  moreover have "le16 0x0b3f = [0x3f, 0x0b]" by (simp add: le16_def)
  ultimately show ?thesis by (auto simp: replied_def client_encode_def encode_type_defs)
qed

text \<open>
  C13. Closing a peripheral removes every reference that the router holds to it: it leaves the
  list, its watches and its commands go, the object is released, and every command that
  remains belongs to an object that is there, so that no later command is forwarded to it.
\<close>

theorem close_leaves_no_reference:
  assumes "cmds_live s" and "perifs s p = Obj perif" and "p_ops perif = RpmsgOps" and "perifs_wf s"
  shows "\<exists>s'. peripheral_close p s = Inr s' \<and> cmds_live s' \<and> perifs_wf s' \<and> perifs s' = (perifs s)(p := Freed) \<and>
    peripherals s' = filter (\<lambda>x. x \<noteq> p) (peripherals s) \<and>
    diag_cmds s' = filter (\<lambda>dc. dc_peripheral dc \<noteq> Some p) (diag_cmds s) \<and>
    (\<forall>w \<in> set (read_watches s') \<union> set (aio_watches s').
       w_fd w \<notin> {p_data_fd perif, p_cntl_fd perif, p_cmd_fd perif})"
  using rpmsg_close_ok [OF assms(2-4)] cmds_live_close [OF assms] by auto

theorem close_leaves_no_reference_witness:
  "\<exists>s'. peripheral_close 0 scene = Inr s' \<and> cmds_live s' \<and> peripherals s' = [] \<and> diag_cmds s' = []"
  using close_leaves_no_reference [OF scene_cmds_live, of 0 modem]
  by (auto simp: modem_cmd_def)

text \<open>
  C36. The table of ids is copied into the answer entry after entry as long as it fits; when
  the entries that are copied end beyond the 16384 bytes of the buffer, and none of them ends
  exactly there, the buffer is overrun.
\<close>

theorem diag_ids_copied:
  assumes "\<forall>e \<in> set es. entry_wf e" and "length resp = DIAG_MAX_RSP_SIZE" and "k \<le> DIAG_MAX_RSP_SIZE"
    and "\<forall>j \<le> length es. k + length (ids_payload (take j es)) \<noteq> DIAG_MAX_RSP_SIZE"
  shows "copy_diag_ids es n k resp =
    (if k + length (ids_payload es) \<le> DIAG_MAX_RSP_SIZE
     then Inr (n + length es, k + length (ids_payload es),
               take k resp @ ids_payload es @ drop (k + length (ids_payload es)) resp)
     else Inl OobWrite)"
  using copy_diag_ids_ok [OF assms(1,2), of k n] copy_diag_ids_overrun [OF assms(1-3) _ assms(4), of n] by auto

theorem diag_ids_copied_witness:
  "copy_diag_ids (replicate 100 (diag_id_entry_for 1 (replicate 200 0x61))) 0 6 (replicate 16384 0) = Inl OobWrite"
proof -
  let ?e = "diag_id_entry_for 1 (replicate 200 0x61)"
  have e: "length (diag_id_info ?e) = 203" by (simp add: diag_id_info_def diag_id_entry_for_def)
  have len: "length (ids_payload (replicate j ?e)) = 203 * j" for j
    by (induction j) (simp_all add: ids_payload_def e)
  have "6 + 203 * j \<noteq> (16384 :: nat)" for j by presburger
  moreover have "entry_wf ?e" by (simp add: entry_wf_def diag_id_entry_for_def)
  ultimately show ?thesis
    using diag_ids_copied [of "replicate 100 ?e" "replicate 16384 0" 6 0]
    by (auto simp: len DIAG_MAX_RSP_SIZE_def min_def)
qed

section \<open>The router from its start on\<close>

text \<open>
  C4. When memory does not run out, the descriptor named by the options opens, and so do the
  UNIX socket and the QRTR sockets, \<^verbatim>\<open>main\<close> reaches its event loop, whatever USB offers and
  whatever udev enumerates; there the mask tables, the clients and the peripherals are
  well-formed, and the handlers of the router's own commands are registered.
\<close>

theorem start_ready:
  assumes "initial s" and "mem_ok s" and "parse_opts opts config_default = Some cfg" and "env_opens cfg env"
  shows "\<exists>s'. diag_main opts env s = Inr s' \<and> masks_ready s' \<and> cmds_live s' \<and> common_cmds s' = common_table \<and>
    fallback_cmds s' = fallback_table"
  by (rule main_boots [OF assms])

theorem start_ready_witness:
  "\<exists>s'. diag_main [] plain_env start = Inr s' \<and> masks_ready s' \<and> common_cmds s' = common_table"
  using start_ready [OF start_initial plain_env_opens] by blast

text \<open>
  C5. The tables of masks stay in place through any number of turns of the event loop, with
  whatever clients, peripherals and the kernel deliver: every log mask, the event mask and
  the build mask keep their invariants, and the message masks keep the ids of their entries
  and an object for each.
\<close>

theorem tables_stay_in_place:
  assumes "initial s" and "mem_ok s" and "parse_opts opts config_default = Some cfg" and "env_opens cfg env"
    and "router_main opts env decode tns s = Inr (r, s')"
  shows "log_masks_wf s' \<and> event_masks_wf s' \<and> build_masks_wf s' \<and>
    (\<exists>tbl. mi_ptr (msg_mask s') = Obj tbl \<and> msg_table_kept tbl)"
  using tables_main [OF assms] by (simp add: tables_wf_def)

theorem tables_stay_in_place_witness:
  "\<exists>s'. router_main [] plain_env (\<lambda>_. Inl (-1)) [] start = Inr (True, s') \<and> log_masks_wf s' \<and> event_masks_wf s'"
proof -
  obtain t where "diag_main [] plain_env start = Inr t"
    using main_boots [OF start_initial plain_env_opens] by blast
  then have "router_main [] plain_env (\<lambda>_. Inl (-1)) [] start = Inr (True, t)" by (simp add: router_main_def)
  with tables_stay_in_place [OF start_initial plain_env_opens this] show ?thesis by blast
qed

text \<open>
  C7. Flow control never loses count: in every state that the program reaches, the count of
  a flow covers every message of the flow that waits on a client's queue or is being written,
  so that a completed write always finds a count above zero.
\<close>

theorem flow_counts_cover:
  fixes s :: "'z usb_state_scheme"
  assumes "initial s" and "router_main opts env decode tns s = Inr (r, s')"
  shows "int (outstanding f s') \<le> flows s' f \<and>
    (\<forall>w m. w \<in> set (aio_watches s') \<and> w_pending w = Some m \<and> m_flow m = Some f \<longrightarrow> 0 < flows s' f)"
proof -
  have inv: "flow_inv s'" by (rule flow_inv_main [OF assms])
  then show ?thesis using pending_counted [OF inv] by (auto simp: flow_inv_def)
qed

theorem flow_counts_cover_witness:
  "\<exists>s'. router_main [] plain_env (\<lambda>_. Inl (-1)) [] start = Inr (True, s') \<and> int (outstanding 0 s') \<le> flows s' 0"
proof -
  obtain t where "diag_main [] plain_env start = Inr t"
    using main_boots [OF start_initial plain_env_opens] by blast
  then have "router_main [] plain_env (\<lambda>_. Inl (-1)) [] start = Inr (True, t)" by (simp add: router_main_def)
  with flow_counts_cover [OF start_initial(1) this, of 0] show ?thesis by blast
qed

text \<open>
  C15. A client of raw messages that closes its connection blocks the peripherals for good: it
  stays enabled while nothing writes its queue any more, when the watches that wrote it were on
  the descriptor that it reads from, as they are for a socket. So more than ten messages of a
  flow block that flow in every state the event loop reaches afterwards. Only raw clients lose
  their watches: for the others \<^verbatim>\<open>circ_read\<close> does not tell the end of the data from a pause.
\<close>

theorem gone_client_blocks_flow:
  fixes s :: "'z usb_state_scheme"
  assumes "dm_wf s" and "flow_inv s" and "f < next_flow s"
    and "c < length (clients s)" and "cl_encode_type (clients s ! c) = DIAG_ENCODE_RAW" and "cl_enabled (clients s ! c)"
    and "\<forall>w \<in> set (aio_watches s). w_queue w = Some (ClientOutq c) \<longrightarrow> w_fd w = cl_in_fd (clients s ! c)"
    and "dm_recv (Some c) [Eof] s = Inr (0, [Eof], t)"
    and "fold_res (\<lambda>msg. dm_broadcast msg (Some f)) msgs t = Inr u" and "10 < length msgs"
    and "watch_run decode tns u = Inr (r, v)"
  shows "watch_flow_blocked (Some f) v"
  by (rule gone_client_blocks [OF assms])

theorem gone_client_blocks_flow_witness:
  "\<exists>t u. dm_recv (Some 0) [Eof] scene = Inr (0, [Eof], t) \<and>
    fold_res (\<lambda>msg. dm_broadcast msg (Some 0)) (replicate 11 [0x79]) t = Inr u \<and> watch_flow_blocked (Some 0) u"
proof -
  have c: "0 < length (clients scene)" "cl_encode_type (clients scene ! 0) = DIAG_ENCODE_RAW" "cl_enabled (clients scene ! 0)"
    by simp_all
  obtain t where t: "dm_recv (Some 0) [Eof] scene = Inr (0, [Eof], t)" "dm_wf t"
    using disconnect_abandons [OF c(1,2)] by auto
  have "\<exists>u. fold_res (\<lambda>msg. dm_broadcast msg (Some 0)) (replicate n [0x79]) t = Inr u \<and> dm_wf u" for n
    using t(2)
  proof (induction n arbitrary: t)
    case (Suc n)
    from dm_broadcast_ok [OF Suc.prems, of "[0x79]" "Some 0"] Suc.IH show ?case by fastforce
  qed simp
  then obtain u where u: "fold_res (\<lambda>msg. dm_broadcast msg (Some 0)) (replicate 11 [0x79]) t = Inr u" by blast
  have "watch_flow_blocked (Some 0) u"
    by (rule gone_client_blocks_flow [OF scene_dm_wf scene_flow_inv(1) _ c _ t(1) u, where decode = "\<lambda>_. Inl (-1)" and tns = "[]"])
      (simp_all add: scene_flow_inv)
  with t(1) u show ?thesis by blast
qed

text \<open>
  C14. Back pressure works: a turn of the event loop asks nothing of a descriptor all of whose
  watches have a blocked flow, so whatever there is to be read from it makes no difference.
\<close>

theorem blocked_not_read:
  assumes "\<And>fd. an fd \<noteq> tn_answers tn fd \<Longrightarrow>
    \<forall>w \<in> set (read_watches s). w_fd w = fd \<longrightarrow> watch_flow_blocked (w_flow w) s"
  shows "watch_turn decode (tn\<lparr>tn_answers := an\<rparr>) s = watch_turn decode tn s"
  by (rule turn_answers [OF assms])

definition data_watch :: watch where
  "data_watch = watch_zero\<lparr>w_addr := 100, w_fd := 21, w_cb := Some (CbRpmsgData 0), w_flow := Some 0\<rparr>"

definition cntl_watch :: watch where
  "cntl_watch = watch_zero\<lparr>w_addr := 99, w_fd := 20, w_cb := Some (CbRpmsgCntl 0)\<rparr>"

definition ready_turn :: "(int \<Rightarrow> nat \<Rightarrow> answers) \<Rightarrow> int list \<Rightarrow> turn" where
  "ready_turn an fds =
     \<lparr>tn_clock = (2000, 0), tn_submit = (\<lambda>_. True), tn_select = SelReady fds False, tn_events = None,
      tn_answers = an, tn_open = (\<lambda>_. -1)\<rparr>"

theorem blocked_not_read_witness:
  "\<exists>s :: usb_state. read_watches s = [cntl_watch, data_watch] \<and> watch_flow_blocked (Some 0) s \<and>
    watch_turn (\<lambda>_. Inl (-1)) (ready_turn (\<lambda>fd a. if fd = 21 then no_answers\<lparr>an_reads := [Data [0x7e]]\<rparr> else no_answers) [21]) s =
    watch_turn (\<lambda>_. Inl (-1)) (ready_turn (\<lambda>fd a. no_answers) [21]) s"
proof -
  let ?s = "scene\<lparr>read_watches := [cntl_watch, data_watch], flows := (\<lambda>_. 11)\<rparr>"
  let ?an = "\<lambda>fd a. if fd = 21 then no_answers\<lparr>an_reads := [Data [0x7e]]\<rparr> else no_answers"
  have "watch_turn (\<lambda>_. Inl (-1)) (ready_turn (\<lambda>fd a. no_answers) [21] \<lparr>tn_answers := ?an\<rparr>) ?s =
      watch_turn (\<lambda>_. Inl (-1)) (ready_turn (\<lambda>fd a. no_answers) [21]) ?s"
  proof (rule blocked_not_read)
    fix fd
    assume "?an fd \<noteq> tn_answers (ready_turn (\<lambda>fd a. no_answers) [21]) fd"
    then have "fd = 21" by (auto simp: ready_turn_def fun_eq_iff split: if_splits)
    then show "\<forall>w \<in> set (read_watches ?s). w_fd w = fd \<longrightarrow> watch_flow_blocked (w_flow w) ?s"
      by (simp add: cntl_watch_def data_watch_def watch_flow_blocked_def FLOW_WATERMARK_def)
  qed
  then show ?thesis
    by (intro exI [of _ ?s]) (simp add: ready_turn_def watch_flow_blocked_def FLOW_WATERMARK_def)
qed

text \<open>
  C30. A control channel that fails crashes the router: the callback closes the peripheral and
  frees its watches, among them the one that the walk over the table visits next.
\<close>

theorem lost_control_channel_crashes:
  assumes "read_watches s = ws @ wc # wd # vs" and "read_wf s"
    and "\<forall>w \<in> set (aio_watches s). w_queue w \<noteq> None"
    and "perifs s p = Obj perif" and "p_ops perif = RpmsgOps"
    and "w_cb wc = Some (CbRpmsgCntl p)" and "w_fd wc = p_cntl_fd perif" and "w_flow wc = None"
    and "w_fd wd = p_data_fd perif" and "\<forall>w \<in> set ws. w_fd w \<noteq> p_cntl_fd perif"
    and "tn_select tn = SelReady [p_cntl_fd perif] False"
    and "an_reads (tn_answers tn (p_cntl_fd perif) (w_addr wc)) = [Fail e]" and "e \<noteq> EAGAIN"
  shows "watch_turn decode tn s = Inl UseAfterFree"
  by (rule close_in_turn [OF assms])

theorem lost_control_channel_crashes_witness:
  "watch_turn (\<lambda>_. Inl (-1)) (ready_turn (\<lambda>fd a. no_answers\<lparr>an_reads := [Fail EIO]\<rparr>) [20])
     (scene\<lparr>read_watches := [cntl_watch, data_watch]\<rparr>) = Inl UseAfterFree"
  by (rule lost_control_channel_crashes [where ws = "[]" and wc = cntl_watch and wd = data_watch and vs = "[]" and p = 0
        and perif = modem and e = EIO])
    (simp_all add: read_wf_def cntl_watch_def data_watch_def watch_zero_def FD_SETSIZE_def ready_turn_def errno_defs)

text \<open>
  C32. Two announcements of a server crash the router: each adds a watch that writes to the
  command socket, and when the request of the first has finished, the second one, for which
  nothing is pending, takes the event for its own and fails the assertion.
\<close>

theorem second_server_asserts:
  assumes "mem_ok s" and "perifs s p = Obj perif"
    and "decode bs = Inr pkt" and "qp_type pkt = QrtrNewServer" and "\<not> (qp_node pkt = 0 \<and> qp_port pkt = 0)"
    and "distinct (map w_addr (aio_watches s))"
    and "\<forall>w \<in> set (aio_watches s). w_addr w < alloc_no s \<and> w_queue w \<noteq> None \<and> w_queue w \<noteq> Some (PerifCmdq p) \<and>
      w_fd w \<noteq> p_cmd_fd perif"
    and "queues s (PerifCmdq p) = []" and "res \<noteq> - EAGAIN"
  shows "andthen (qrtr_cmd_recv decode True p (Recv bs) s) (\<lambda>(_, t).
         andthen (qrtr_cmd_recv decode True p (Recv bs) t) (\<lambda>(_, t).
         andthen (queue_push (PerifCmdq p) msg t) (\<lambda>t.
         andthen (watch_poll (\<lambda>_. True) t) (\<lambda>t.
           watch_handle_eventfd (walk_fuel t) (Some [\<lparr>ev_watch = alloc_no s, ev_res = res, ev_data = []\<rparr>]) t)))) =
    Inl AssertFailed"
  using two_servers_assert [where s = s and p = p and perif = perif and decode = decode and bs = bs and pkt = pkt and res = res and msg = msg]
    assms by blast

definition new_server :: qrtr_packet where
  "new_server = \<lparr>qp_type = QrtrNewServer, qp_node = 1, qp_port = 77, qp_data = 0, qp_len = 0\<rparr>"

theorem second_server_asserts_witness:
  "andthen (qrtr_cmd_recv (\<lambda>_. Inr new_server) True 0 (Recv [4]) scene) (\<lambda>(_, t).
   andthen (qrtr_cmd_recv (\<lambda>_. Inr new_server) True 0 (Recv [4]) t) (\<lambda>(_, t).
   andthen (queue_push (PerifCmdq 0) [1, 2] t) (\<lambda>t.
   andthen (watch_poll (\<lambda>_. True) t) (\<lambda>t.
     watch_handle_eventfd (walk_fuel t) (Some [\<lparr>ev_watch = 0, ev_res = 2, ev_data = []\<rparr>]) t)))) = Inl AssertFailed"
  using second_server_asserts [of scene 0 modem "\<lambda>_. Inr new_server" "[4]" new_server 2 "[1, 2]"]
  by (simp add: new_server_def errno_defs)

text \<open>
  C31. A client of raw messages that closes its connection while a message to it is in flight
  crashes the router, when some other descriptor has a watch for asynchronous transfers: the
  control block of the request is freed with the client's watch, and read when the request has
  finished and is looked for among the watches that are left.
\<close>

theorem disconnect_in_flight_crashes:
  assumes "c < length (clients s)" and "cl_encode_type (clients s ! c) = DIAG_ENCODE_RAW"
    and "w \<in> set (aio_watches s)" and "w_fd w = cl_in_fd (clients s ! c)" and "distinct (map w_addr (aio_watches s))"
    and "v \<in> set (aio_watches s)" and "w_fd v \<noteq> cl_in_fd (clients s ! c)"
    and "ev_watch ev = w_addr w" and "0 < fuel"
  shows "andthen (dm_recv (Some c) [Eof] s) (\<lambda>(_, _, t). watch_handle_eventfd fuel (Some (ev # evs)) t) = Inl UseAfterFree"
  by (rule disconnect_in_flight [OF assms])

theorem disconnect_in_flight_crashes_witness:
  "\<exists>s :: usb_state. map w_queue (aio_watches s) = [Some (ClientOutq 0), Some (ClientOutq 1)] \<and>
    andthen (dm_recv (Some 0) [Eof] s)
      (\<lambda>(_, _, t). watch_handle_eventfd 8 (Some [\<lparr>ev_watch = 50, ev_res = 2, ev_data = []\<rparr>]) t) = Inl UseAfterFree"
proof -
  let ?w = "watch_zero\<lparr>w_addr := 50, w_fd := 10, w_queue := Some (ClientOutq 0), w_complete := Some AioFreeWrite,
    w_is_write := True, w_pending := Some (mbuf_for [1, 2] None)\<rparr>"
  let ?v = "watch_zero\<lparr>w_addr := 51, w_fd := 11, w_queue := Some (ClientOutq 1), w_complete := Some AioFreeWrite,
    w_is_write := True\<rparr>"
  let ?s = "scene\<lparr>aio_watches := [?w, ?v]\<rparr>"
  show ?thesis
    by (rule exI [of _ ?s])
      (use disconnect_in_flight_crashes [of 0 ?s ?w ?v "\<lparr>ev_watch = 50, ev_res = 2, ev_data = []\<rparr>" 8 "[]"]
        in \<open>simp add: watch_zero_def\<close>)
qed

section \<open>What peripherals send\<close>

text \<open>
  C2. The data channel loses nothing: however its bytes are cut into reads, one call sends the
  messages that are complete to every enabled client, in order and each in the client's
  encoding, and the receiver keeps the bytes that follow them for the next call. These are all
  complete messages, unless the bytes end exactly at the end of the ring's array: then the last
  read has filled it, and what that read brought is decoded in the next call only
  (\<open>full_read_waits\<close>).
\<close>

theorem peripheral_messages_in_order:
  assumes "perifs s p = Obj perif" and "\<not> has_feature perif FEATURE_APPS_HDLC_ENCODE"
    and "rx_holds perif held" and "dm_wf s"
    and "held @ concat bss = concat (map hdlc_encode_bytes ms) @ left" and "0x7e \<notin> set left"
    and "\<forall>m \<in> set ms. sendable m" and "length left \<le> HDLC_BUF_SIZE"
  shows "\<exists>s' perif' ms1 ms2. diag_data_recv p (map Data bss) s = Inr (0, [], s') \<and> ms = ms1 @ ms2 \<and>
    perifs s' = (perifs s)(p := Obj perif') \<and> rx_holds perif' (concat (map hdlc_encode_bytes ms2) @ left) \<and>
    dm_wf s' \<and> clients s' = clients s \<and>
    (\<forall>q. queues s' q = queues s q @ delivered_all (clients s) ms1 (p_flow perif) q) \<and>
    (\<not> array_end (p_recv_buf perif) (length (concat bss)) \<longrightarrow> ms1 = ms \<and> ms2 = [])"
proof -
  from diag_data_recv_stream [OF assms] obtain s' perif' ms1 ms2 where
    "diag_data_recv p (map Data bss) s = Inr (0, [], s')" "ms = ms1 @ ms2"
    "perifs s' = (perifs s)(p := Obj perif')" "rx_holds perif' (concat (map hdlc_encode_bytes ms2) @ left)"
    "dm_wf s'" "clients s' = clients s"
    "\<forall>q. queues s' q = queues s q @ delivered_all (clients s) ms1 (p_flow perif) q"
    "\<not> array_end (p_recv_buf perif) (length (concat bss)) \<longrightarrow> ms2 = []"
    by blast
  then show ?thesis by (intro exI [of _ s'] exI [of _ perif'] exI [of _ ms1] exI [of _ ms2]) simp
qed

definition hdlc_modem :: peripheral where
  "hdlc_modem = modem\<lparr>p_features := 0\<rparr>"

theorem peripheral_messages_in_order_witness:
  "let bs = hdlc_encode_bytes [7, 8] @ hdlc_encode_bytes [9] in
   \<exists>s' perif'. diag_data_recv 0 (map Data [take 2 bs, drop 2 bs @ [9]]) (set_perif 0 hdlc_modem scene) = Inr (0, [], s') \<and>
    rx_holds perif' [9] \<and> perifs s' 0 = Obj perif' \<and>
    queues s' (ClientOutq 0) = delivered_all [raw_client, hdlc_client] [[7, 8], [9]] (Some 0) (ClientOutq 0)"
proof -
  let ?bs = "hdlc_encode_bytes [7, 8] @ hdlc_encode_bytes [9]" and ?s = "set_perif 0 hdlc_modem scene"
  have len: "length (hdlc_encode_bytes [7, 8]) \<le> 9" "length (hdlc_encode_bytes [9]) \<le> 7"
    using length_hdlc_encode_bytes [of "[7, 8]"] length_hdlc_encode_bytes [of "[9]"] by simp_all
  have rx: "rx_holds hdlc_modem []" "head (p_recv_buf hdlc_modem) = 0"
    by (simp add: hdlc_modem_def modem_def rx_holds_def circ_settled_def circ_empty_inv)
      (simp add: hdlc_modem_def modem_def circ_empty_def)
  have cut: "concat [take 2 xs, drop 2 xs @ ys] = xs @ ys" for xs ys :: "u8 list"
    by (simp flip: append_assoc)
  have bytes: "[] @ concat [take 2 ?bs, drop 2 ?bs @ [9]] = concat (map hdlc_encode_bytes [[7, 8], [9]]) @ [9]"
    unfolding cut by simp
  have "\<not> array_end (p_recv_buf hdlc_modem) (length (concat [take 2 ?bs, drop 2 ?bs @ [9]]))"
    unfolding array_end_def rx(2) cut using len by (simp add: HDLC_BUF_SIZE_def)
  with peripheral_messages_in_order [OF _ _ rx(1) _ bytes, of ?s 0] show ?thesis
    using len by (fastforce simp: hdlc_modem_def has_feature_def sendable_def HDLC_BUF_SIZE_def Let_def)
qed

text \<open>
  C16. A data channel that reaches its end stops the router: the receive loops take a read of
  no bytes for a message and read again, so no number of iterations is enough.
\<close>

theorem end_of_data_never_returns:
  assumes "perifs s p = Obj perif" and "dm_wf s"
  shows "data_recv_raw_loop fuel p (Eof # es) s = Inl Diverged \<and>
    (rx_holds perif [] \<longrightarrow> data_recv_hdlc_loop fuel p (Eof # es) s = Inl Diverged)"
proof -
  have "data_recv_hdlc_loop fuel p (Eof # es) s = Inl Diverged" if "rx_holds perif []"
    using that data_recv_hdlc_eof [OF assms, of "[]" fuel es] by (auto simp: rx_holds_def)
  then show ?thesis using data_recv_raw_eof [OF assms] by blast
qed

theorem end_of_data_never_returns_witness:
  "data_recv_raw_loop 100 0 [Eof] scene = Inl Diverged \<and> data_recv_hdlc_loop 100 0 [Eof] scene = Inl Diverged"
  using end_of_data_never_returns [of scene 0 modem 100 "[]"] by (simp add: rx_holds_def circ_settled_def modem_def circ_empty_inv)

text \<open>
  Without an end of file the receive loops of the data channel end, whatever the channel
  delivers, whatever is in the receiver and whether or not memory runs out: a failed read is
  all it takes.
\<close>

theorem data_recv_ends:
  fixes s :: "'z cntl_state_scheme"
  assumes "perifs s p = Obj perif" and "circ_inv (p_recv_buf perif)" and "dm_wf s" and "Eof \<notin> set es"
  shows "diag_data_recv p es s \<noteq> Inl Diverged"
  by (rule diag_data_recv_returns [OF assms])

theorem data_recv_ends_witness:
  "diag_data_recv 0 [Data [1, 2, 0x7e], Fail EIO] (set_perif 0 hdlc_modem scene) \<noteq> Inl Diverged"
  by (rule data_recv_ends [where perif = hdlc_modem]) (simp_all add: hdlc_modem_def modem_def circ_empty_inv)

text \<open>
  C28. The command channel takes each read for one frame: a frame with the two marks, a length
  that fits and the closing delimiter is broadcast without them, anything else is dropped.
\<close>

theorem command_frames:
  fixes s :: "'z cntl_state_scheme"
  assumes "length bs \<le> CMD_BUF_SIZE"
  shows "diag_cmd_recv p [Data bs] s =
    andthen (case frame_payload bs of None \<Rightarrow> Inr (s\<lparr>alloc_no := Suc (alloc_no s)\<rparr>)
             | Some msg \<Rightarrow> dm_broadcast msg None (s\<lparr>alloc_no := Suc (alloc_no s)\<rparr>)) (\<lambda>s. Inr (0, [], s))"
  by (rule diag_cmd_recv_frame [OF assms])

theorem command_frames_witness:
  "diag_cmd_recv 0 [Data [0x7e, 1, 2, 0, 0x4b, 0x12, 0x7e]] scene =
    andthen (dm_broadcast [0x4b, 0x12] None (scene\<lparr>alloc_no := 1\<rparr>)) (\<lambda>s. Inr (0, [], s))"
  using command_frames [of "[0x7e, 1, 2, 0, 0x4b, 0x12, 0x7e]" 0 scene] by (simp add: CMD_BUF_SIZE_def u16_of_def)

section \<open>Devices that come and go\<close>

text \<open>
  C12. The registry of channels follows the events of udev: after any sequence of them the
  device nodes are the map in which an added node keeps its first channel and processor until
  it is removed, and there is one peripheral for each processor whose data channel was seen,
  in the order in which they appeared.
\<close>

theorem udev_events_tracked:
  assumes "rpmsg_wf s"
  shows "\<exists>s'. fold_res udev_step devs s = Inr s' \<and> rpmsg_wf s' \<and>
    udev_view s' = fold udev_effect devs (udev_view s)"
  by (rule udev_events_view [OF assms])

definition channel_added :: udev_device where
  "channel_added = \<lparr>ud_action = chars ''add'', ud_devnode = Some (chars ''/dev/rpmsg0''), ud_name = Some (chars ''DIAG''),
     ud_parents = [None, Some (chars ''mpss'')]\<rparr>"

theorem udev_events_tracked_witness:
  "\<exists>s'. fold_res udev_step [channel_added] scene = Inr s' \<and>
    devnode_view s' = [chars ''/dev/rpmsg0'' \<mapsto> (chars ''DIAG'', chars ''mpss'')] \<and>
    perif_names s' = [chars ''modem'', chars ''mpss'']"
proof -
  have init: "devnodes scene = []" "next_perif scene = 1" by (simp_all add: scene_def)
  then have wf: "rpmsg_wf scene" and v: "udev_view scene = (Map.empty, [chars ''modem''])"
    by (simp_all add: rpmsg_wf_def devnodes_wf_def perifs_named_def perif_names_def perif_name_def udev_view_def
        devnode_view_def modem_def chars_def)
  show ?thesis
    using udev_events_tracked [OF wf, of "[channel_added]"]
    by (simp add: v udev_effect_def channel_added_def registered_def primary_channel_def chars_def)
      (auto simp: udev_view_def)
qed

text \<open>
  C29. At any time at most one watch writes the data queue of a QRTR peripheral, and there is
  one exactly when the channel is marked as open, after any packets and failed reads in any
  order.
\<close>

theorem one_data_watch:
  assumes "data_watch_inv p s" and "qrtr_data_recvs decode p evs s = Inr s'"
  shows "data_watch_inv p s'"
  by (rule qrtr_data_recvs_inv [OF assms])

definition data_packet :: qrtr_packet where
  "data_packet = \<lparr>qp_type = QrtrData, qp_node = 1, qp_port = 77, qp_data = 0, qp_len = 3\<rparr>"

theorem one_data_watch_witness:
  "\<exists>s'. qrtr_data_recvs (\<lambda>_. Inr data_packet) 0 [Recv [1, 2, 3], RecvFail EIO, Recv [4, 5, 6]]
      (set_perif 0 (modem\<lparr>p_data_open := False\<rparr>) scene) = Inr s' \<and>
    data_watch_inv 0 s'"
proof -
  let ?s = "set_perif 0 (modem\<lparr>p_data_open := False\<rparr>) scene"
  let ?run = "qrtr_data_recvs (\<lambda>_. Inr data_packet) 0 [Recv [1, 2, 3], RecvFail EIO, Recv [4, 5, 6]] ?s"
  have "aio_watches ?s = []" by (simp add: set_perif_def)
  then have "data_watch_inv 0 ?s" by (simp add: data_watch_inv_def)
  moreover obtain s' where "?run = Inr s'"
    by (simp add: qrtr_data_recv_def alloca_def data_packet_def set_perif_def watch_add_writeq_def calloc_or_exit_def malloc_def
        non_hdlc_recv_def rd8_def mem_msg_def mem_drop_def CNTL_BUF_SIZE_def)
  ultimately show ?thesis using one_data_watch by blast
qed

section \<open>Transports\<close>

text \<open>
  Opening the USB function leaks no descriptor: when a step fails every descriptor that
  was opened is closed, once; when none does, the endpoints of the handle are what remains.
\<close>

theorem endpoints_closed:
  "let r = ffs_diag_init calls h in
   mset (ffs_opened r) = mset (ffs_closed r) +
     (if ffs_ret r < 0 then {#} else {# usb_ep0 (ffs_handle r), usb_bulk_out (ffs_handle r), usb_bulk_in (ffs_handle r) #})"
  using ffs_no_leak [of calls h] ffs_kept_open [of calls h] by (simp add: Let_def)

section \<open>Ending and not ending\<close>

text \<open>
  C6. Every turn of the event loop comes to its end: in a state that the program reaches, the
  walks over both tables and all loops over received bytes end, whatever is delivered, unless a
  data channel reports the end of its stream or a transfer from USB fills the whole buffer. The
  turn may stop the program with a fault, but it does not hang.
\<close>

theorem every_turn_ends:
  fixes s :: "'z usb_state_scheme"
  assumes "initial s" and "router_main opts env decode tns s = Inr (r, s')"
    and "data_end (tn_answers tn) (read_watches s')"
    and "\<forall>evs ev. tn_events tn = Some evs \<and> ev \<in> set evs \<longrightarrow> ev_res ev < int HDLC_BUF_SIZE"
  shows "watch_turn decode tn s' \<noteq> Inl Diverged"
proof -
  have "yields False (\<lambda>(_, t). ends_inv t) (watch_turn decode tn s')"
    by (rule turn_ends [OF ends_inv_main [OF assms(1,2)] assms(3)]) (use assms(4) in blast)
  then show ?thesis by (rule yields_ends)
qed

theorem every_turn_ends_witness:
  "\<exists>s'. router_main [] plain_env (\<lambda>_. Inl (-1)) [] start = Inr (True, s') \<and>
     watch_turn (\<lambda>_. Inl (-1))
       \<lparr>tn_clock = (1, 0), tn_submit = \<lambda>_. True, tn_select = SelReady [0, 1, 2, 3, 4, 5] True,
        tn_events = Some [\<lparr>ev_watch = 7, ev_res = 100, ev_data = [1, 2, 3]\<rparr>],
        tn_answers = \<lambda>_ _. no_answers\<lparr>an_accept := 9, an_nonblock := 0\<rparr>, tn_open = \<lambda>_. -1\<rparr> s' \<noteq> Inl Diverged"
proof -
  obtain t where "diag_main [] plain_env start = Inr t"
    using main_boots [OF start_initial plain_env_opens] by blast
  then have run: "router_main [] plain_env (\<lambda>_. Inl (-1)) [] start = Inr (True, t)" by (simp add: router_main_def)
  moreover have "data_end (\<lambda>_ _. no_answers\<lparr>an_accept := 9, an_nonblock := 0\<rparr>) ws" for ws
    by (simp add: data_end_def no_answers_def)
  ultimately show ?thesis
    by (intro exI conjI) (assumption, rule every_turn_ends [OF start_initial(1) run], auto simp: HDLC_BUF_SIZE_def)
qed

text \<open>
  C17. A transfer from USB that fills the buffer with messages stops the router: the loop over
  the frames ends when the tail reaches the head, and the head is outside the ring, so the
  messages of the transfer are handled again and again. Whatever the number of iterations, the
  loop has handled that many requests, the messages of the transfer in their order round after
  round, and is not at its end; so it does not return unless a handler fails.
\<close>

theorem full_transfer_never_returns:
  fixes s :: "'z usb_state_scheme"
  assumes "h < length (usb_handles s)" and "usb_dm (usb_handles s ! h) = Some c" and "c < length (clients s)"
    and "cl_encode_type (clients s ! c) = DIAG_ENCODE_HDLC"
    and "m_offset mb = of_nat HDLC_BUF_SIZE" and "m_data mb = concat (map hdlc_encode_bytes ms)"
    and "length (m_data mb) = HDLC_BUF_SIZE"
  shows "(\<forall>fuel. \<exists>reqs. list_all2 request_of reqs (cycled fuel ms) \<and>
      dm_recv_frames fuel c decoder_zero (ffs_ring mb) s = andthen (handle_all c reqs s) (\<lambda>_. Inl Diverged)) \<and>
    (\<exists>reqs. list_all2 request_of reqs (cycled HDLC_BUF_SIZE ms) \<and>
      diag_ffs_recv h mb s = andthen (handle_all c reqs s) (\<lambda>_. Inl Diverged))"
proof -
  have loop: "\<exists>reqs. list_all2 request_of reqs (cycled fuel ms) \<and>
      dm_recv_frames fuel c decoder_zero (ffs_ring mb) s = andthen (handle_all c reqs s) (\<lambda>_. Inl Diverged)" for fuel
    using full_ring_frames [OF assms(5-7), where fuel = fuel and c = c] by blast
  obtain reqs where "list_all2 request_of reqs (cycled HDLC_BUF_SIZE ms)"
      "dm_recv_frames HDLC_BUF_SIZE c decoder_zero (ffs_ring mb) s = andthen (handle_all c reqs s) (\<lambda>_. Inl Diverged)"
    using loop by blast
  moreover from this(2) have "diag_ffs_recv h mb s = andthen (handle_all c reqs s) (\<lambda>_. Inl Diverged)"
    using full_transfer [OF assms(1-5,7)] by (simp add: andthen_assoc)
  ultimately show ?thesis using loop by blast
qed

text \<open>
  4096 requests for the version, in one transfer: each is answered, and the loop goes on for
  any number of iterations.
\<close>

definition version_state :: usb_state where
  "version_state = scene\<lparr>usb_handles := [\<lparr>usb_ep0 = 30, usb_bulk_out = 31, usb_bulk_in = 32, usb_dm = Some 1\<rparr>]\<rparr>"

definition version_transfer :: mbuf where
  "version_transfer =
     \<lparr>m_size = 16384, m_offset = 16384, m_flow = None, m_data = concat (replicate 4096 [0, 0x78, 0xf0, 0x7e])\<rparr>"

lemma version_frame: "hdlc_encode_bytes [0] = [0, 0x78, 0xf0, 0x7e]"
  by (simp add: hdlc_encode_bytes_eq fcs_bytes_def crc_of_def hdlc_crc_byte_division crc_shift8_def crc_shift_def stuff_def)

lemma version_request:
  assumes "queued version_state s" and "dm_wf s" and "request_of r [0]"
  shows "\<exists>s'. diag_client_handle_command (Some 1) (fst r) (snd r) s = Inr (0, s') \<and> queued version_state s' \<and> dm_wf s'"
proof -
  have s: "clients s = clients scene" "diag_cmds s = [modem_cmd]" "common_cmds s = common_table" "fallback_cmds s = fallback_table"
    using assms(1) by (auto simp: queued_def version_state_def)
  have "0 < cap (fst r)" "byte (fst r) 0 = 0" using assms(3) by (auto simp: request_of_def rd_bytes_def split: if_splits)
  then have key: "dispatch_key (fst r) = Inr 0xffff0000" using dispatch_key_byte [of "fst r"] by simp
  let ?s = "pushed (ClientOutq 1) (client_encode (clients s ! 1) (replicate 55 0)) None (bump (client_cost (clients s ! 1)) s)"
  have "dm_send (Some 1) (replicate 55 0) s = Inr (0, ?s)"
    using dm_send_flow_ok [OF assms(2), of 1] by (simp add: dm_send_def s(1))
  then have "diag_client_handle_command (Some 1) (fst r) (snd r) s = Inr (0, ?s)"
    by (simp add: diag_client_handle_command_def diag_cmd_dispatch_def key s common_table_def fallback_table_def modem_cmd_def
        matches_def call_cb_def own_cmd_def run_cb_def handle_diag_version_no_def errno_defs)
  moreover have "queued version_state ?s" by (rule queued_trans [OF assms(1) queued_pushed])
  ultimately show ?thesis using assms(2) by (auto simp: dm_wf_def)
qed

lemma version_requests:
  "list_all2 request_of reqs ms \<Longrightarrow> set ms \<subseteq> {[0]} \<Longrightarrow> queued version_state s \<Longrightarrow> dm_wf s \<Longrightarrow> \<exists>s'. handle_all 1 reqs s = Inr s'"
proof (induction reqs ms arbitrary: s rule: list_all2_induct)
  case (Cons r reqs m ms)
  with version_request [OF Cons.prems(2,3), of r] show ?case by (cases r) auto
qed simp

theorem full_transfer_never_returns_witness:
  "(\<forall>fuel. dm_recv_frames fuel 1 decoder_zero (ffs_ring version_transfer) version_state = Inl Diverged) \<and>
   diag_ffs_recv 0 version_transfer version_state = Inl Diverged"
proof -
  let ?ms = "replicate 4096 [0] :: u8 list list"
  have handled: "\<exists>s'. handle_all 1 reqs version_state = Inr s'" if "list_all2 request_of reqs (cycled n ?ms)" for reqs n
    by (rule version_requests [OF that])
      (use set_cycled [of ?ms n] scene_dm_wf in \<open>auto simp: version_state_def dm_wf_def mem_ok_def\<close>)
  have data: "m_data version_transfer = concat (map hdlc_encode_bytes ?ms)" "length (m_data version_transfer) = HDLC_BUF_SIZE"
    by (simp_all add: version_transfer_def version_frame length_concat sum_list_replicate HDLC_BUF_SIZE_def)
  have state: "0 < length (usb_handles version_state)" "usb_dm (usb_handles version_state ! 0) = Some 1"
    "1 < length (clients version_state)" "cl_encode_type (clients version_state ! 1) = DIAG_ENCODE_HDLC"
    "m_offset version_transfer = of_nat HDLC_BUF_SIZE"
    by (simp_all add: version_state_def version_transfer_def HDLC_BUF_SIZE_def)
  note full = full_transfer_never_returns [OF state data]
  have "dm_recv_frames fuel 1 decoder_zero (ffs_ring version_transfer) version_state = Inl Diverged" for fuel
    using full handled [of _ fuel] by (metis andthen_Inr)
  moreover have "diag_ffs_recv 0 version_transfer version_state = Inl Diverged"
    using full handled [of _ HDLC_BUF_SIZE] by (metis andthen_Inr)
  ultimately show ?thesis by blast
qed

text \<open>
  C37. The hex dump shows every byte: a dump of a buffer of at most 65536 bytes stays inside its
  line array, and the digits read back are the bytes of the buffer.
\<close>

theorem hex_dump_reads_back:
  assumes "length bs \<le> 0x10000"
  shows "\<exists>out. print_hex_dump pre bs = Inr out \<and> undump (length pre) (length bs) out = bs"
  using hex_dump_round_trip [of 0 bs pre] assms by (simp add: print_hex_dump_def)

theorem hex_dump_reads_back_witness:
  "\<exists>out. print_hex_dump [0x3e] [0x00, 0x41, 0xff] = Inr out \<and> undump 1 3 out = [0x00, 0x41, 0xff]"
  using hex_dump_reads_back [of "[0x00, 0x41, 0xff]" "[0x3e]"] by (simp add: numeral_3_eq_3)

text \<open>
  C38. What a peripheral reads from the packets that announce masks is what the tables hold:
  when masks are in force, the announcement of a log mask and of the event mask puts two packets
  on the control queue, whose fields, read at the offsets of the structures, are the number of
  items and the mask of the log mask's equipment id, and the bytes of the event mask.
\<close>

theorem masks_reach_peripherals:
  assumes "log_masks_wf s" and "event_masks_wf s" and "mem_ok s" and "perifs s p = Obj perif"
    and "p_cntl_fd perif \<noteq> -1" and "diag_get_log_mask_status s = DIAG_CTRL_MASK_VALID"
    and "diag_get_event_mask_status s = DIAG_CTRL_MASK_VALID" and "unat e < MAX_EQUIP_ID"
  shows "\<exists>s' ml me lg ev.
    andthen (diag_cntl_send_log_mask p e s) (diag_cntl_send_event_mask p) = Inr s' \<and>
    queues s' (PerifCntlq p) = queues s (PerifCntlq p) @ [ml, me] \<and>
    log_mask_read (mem_of (m_data ml)) = Inr lg \<and>
    log_view s (unat e) = Some (lmp_last_item lg, lmp_equip_log_mask lg) \<and>
    event_mask_read (mem_of (m_data me)) = Inr ev \<and>
    length (emp_event_mask ev) = bits_to_bytes16 (event_max_num_bits s) \<and>
    (\<forall>i < length (emp_event_mask ev). event_view s i = Some (emp_event_mask ev ! i))"
proof -
  let ?k = "send_cost s DIAG_CTRL_MASK_VALID True"
  let ?t = "pushed (PerifCntlq p) (log_mask_packet s e) None (bump ?k s)"
  have same: "event_mask ?t = event_mask s" "event_max_num_bits ?t = event_max_num_bits s" "perifs ?t = perifs s"
    by (simp_all add: pushed_def bump_def enqueue_def watch_flow_inc_def)
  have views: "event_view ?t = event_view s" "event_masks_wf ?t = event_masks_wf s"
    "diag_get_event_mask_status ?t = diag_get_event_mask_status s"
    by (simp_all add: same fun_eq_iff event_view_def event_masks_wf_def diag_get_event_mask_status_def split: pointer.split)
  have "diag_cntl_send_log_mask p e s = Inr ?t" using send_log_mask_ok [OF assms(1,3-5), of e] assms(6,8) by simp
  moreover have "diag_cntl_send_event_mask p ?t =
      Inr (pushed (PerifCntlq p) (event_mask_packet ?t) None (bump (send_cost ?t DIAG_CTRL_MASK_VALID True) ?t))"
    using send_event_mask_ok [of ?t p perif] assms(2-5,7) by (simp add: views same)
  moreover obtain lg where "log_mask_read (mem_of (log_mask_packet s e)) = Inr lg"
      "log_view s (unat e) = Some (lmp_last_item lg, lmp_equip_log_mask lg)"
    using log_mask_read_back [OF assms(1,3,8,6)] by blast
  moreover obtain ev where "event_mask_read (mem_of (event_mask_packet ?t)) = Inr ev"
      "length (emp_event_mask ev) = bits_to_bytes16 (event_max_num_bits s)"
      "\<forall>i < length (emp_event_mask ev). event_view s i = Some (emp_event_mask ev ! i)"
    using event_mask_read_back [of ?t] assms(2,7) by (auto simp: views same)
  ultimately show ?thesis by (auto simp: pushed_def mbuf_for_def bump_def)
qed

theorem masks_reach_peripherals_witness:
  "let s = scene\<lparr>log_mask := (log_mask scene)\<lparr>mi_status := DIAG_CTRL_MASK_VALID\<rparr>,
                 event_mask := (event_mask scene)\<lparr>mi_status := DIAG_CTRL_MASK_VALID\<rparr>\<rparr> in
   \<exists>s' ml me lg ev.
    andthen (diag_cntl_send_log_mask 0 4 s) (diag_cntl_send_event_mask 0) = Inr s' \<and>
    queues s' (PerifCntlq 0) = [ml, me] \<and>
    log_mask_read (mem_of (m_data ml)) = Inr lg \<and> log_view s 4 = Some (lmp_last_item lg, lmp_equip_log_mask lg) \<and>
    event_mask_read (mem_of (m_data me)) = Inr ev \<and> event_view s 7 = Some (emp_event_mask ev ! 7)"
proof -
  let ?s = "scene\<lparr>log_mask := (log_mask scene)\<lparr>mi_status := DIAG_CTRL_MASK_VALID\<rparr>,
                 event_mask := (event_mask scene)\<lparr>mi_status := DIAG_CTRL_MASK_VALID\<rparr>\<rparr>"
  have wf: "log_masks_wf ?s" "event_masks_wf ?s" "mem_ok ?s"
    using scene_masks(2,3) scene_mem_ok by (simp_all add: log_masks_wf_def event_masks_wf_def mem_ok_def)
  have "bits_to_bytes16 (event_max_num_bits ?s) > 7" by (simp add: bits_to_bytes16_def)
  with masks_reach_peripherals [OF wf, of 0 modem 4] show ?thesis
    by (auto simp: diag_get_log_mask_status_def diag_get_event_mask_status_def MAX_EQUIP_ID_def Let_def)
qed

text \<open>
  Where characters are signed, the test tool does not recognise the answer to a command with
  a code of 128 or more: whatever is answered, bad command apart, it goes on waiting.
\<close>

theorem high_command_unanswered:
  assumes "0x80 \<le> code" and "\<forall>r \<in> set rs. r = NotReady \<or> (\<exists>ch bs. r = Received (ch # bs) \<and> ch \<noteq> 0x13)"
  shows "\<exists>out. receive_loop True (code # msg) rs = Inr (None, out)"
  by (rule high_command_never_ends) (use assms in auto)

theorem high_command_unanswered_witness:
  "\<exists>out. receive_loop True [0x80] [Received [0x80, 1], NotReady, Received [0x80, 2]] = Inr (None, out)"
  by (rule high_command_unanswered) auto

end
